(* ===== verification/UOSC_Prelude.thy ===== *)
theory UOSC_Prelude
  imports Main "HOL-Library.Word" "HOL-Library.Multiset"
begin

text \<open>
  Shared vocabulary of the development: the Rust integer types as words, the \<open>Result\<close> type as a
  sum, the list and word lemmas that several components use, and the collections of rewrite
  rules they declare into.

  Integer arithmetic is the release-profile arithmetic of the build command in the repository's
  README: unsigned words wrap around. Operations the source guards itself (\<open>checked_mul\<close>,
  \<open>saturating_mul\<close>, \<open>saturating_sub\<close>, \<open>div_ceil\<close>, \<open>ilog2\<close>,
  \<open>trailing_zeros\<close>) are defined here with the meaning the Rust standard library documents.
\<close>

unbundle bit_operations_syntax

section \<open>Types\<close>

type_synonym u8 = "8 word"
type_synonym u16 = "16 word"
type_synonym u32 = "32 word"
type_synonym u64 = "64 word"
type_synonym u128 = "128 word"
type_synonym usize = "64 word"

text \<open>\<open>Result<T, E>\<close>: \<open>Inl\<close> carries the error, \<open>Inr\<close> the value.\<close>

type_synonym ('e, 'a) result = "'e + 'a"

abbreviation Err :: "'e \<Rightarrow> ('e, 'a) result" where
  "Err \<equiv> Inl"

abbreviation Ok :: "'a \<Rightarrow> ('e, 'a) result" where
  "Ok \<equiv> Inr"

definition ok_or :: "'e \<Rightarrow> 'a option \<Rightarrow> ('e, 'a) result" where
  "ok_or e x = (case x of None \<Rightarrow> Err e | Some v \<Rightarrow> Ok v)"

fun is_ok :: "('e, 'a) result \<Rightarrow> bool" where
  "is_ok (Inr _) = True"
| "is_ok (Inl _) = False"

lemma ok_or_simps [simp]:
  "ok_or e None = Err e"
  "ok_or e (Some v) = Ok v"
  by (simp_all add: ok_or_def)

lemma ok_or_eq_Ok_iff [simp]: "ok_or e x = Ok v \<longleftrightarrow> x = Some v"
  by (cases x) auto

lemma ok_or_eq_Err_iff [simp]: "ok_or e x = Err e' \<longleftrightarrow> x = None \<and> e' = e"
  by (cases x) auto

lemma is_ok_iff: "is_ok r \<longleftrightarrow> (\<exists>v. r = Ok v)"
  by (cases r) auto

lemmas result_splits = option.splits sum.splits prod.splits if_splits

section \<open>Integer operations of the Rust standard library\<close>

definition u64_max :: u64 where
  "u64_max = - 1"

definition checked_mul :: "'a::len word \<Rightarrow> 'a word \<Rightarrow> 'a word option" where
  "checked_mul a b = (if unat a * unat b < 2 ^ LENGTH('a) then Some (a * b) else None)"

definition saturating_mul :: "'a::len word \<Rightarrow> 'a word \<Rightarrow> 'a word" where
  "saturating_mul a b = (if unat a * unat b < 2 ^ LENGTH('a) then a * b else - 1)"

definition saturating_sub :: "'a::len word \<Rightarrow> 'a word \<Rightarrow> 'a word" where
  "saturating_sub a b = (if a < b then 0 else a - b)"

definition div_ceil :: "'a::len word \<Rightarrow> 'a word \<Rightarrow> 'a word" where
  "div_ceil a b = (if a mod b = 0 then a div b else a div b + 1)"

fun ilog2 :: "nat \<Rightarrow> nat" where
  "ilog2 n = (if n \<le> 1 then 0 else Suc (ilog2 (n div 2)))"

fun trailing_zeros :: "nat \<Rightarrow> nat" where
  "trailing_zeros n = (if n = 0 \<or> odd n then 0 else Suc (trailing_zeros (n div 2)))"

declare ilog2.simps [simp del] trailing_zeros.simps [simp del]

lemma ilog2_lower: "0 < n \<Longrightarrow> 2 ^ ilog2 n \<le> n"
proof (induction n rule: ilog2.induct)
  case (1 n)
  show ?case
  proof (cases "n \<le> 1")
    case True
    with 1 show ?thesis by (simp add: ilog2.simps [of n])
  next
    case False
    with 1 have "2 ^ ilog2 (n div 2) \<le> n div 2" by simp
    with False show ?thesis by (simp add: ilog2.simps [of n])
  qed
qed

lemma ilog2_upper: "n < 2 ^ Suc (ilog2 n)"
proof (induction n rule: ilog2.induct)
  case (1 n)
  show ?case
  proof (cases "n \<le> 1")
    case True
    then show ?thesis by (simp add: ilog2.simps [of n])
  next
    case False
    with 1 have "n div 2 < 2 ^ Suc (ilog2 (n div 2))" by simp
    with False show ?thesis by (simp add: ilog2.simps [of n])
  qed
qed

lemma trailing_zeros_dvd: "2 ^ trailing_zeros n dvd n"
proof (induction n rule: trailing_zeros.induct)
  case (1 n)
  show ?case
  proof (cases "n = 0 \<or> odd n")
    case True
    then show ?thesis by (simp add: trailing_zeros.simps [of n])
  next
    case False
    with 1 have "2 ^ trailing_zeros (n div 2) dvd n div 2" by simp
    then have "2 * 2 ^ trailing_zeros (n div 2) dvd 2 * (n div 2)" by (rule mult_dvd_mono [OF dvd_refl])
    with False show ?thesis by (simp add: trailing_zeros.simps [of n])
  qed
qed

lemma trailing_zeros_greatest:
  "0 < n \<Longrightarrow> 2 ^ k dvd n \<Longrightarrow> k \<le> trailing_zeros n"
proof (induction n arbitrary: k rule: trailing_zeros.induct)
  case (1 n)
  show ?case
  proof (cases "odd n")
    case True
    with "1.prems" have "k = 0" by (cases k) auto
    then show ?thesis by simp
  next
    case False
    show ?thesis
    proof (cases k)
      case (Suc j)
      with "1.prems" False have "2 ^ j dvd n div 2" by auto
      moreover have "0 < n div 2" using "1.prems"(1) False by (cases n) auto
      ultimately have "j \<le> trailing_zeros (n div 2)" using "1.IH" "1.prems"(1) False by simp
      with Suc False "1.prems"(1) show ?thesis by (simp add: trailing_zeros.simps [of n])
    qed simp
  qed
qed

lemma unat_u64_max [simp]: "unat u64_max = 2 ^ 64 - 1"
  by (simp add: u64_max_def unsigned_minus_1_eq_mask mask_eq_exp_minus_1)

lemma unat_u64_less: "unat (w::u64) < 2 ^ 64"
proof -
  have "unat w < 2 ^ LENGTH(64)" by (rule unsigned_less)
  then show ?thesis by simp
qed

lemma unat_of_nat_u64: "n < 2 ^ 64 \<Longrightarrow> unat (of_nat n :: u64) = n"
  by (simp add: unsigned_of_nat take_bit_nat_eq_self)

lemma unat_power2_u64: "k < 64 \<Longrightarrow> unat ((2::u64) ^ k) = 2 ^ k"
  using unat_of_nat_u64 [of "2 ^ k"] power_strict_increasing [of k 64 "2::nat"] by simp

lemma word_eq_of_nat: "unat x = n \<Longrightarrow> x = of_nat n"
  by auto

lemma ucast_of_nat_unat: "ucast w = of_nat (unat w)"
  by (simp add: word_unat_eq_iff unsigned_ucast_eq unsigned_of_nat)

lemma unat_add_u64: "unat (a::u64) + unat b < 2 ^ 64 \<Longrightarrow> unat (a + b) = unat a + unat b"
  by (simp add: unat_word_ariths)

lemma unat_mult_u64: "unat (a::u64) * unat b < 2 ^ 64 \<Longrightarrow> unat (a * b) = unat a * unat b"
  by (simp add: unat_word_ariths)

lemma not_u64_max: "unat n + Suc k < 2 ^ 64 \<Longrightarrow> n \<noteq> u64_max"
  by auto

lemma unat_succ: "n \<noteq> u64_max \<Longrightarrow> unat (n + 1) = unat n + 1"
  by (metis u64_max_def Suc_eq_plus1 add.commute add_eq_0_iff unatSuc)

lemma checked_mul_Some: "checked_mul a b = Some c \<Longrightarrow> unat c = unat a * unat b"
  by (auto simp: checked_mul_def unat_word_ariths split: if_splits)

lemma nat_div_ceil:
  fixes a b :: nat
  assumes "0 < b"
  shows "(a + b - 1) div b = (if a mod b = 0 then a div b else a div b + 1)"
proof -
  define q r where "q = a div b" and "r = a mod b"
  have a: "a = b * q + r" and r: "r < b" using assms by (simp_all add: q_def r_def)
  show ?thesis
  proof (cases "r = 0")
    case True
    then have "a + b - 1 = (b - 1) + q * b" using a assms by (simp add: mult.commute)
    then have "(a + b - 1) div b = q" using assms by (simp only: div_mult_self1) simp
    with True show ?thesis by (simp add: q_def r_def)
  next
    case False
    then have "a + b - 1 = (r - 1) + (q + 1) * b" using a assms by (simp add: algebra_simps)
    then have "(a + b - 1) div b = q + 1" using assms r by (simp only: div_mult_self1) simp
    with False show ?thesis by (simp add: q_def r_def)
  qed
qed

lemma unat_div_ceil:
  fixes a b :: "'a::len word"
  assumes "1 < b"
  shows "unat (div_ceil a b) = (unat a + unat b - 1) div unat b"
proof -
  have b: "2 \<le> unat b" using assms by (simp add: word_less_nat_alt)
  have "unat a div unat b \<le> unat a div 2" using b by (rule div_le_mono2 [OF zero_less_numeral])
  moreover have "unat b < 2 ^ LENGTH('a)" "unat a < 2 ^ LENGTH('a)" by (rule unsigned_less)+
  ultimately have small: "unat a div unat b + 1 < 2 ^ LENGTH('a)" using b by linarith
  have m0: "a mod b = 0 \<longleftrightarrow> unat a mod unat b = 0"
    by (metis unat_eq_zero unat_mod_distrib)
  show ?thesis
    using small m0 b nat_div_ceil [of "unat b" "unat a"]
    by (simp add: div_ceil_def unat_word_ariths unat_div_distrib)
qed

text \<open>Rounding an address down to a power of two.\<close>

lemma unat_align: "k < 64 \<Longrightarrow> unat (w AND NOT (mask k) :: u64) = unat w div 2 ^ k * 2 ^ k"
proof -
  assume k: "k < 64"
  have "w AND NOT (mask k) = push_bit k (drop_bit k w)" by (auto simp: bit_eq_iff bit_simps)
  then have "w AND NOT (mask k) = w div 2 ^ k * 2 ^ k" by (simp add: push_bit_eq_mult drop_bit_eq_div)
  moreover have "unat (w div 2 ^ k) = unat w div 2 ^ k" by (simp add: unat_div unat_power2_u64 k)
  moreover have "unat w div 2 ^ k * 2 ^ k < 2 ^ 64"
    using unat_u64_less [of w] div_times_less_eq_dividend [of "unat w" "2 ^ k"] by linarith
  ultimately show ?thesis by (simp only: unat_mult_u64 unat_power2_u64 k)
qed

section \<open>Searching a slice\<close>

text \<open>\<open>iter().position\<close>: the index of the first match.\<close>

fun position :: "('a \<Rightarrow> bool) \<Rightarrow> 'a list \<Rightarrow> nat option" where
  "position P [] = None"
| "position P (x # xs) = (if P x then Some 0 else map_option Suc (position P xs))"

lemma position_Some: "position P xs = Some i \<Longrightarrow> i < length xs \<and> P (xs ! i) \<and> (\<forall>j<i. \<not> P (xs ! j))"
proof (induction xs arbitrary: i)
  case (Cons x xs)
  show ?case
  proof (cases "P x")
    case False
    then obtain i' where "position P xs = Some i'" "i = Suc i'" using Cons.prems by auto
    then show ?thesis using Cons.IH False by (auto simp: less_Suc_eq_0_disj)
  qed (use Cons.prems in simp)
qed simp

lemma position_None: "position P xs = None \<longleftrightarrow> (\<forall>x \<in> set xs. \<not> P x)"
  by (induction xs) auto

lemma find_position: "find P xs = map_option ((!) xs) (position P xs)"
  by (induction xs) (auto simp: option.map_comp comp_def)

end
