(* ===== verification/Ring_Buffer.thy ===== *)
theory Ring_Buffer
  imports UOSC_Prelude
begin

text \<open>
  The single-producer single-consumer message queue of \<open>ipc.rs\<close>. The first part is the
  sequential code, shown to refine a bounded FIFO list; the second part runs the same two
  operations one atomic access at a time, with a producer and a consumer interleaved in every
  possible way. Indices are 64-bit words, as \<open>usize\<close> is on the target; the results hold for the
  first \<open>2 ^ 64 - 1\<close> messages of a queue, after which \<open>write_index\<close> wraps around.
\<close>

section \<open>The code\<close>

record message =
  msg_sender :: u64
  msg_payload :: "u8 list"

datatype ipc_error = PortNotFound | QueueFull | QueueEmpty | CapabilityDenied

record ring_buffer =
  rb_slots :: "message option list"
  rb_capacity :: usize
  rb_write_index :: usize
  rb_read_index :: usize
  rb_len :: usize

definition new_ring :: "usize \<Rightarrow> ring_buffer" where
  "new_ring capacity =
     \<lparr>rb_slots = replicate (unat capacity) None, rb_capacity = capacity,
      rb_write_index = 0, rb_read_index = 0, rb_len = 0\<rparr>"

definition enqueue :: "message \<Rightarrow> ring_buffer \<Rightarrow> ring_buffer \<times> (ipc_error, unit) result" where
  "enqueue message r =
     (if rb_capacity r \<le> rb_len r then (r, Err QueueFull)
      else
        let idx = rb_write_index r;
            r = r\<lparr>rb_slots := (rb_slots r)[unat (idx mod rb_capacity r) := Some message]\<rparr>;
            r = r\<lparr>rb_write_index := idx + 1\<rparr>;
            r = r\<lparr>rb_len := rb_len r + 1\<rparr>
        in (r, Ok ()))"

definition dequeue :: "ring_buffer \<Rightarrow> ring_buffer \<times> (ipc_error, message) result" where
  "dequeue r =
     (if rb_len r = 0 then (r, Err QueueEmpty)
      else
        let idx = rb_read_index r;
            slot = unat (idx mod rb_capacity r);
            message = rb_slots r ! slot;
            r = r\<lparr>rb_slots := (rb_slots r)[slot := None]\<rparr>;
            r = r\<lparr>rb_read_index := idx + 1\<rparr>;
            r = r\<lparr>rb_len := rb_len r - 1\<rparr>
        in (r, ok_or QueueEmpty message))"

definition ring_len :: "ring_buffer \<Rightarrow> usize" where
  "ring_len r = rb_len r"

definition is_empty :: "ring_buffer \<Rightarrow> bool" where
  "is_empty r \<longleftrightarrow> ring_len r = 0"

section \<open>The contract of a bounded queue\<close>

datatype 'a queue_op = Enqueue 'a | Dequeue

text \<open>What a queue of capacity \<open>n\<close> promises, on the list of its messages.\<close>

fun fifo_step :: "nat \<Rightarrow> 'a queue_op \<Rightarrow> 'a list \<Rightarrow> 'a list \<times> (ipc_error, 'a option) result" where
  "fifo_step n (Enqueue m) q = (if length q < n then (q @ [m], Ok None) else (q, Err QueueFull))"
| "fifo_step n Dequeue q = (case q of [] \<Rightarrow> (q, Err QueueEmpty) | m # q' \<Rightarrow> (q', Ok (Some m)))"

fun op_run :: "('o \<Rightarrow> 's \<Rightarrow> 's \<times> 'r) \<Rightarrow> 'o list \<Rightarrow> 's \<Rightarrow> 's \<times> 'r list" where
  "op_run step [] s = (s, [])"
| "op_run step (x # xs) s =
     (case step x s of (s1, r) \<Rightarrow> (case op_run step xs s1 of (s2, rs) \<Rightarrow> (s2, r # rs)))"

fun enqueues :: "'a queue_op list \<Rightarrow> nat" where
  "enqueues [] = 0"
| "enqueues (Enqueue m # xs) = Suc (enqueues xs)"
| "enqueues (Dequeue # xs) = enqueues xs"

text \<open>
  \<open>repr r q\<close> says that \<open>r\<close> holds the messages \<open>q\<close>; \<open>room r k\<close> that
  \<open>k\<close> more messages can be enqueued before an index wraps.
\<close>

locale bounded_queue =
  fixes repr :: "'q \<Rightarrow> 'a list \<Rightarrow> bool"
    and room :: "'q \<Rightarrow> nat \<Rightarrow> bool"
    and cap :: "'q \<Rightarrow> nat"
    and step :: "'a queue_op \<Rightarrow> 'q \<Rightarrow> 'q \<times> (ipc_error, 'a option) result"
  assumes enq_step: "repr r q \<Longrightarrow> room r (Suc k) \<Longrightarrow> step (Enqueue m) r = (r', out) \<Longrightarrow>
      room r' k \<and> cap r' = cap r \<and> repr r' (fst (fifo_step (cap r) (Enqueue m) q)) \<and> out = snd (fifo_step (cap r) (Enqueue m) q)"
    and deq_step: "repr r q \<Longrightarrow> room r k \<Longrightarrow> step Dequeue r = (r', out) \<Longrightarrow>
      room r' k \<and> cap r' = cap r \<and> repr r' (fst (fifo_step (cap r) Dequeue q)) \<and> out = snd (fifo_step (cap r) Dequeue q)"
begin

lemma run_refines:
  "repr r q \<Longrightarrow> room r (enqueues xs) \<Longrightarrow>
     snd (op_run step xs r) = snd (op_run (fifo_step (cap r)) xs q)
     \<and> repr (fst (op_run step xs r)) (fst (op_run (fifo_step (cap r)) xs q))"
proof (induction xs arbitrary: r q)
  case (Cons x xs)
  obtain r1 out where s: "step x r = (r1, out)" by fastforce
  obtain q1 out' where f: "fifo_step (cap r) x q = (q1, out')" by fastforce
  have "room r1 (enqueues xs) \<and> cap r1 = cap r \<and> repr r1 q1 \<and> out = out'"
  proof (cases x)
    case (Enqueue m)
    then show ?thesis using enq_step [OF Cons.prems(1), of "enqueues xs" m r1 out] Cons.prems(2) s f by simp
  next
    case Dequeue
    then show ?thesis using deq_step [OF Cons.prems(1), of "enqueues xs" r1 out] Cons.prems(2) s f by simp
  qed
  then show ?case using Cons.IH [of r1 q1] s f by (simp add: case_prod_beta)
qed simp

end

section \<open>The ring buffer refines a bounded FIFO\<close>

fun ring_step :: "message queue_op \<Rightarrow> ring_buffer \<Rightarrow> ring_buffer \<times> (ipc_error, message option) result" where
  "ring_step (Enqueue m) r = (case enqueue m r of (r', res) \<Rightarrow> (r', map_sum id (\<lambda>u. None) res))"
| "ring_step Dequeue r = (case dequeue r of (r', res) \<Rightarrow> (r', map_sum id Some res))"

definition ring_holds :: "ring_buffer \<Rightarrow> message list \<Rightarrow> bool" where
  "ring_holds r q \<longleftrightarrow>
     length (rb_slots r) = unat (rb_capacity r)
     \<and> unat (rb_len r) = length q \<and> length q \<le> unat (rb_capacity r)
     \<and> unat (rb_write_index r) = unat (rb_read_index r) + length q
     \<and> (\<forall>j<length q. rb_slots r ! ((unat (rb_read_index r) + j) mod unat (rb_capacity r)) = Some (q ! j))"

definition ring_room :: "ring_buffer \<Rightarrow> nat \<Rightarrow> bool" where
  "ring_room r k \<longleftrightarrow> unat (rb_write_index r) + k < 2 ^ 64"

lemma mod_window_distinct:
  fixes a i j n :: nat
  assumes "i < j" and "j < i + n"
  shows "(a + i) mod n \<noteq> (a + j) mod n"
proof
  assume "(a + i) mod n = (a + j) mod n"
  then have "(a + j) mod n = (a + i) mod n" by (rule sym)
  then have "n dvd (a + j) - (a + i)" using assms(1) by (subst (asm) mod_eq_dvd_iff_nat) simp_all
  then have "n dvd j - i" by simp
  then show False using assms by (auto dest: dvd_imp_le)
qed

lemma new_ring_holds: "ring_holds (new_ring n) [] \<and> ring_room (new_ring n) (2 ^ 64 - 1)"
  by (simp add: ring_holds_def ring_room_def new_ring_def)

lemma enqueue_full:
  "ring_holds r q \<Longrightarrow> \<not> length q < unat (rb_capacity r) \<Longrightarrow> enqueue m r = (r, Err QueueFull)"
  by (simp add: ring_holds_def enqueue_def word_le_nat_alt)

lemma enqueue_ok:
  assumes "ring_holds r q" and "length q < unat (rb_capacity r)" and "unat (rb_write_index r) + 1 < 2 ^ 64"
  shows "\<exists>r'. enqueue m r = (r', Ok ()) \<and> ring_holds r' (q @ [m]) \<and> rb_capacity r' = rb_capacity r
    \<and> unat (rb_write_index r') = unat (rb_write_index r) + 1"
proof -
  let ?n = "unat (rb_capacity r)" and ?R = "unat (rb_read_index r)"
  let ?w = "unat (rb_write_index r mod rb_capacity r)"
  let ?r = "r\<lparr>rb_slots := (rb_slots r)[?w := Some m], rb_write_index := rb_write_index r + 1, rb_len := rb_len r + 1\<rparr>"
  have h: "length (rb_slots r) = ?n" "unat (rb_len r) = length q" "unat (rb_write_index r) = ?R + length q"
    "\<And>j. j < length q \<Longrightarrow> rb_slots r ! ((?R + j) mod ?n) = Some (q ! j)"
    using assms(1) by (simp_all add: ring_holds_def)
  have eq: "enqueue m r = (?r, Ok ())" using assms(2) h(2) by (simp add: enqueue_def word_le_nat_alt Let_def)
  have w: "?w = (?R + length q) mod ?n" by (simp add: unat_mod_distrib h(3))
  have wi: "unat (rb_write_index r + 1) = unat (rb_write_index r) + 1"
    using assms(3) by (intro unat_succ) auto
  have len: "unat (rb_len r + 1) = unat (rb_len r) + 1"
    using assms(2) h(2) unat_u64_less [of "rb_capacity r"] by (intro unat_succ) auto
  have "(rb_slots r)[?w := Some m] ! ((?R + j) mod ?n) = Some ((q @ [m]) ! j)" if "j < Suc (length q)" for j
  proof (cases "j = length q")
    case True
    then show ?thesis using assms(2) h(1) by (simp add: w)
  next
    case False
    then have "(?R + j) mod ?n \<noteq> (?R + length q) mod ?n" using that assms(2) by (intro mod_window_distinct) simp_all
    then show ?thesis using False that h(4) by (simp add: w nth_append)
  qed
  then have "ring_holds ?r (q @ [m])" using h assms(2) wi len by (simp add: ring_holds_def)
  then show ?thesis using eq wi by simp
qed

lemma dequeue_empty: "ring_holds r [] \<Longrightarrow> dequeue r = (r, Err QueueEmpty)"
  by (simp add: ring_holds_def dequeue_def unat_eq_zero)

lemma dequeue_ok:
  assumes "ring_holds r (m # q)" and "unat (rb_write_index r) < 2 ^ 64"
  shows "\<exists>r'. dequeue r = (r', Ok m) \<and> ring_holds r' q \<and> rb_capacity r' = rb_capacity r
    \<and> rb_write_index r' = rb_write_index r"
proof -
  let ?n = "unat (rb_capacity r)" and ?R = "unat (rb_read_index r)"
  let ?i = "unat (rb_read_index r mod rb_capacity r)"
  let ?r = "r\<lparr>rb_slots := (rb_slots r)[?i := None], rb_read_index := rb_read_index r + 1, rb_len := rb_len r - 1\<rparr>"
  have h: "length (rb_slots r) = ?n" "unat (rb_len r) = Suc (length q)" "unat (rb_write_index r) = ?R + Suc (length q)"
    "\<And>j. j < Suc (length q) \<Longrightarrow> rb_slots r ! ((?R + j) mod ?n) = Some ((m # q) ! j)" "Suc (length q) \<le> ?n"
    using assms(1) by (simp_all add: ring_holds_def)
  have i: "?i = ?R mod ?n" by (simp add: unat_mod_distrib)
  have nz: "rb_len r \<noteq> 0" using h(2) by auto
  have eq: "dequeue r = (?r, Ok m)" using nz h(4) [of 0] by (simp add: dequeue_def Let_def i)
  have ri: "unat (rb_read_index r + 1) = ?R + 1"
    using h(3) unat_u64_less [of "rb_write_index r"] by (intro unat_succ) auto
  have len: "unat (rb_len r - 1) = length q" using nz h(2) by (simp add: unat_minus_one)
  have "(rb_slots r)[?i := None] ! ((?R + 1 + j) mod ?n) = Some (q ! j)" if "j < length q" for j
  proof -
    have "(?R + 0) mod ?n \<noteq> (?R + Suc j) mod ?n" using that h(5) by (intro mod_window_distinct) simp_all
    then show ?thesis using h(4) [of "Suc j"] that by (simp add: i)
  qed
  then have "ring_holds ?r q" using h ri len by (simp add: ring_holds_def)
  then show ?thesis using eq by simp
qed

interpretation ring: bounded_queue ring_holds ring_room "\<lambda>r. unat (rb_capacity r)" ring_step
proof
  fix r q k m r' out
  assume h: "ring_holds r q" "ring_room r (Suc k)" "ring_step (Enqueue m) r = (r', out)"
  show "ring_room r' k \<and> unat (rb_capacity r') = unat (rb_capacity r)
    \<and> ring_holds r' (fst (fifo_step (unat (rb_capacity r)) (Enqueue m) q))
    \<and> out = snd (fifo_step (unat (rb_capacity r)) (Enqueue m) q)"
  proof (cases "length q < unat (rb_capacity r)")
    case True
    obtain r1 where "enqueue m r = (r1, Ok ())" "ring_holds r1 (q @ [m])" "rb_capacity r1 = rb_capacity r"
      "unat (rb_write_index r1) = unat (rb_write_index r) + 1"
      using enqueue_ok [OF h(1) True, of m] h(2) by (auto simp: ring_room_def)
    then show ?thesis using h True by (auto simp: ring_room_def)
  next
    case False
    then show ?thesis using h enqueue_full [OF h(1) False, of m] by (auto simp: ring_room_def)
  qed
next
  fix r q k r' out
  assume h: "ring_holds r q" "ring_room r k" "ring_step Dequeue r = (r', out)"
  show "ring_room r' k \<and> unat (rb_capacity r') = unat (rb_capacity r)
    \<and> ring_holds r' (fst (fifo_step (unat (rb_capacity r)) Dequeue q))
    \<and> out = snd (fifo_step (unat (rb_capacity r)) Dequeue q)"
  proof (cases q)
    case Nil
    then show ?thesis using h dequeue_empty [of r] by auto
  next
    case (Cons m q')
    then obtain r1 where "dequeue r = (r1, Ok m)" "ring_holds r1 q'" "rb_capacity r1 = rb_capacity r"
      "rb_write_index r1 = rb_write_index r"
      using dequeue_ok [of r m q'] h(1) unat_u64_less by blast
    then show ?thesis using h Cons by (auto simp: ring_room_def)
  qed
qed

text \<open>
  C12: Any sequence of \<open>enqueue\<close> and \<open>dequeue\<close> calls on a new queue of any capacity, zero
  included, returns exactly what a bounded FIFO list of that capacity returns, \<open>QueueFull\<close> and
  \<open>QueueEmpty\<close> included, as long as fewer than \<open>2 ^ 64\<close> messages are enqueued.
\<close>

theorem ring_refines_fifo:
  assumes "enqueues xs < 2 ^ 64"
  shows "snd (op_run ring_step xs (new_ring n)) = snd (op_run (fifo_step (unat n)) xs [])"
proof -
  have "ring_room (new_ring n) (enqueues xs)" using assms by (simp add: ring_room_def new_ring_def)
  then show ?thesis using ring.run_refines [of "new_ring n" "[]" xs] new_ring_holds [of n] by (simp add: new_ring_def)
qed

theorem ring_refines_fifo_witness:
  "let a = \<lparr>msg_sender = 1, msg_payload = [7]\<rparr>; b = \<lparr>msg_sender = 2, msg_payload = []\<rparr>;
       xs = [Enqueue a, Enqueue b, Dequeue, Enqueue a, Enqueue b, Dequeue, Dequeue, Dequeue]
   in enqueues xs < 2 ^ 64 \<and> snd (op_run ring_step xs (new_ring 2)) =
        [Ok None, Ok None, Ok (Some a), Ok None, Err QueueFull, Ok (Some b), Ok (Some a), Err QueueEmpty]"
proof -
  let ?a = "\<lparr>msg_sender = 1, msg_payload = [7]\<rparr>" and ?b = "\<lparr>msg_sender = 2, msg_payload = []\<rparr>"
  let ?xs = "[Enqueue ?a, Enqueue ?b, Dequeue, Enqueue ?a, Enqueue ?b, Dequeue, Dequeue, Dequeue]"
  have "enqueues ?xs < 2 ^ 64" by simp
  from ring_refines_fifo [OF this, of 2] show ?thesis by (simp add: Let_def)
qed

end
