(* ===== verification/Ring_Concurrent.thy ===== *)
theory Ring_Concurrent
  imports Ring_Buffer
begin

text \<open>
  The ring buffer under a concurrent producer and consumer. \<open>enqueue\<close> and \<open>dequeue\<close> are cut
  at their shared accesses: the load of \<open>len\<close>, the load of the own index, the slot
  access, the store of the index, and the atomic update of \<open>len\<close>. A step of the system is one such access
  by either side, so that every interleaving is a path of \<open>spsc_step\<close>. Accesses take
  effect in the order of the path; the orderings weaker than that, which \<open>Relaxed\<close> and
  \<open>Acquire\<close>/\<open>Release\<close> permit on other hardware, are not modelled.

  \<open>sent\<close> and \<open>received\<close> record the messages written to a slot and those returned
  to the caller; no step reads them.
\<close>

section \<open>The two programs\<close>

datatype producer =
  PIdle | PChecked message | PIdx message usize | PWritten usize | PStored

datatype consumer =
  CIdle | CChecked | CIdx usize | CTaken usize "message option" | CStored "message option"

record spsc =
  ring :: ring_buffer
  prod :: producer
  cons :: consumer
  sent :: "message list"
  received :: "message list"

definition spsc_init :: "usize \<Rightarrow> spsc" where
  "spsc_init n = \<lparr>ring = new_ring n, prod = PIdle, cons = CIdle, sent = [], received = []\<rparr>"

definition write_slot :: "usize \<Rightarrow> message option \<Rightarrow> ring_buffer \<Rightarrow> ring_buffer" where
  "write_slot idx v r = r\<lparr>rb_slots := (rb_slots r)[unat (idx mod rb_capacity r) := v]\<rparr>"

definition read_slot :: "usize \<Rightarrow> ring_buffer \<Rightarrow> message option" where
  "read_slot idx r = rb_slots r ! unat (idx mod rb_capacity r)"

inductive spsc_step :: "spsc \<Rightarrow> spsc \<Rightarrow> bool" where
  p_full: "prod s = PIdle \<Longrightarrow> rb_capacity (ring s) \<le> rb_len (ring s) \<Longrightarrow> spsc_step s s"
| p_check: "prod s = PIdle \<Longrightarrow> \<not> rb_capacity (ring s) \<le> rb_len (ring s) \<Longrightarrow>
    spsc_step s (s\<lparr>prod := PChecked m\<rparr>)"
| p_load: "prod s = PChecked m \<Longrightarrow> spsc_step s (s\<lparr>prod := PIdx m (rb_write_index (ring s))\<rparr>)"
| p_write: "prod s = PIdx m i \<Longrightarrow>
    spsc_step s (s\<lparr>ring := write_slot i (Some m) (ring s), prod := PWritten i, sent := sent s @ [m]\<rparr>)"
| p_store: "prod s = PWritten i \<Longrightarrow>
    spsc_step s (s\<lparr>ring := (ring s)\<lparr>rb_write_index := i + 1\<rparr>, prod := PStored\<rparr>)"
| p_add: "prod s = PStored \<Longrightarrow>
    spsc_step s (s\<lparr>ring := (ring s)\<lparr>rb_len := rb_len (ring s) + 1\<rparr>, prod := PIdle\<rparr>)"
| c_empty: "cons s = CIdle \<Longrightarrow> rb_len (ring s) = 0 \<Longrightarrow> spsc_step s s"
| c_check: "cons s = CIdle \<Longrightarrow> rb_len (ring s) \<noteq> 0 \<Longrightarrow> spsc_step s (s\<lparr>cons := CChecked\<rparr>)"
| c_load: "cons s = CChecked \<Longrightarrow> spsc_step s (s\<lparr>cons := CIdx (rb_read_index (ring s))\<rparr>)"
| c_take: "cons s = CIdx i \<Longrightarrow>
    spsc_step s (s\<lparr>ring := write_slot i None (ring s), cons := CTaken i (read_slot i (ring s))\<rparr>)"
| c_store: "cons s = CTaken i v \<Longrightarrow>
    spsc_step s (s\<lparr>ring := (ring s)\<lparr>rb_read_index := i + 1\<rparr>, cons := CStored v\<rparr>)"
| c_sub: "cons s = CStored v \<Longrightarrow>
    spsc_step s (s\<lparr>ring := (ring s)\<lparr>rb_len := rb_len (ring s) - 1\<rparr>, cons := CIdle,
      received := received s @ (case v of None \<Rightarrow> [] | Some m \<Rightarrow> [m])\<rparr>)"

text \<open>Run without interruption, the producer's steps are the function \<open>enqueue\<close>.\<close>

lemma producer_steps_are_enqueue:
  assumes "prod s = PIdle" and "snd (enqueue m (ring s)) = Ok ()"
  shows "spsc_step\<^sup>*\<^sup>* s (s\<lparr>ring := fst (enqueue m (ring s)), sent := sent s @ [m]\<rparr>)"
proof -
  have free: "\<not> rb_capacity (ring s) \<le> rb_len (ring s)"
    using assms(2) by (auto simp: enqueue_def split: if_splits)
  let ?i = "rb_write_index (ring s)"
  let ?s1 = "s\<lparr>prod := PChecked m\<rparr>" and ?s2 = "s\<lparr>prod := PIdx m ?i\<rparr>"
  let ?s3 = "s\<lparr>ring := write_slot ?i (Some m) (ring s), prod := PWritten ?i, sent := sent s @ [m]\<rparr>"
  let ?s4 = "?s3\<lparr>ring := (ring ?s3)\<lparr>rb_write_index := ?i + 1\<rparr>, prod := PStored\<rparr>"
  let ?s5 = "?s4\<lparr>ring := (ring ?s4)\<lparr>rb_len := rb_len (ring ?s4) + 1\<rparr>, prod := PIdle\<rparr>"
  have "spsc_step s ?s1" by (rule p_check [OF assms(1) free])
  moreover have "spsc_step ?s1 ?s2" using p_load [of ?s1 m] by simp
  moreover have "spsc_step ?s2 ?s3" using p_write [of ?s2 m ?i] by simp
  moreover have "spsc_step ?s3 ?s4" by (rule p_store) simp
  moreover have "spsc_step ?s4 ?s5" by (rule p_add) simp
  moreover have "?s5 = s\<lparr>ring := fst (enqueue m (ring s)), sent := sent s @ [m]\<rparr>"
    using free assms(1) by (simp add: enqueue_def Let_def write_slot_def)
  ultimately show ?thesis
    by (metis (no_types, lifting) r_into_rtranclp rtranclp.rtrancl_into_rtrancl)
qed

section \<open>The invariant\<close>

fun written_early :: "producer \<Rightarrow> nat" where
  "written_early (PWritten i) = 1" | "written_early PStored = 1"
| "written_early PIdle = 0" | "written_early (PChecked m) = 0" | "written_early (PIdx m i) = 0"

fun taken_early :: "consumer \<Rightarrow> nat" where
  "taken_early (CTaken i v) = 1" | "taken_early (CStored v) = 1"
| "taken_early CIdle = 0" | "taken_early CChecked = 0" | "taken_early (CIdx i) = 0"

fun unstored_p :: "producer \<Rightarrow> nat" where
  "unstored_p (PWritten i) = 1" | "unstored_p PStored = 0"
| "unstored_p PIdle = 0" | "unstored_p (PChecked m) = 0" | "unstored_p (PIdx m i) = 0"

fun unstored_c :: "consumer \<Rightarrow> nat" where
  "unstored_c (CTaken i v) = 1" | "unstored_c (CStored v) = 0"
| "unstored_c CIdle = 0" | "unstored_c CChecked = 0" | "unstored_c (CIdx i) = 0"

definition taken :: "spsc \<Rightarrow> nat" where
  "taken s = length (received s) + taken_early (cons s)"

fun prod_ok :: "producer \<Rightarrow> ring_buffer \<Rightarrow> bool" where
  "prod_ok (PChecked m) r = (rb_len r < rb_capacity r)"
| "prod_ok (PIdx m i) r = (rb_len r < rb_capacity r \<and> i = rb_write_index r)"
| "prod_ok (PWritten i) r = (i = rb_write_index r)"
| "prod_ok PIdle r = True" | "prod_ok PStored r = True"

fun cons_ok :: "consumer \<Rightarrow> spsc \<Rightarrow> bool" where
  "cons_ok CChecked s = (rb_len (ring s) \<noteq> 0)"
| "cons_ok (CIdx i) s = (rb_len (ring s) \<noteq> 0 \<and> i = rb_read_index (ring s))"
| "cons_ok (CTaken i v) s = (rb_len (ring s) \<noteq> 0 \<and> i = rb_read_index (ring s) \<and> v = Some (sent s ! length (received s)))"
| "cons_ok (CStored v) s = (rb_len (ring s) \<noteq> 0 \<and> v = Some (sent s ! length (received s)))"
| "cons_ok CIdle s = True"

definition spsc_inv :: "spsc \<Rightarrow> bool" where
  "spsc_inv s \<longleftrightarrow>
     length (rb_slots (ring s)) = unat (rb_capacity (ring s))
     \<and> unat (rb_len (ring s)) + written_early (prod s) + length (received s) = length (sent s)
     \<and> taken s \<le> length (sent s)
     \<and> length (sent s) \<le> length (received s) + unat (rb_capacity (ring s))
     \<and> unat (rb_write_index (ring s)) + unstored_p (prod s) = length (sent s)
     \<and> unat (rb_read_index (ring s)) + unstored_c (cons s) = taken s
     \<and> prod_ok (prod s) (ring s) \<and> cons_ok (cons s) s
     \<and> (\<forall>j. taken s \<le> j \<longrightarrow> j < length (sent s) \<longrightarrow>
          rb_slots (ring s) ! (j mod unat (rb_capacity (ring s))) = Some (sent s ! j))
     \<and> received s = take (length (received s)) (sent s)"

lemma spsc_inv_init: "spsc_inv (spsc_init n)"
  by (simp add: spsc_inv_def spsc_init_def new_ring_def taken_def)

lemma spsc_invD:
  assumes "spsc_inv s"
  shows "length (rb_slots (ring s)) = unat (rb_capacity (ring s))"
    and "unat (rb_len (ring s)) + written_early (prod s) + length (received s) = length (sent s)"
    and "taken s \<le> length (sent s)"
    and "length (sent s) \<le> length (received s) + unat (rb_capacity (ring s))"
    and "unat (rb_write_index (ring s)) + unstored_p (prod s) = length (sent s)"
    and "unat (rb_read_index (ring s)) + unstored_c (cons s) = taken s"
    and "prod_ok (prod s) (ring s)" and "cons_ok (cons s) s"
    and "\<And>j. taken s \<le> j \<Longrightarrow> j < length (sent s) \<Longrightarrow>
          rb_slots (ring s) ! (j mod unat (rb_capacity (ring s))) = Some (sent s ! j)"
    and "received s = take (length (received s)) (sent s)"
  using assms by (simp_all add: spsc_inv_def)

lemma slot_other:
  assumes "i < j" "j < i + n" shows "i mod n \<noteq> j mod (n::nat)"
  using mod_window_distinct [OF assms, of 0] by simp

lemma cons_ok_pc [simp]:
  "cons_ok c (s\<lparr>prod := p\<rparr>) = cons_ok c s" "cons_ok c (s\<lparr>cons := c'\<rparr>) = cons_ok c s"
  by (cases c; simp)+

lemma cons_ok_grow:
  assumes "cons_ok c s" and "taken_early c + length (received s) \<le> length (sent s)"
  shows "cons_ok c (s\<lparr>ring := (ring s)\<lparr>rb_slots := x\<rparr>, prod := p, sent := sent s @ [m]\<rparr>)"
  using assms by (cases c) (auto simp: nth_append)

lemma inv_p_write:
  assumes inv: "spsc_inv s" and p: "prod s = PIdx m i"
  shows "spsc_inv (s\<lparr>ring := write_slot i (Some m) (ring s), prod := PWritten i, sent := sent s @ [m]\<rparr>)"
proof -
  let ?n = "unat (rb_capacity (ring s))" and ?W = "length (sent s)"
  note d = spsc_invD [OF inv]
  have i: "i = rb_write_index (ring s)" and lt: "unat (rb_len (ring s)) < ?n"
    using d(7) p by (simp_all add: word_less_nat_alt)
  have W: "?W < length (received s) + ?n" using d(2) lt p by simp
  have slot: "unat (i mod rb_capacity (ring s)) = ?W mod ?n" using d(5) p i by (simp add: unat_mod_distrib)
  have "(rb_slots (ring s))[?W mod ?n := Some m] ! (j mod ?n) = Some ((sent s @ [m]) ! j)"
    if j: "taken s \<le> j" "j < Suc ?W" for j
  proof (cases "j = ?W")
    case True
    then show ?thesis using d(1) lt by simp
  next
    case False
    then have "j mod ?n \<noteq> ?W mod ?n" using j W by (intro slot_other) (simp_all add: taken_def)
    then show ?thesis using False j d(9) by (simp add: nth_append)
  qed
  moreover have "taken_early (cons s) + length (received s) \<le> ?W" using d(3) by (simp add: taken_def)
  moreover have "length (received s) \<le> ?W" using d(3) by (simp add: taken_def)
  moreover have "received s = take (length (received s)) (sent s @ [m])"
    using d(10) \<open>length (received s) \<le> ?W\<close> by simp
  ultimately show ?thesis
    using d(1-6) p i W cons_ok_grow [OF d(8)] by (simp add: spsc_inv_def write_slot_def slot slot [unfolded i] taken_def)
qed

lemma inv_c_take:
  assumes inv: "spsc_inv s" and c: "cons s = CIdx i"
  shows "spsc_inv (s\<lparr>ring := write_slot i None (ring s), cons := CTaken i (read_slot i (ring s))\<rparr>)"
    and "read_slot i (ring s) = Some (sent s ! length (received s))"
proof -
  let ?n = "unat (rb_capacity (ring s))" and ?R = "length (received s)"
  note d = spsc_invD [OF inv]
  have i: "i = rb_read_index (ring s)" and nz: "rb_len (ring s) \<noteq> 0" using d(8) c by simp_all
  then have "0 < unat (rb_len (ring s))" by (simp add: unat_gt_0)
  then have lt: "?R < length (sent s)" using d(2) by linarith
  have slot: "unat (i mod rb_capacity (ring s)) = ?R mod ?n"
    using d(6) c i by (simp add: unat_mod_distrib taken_def)
  show rd: "read_slot i (ring s) = Some (sent s ! ?R)"
    using d(9) [of ?R] lt c by (simp add: read_slot_def slot taken_def)
  have "(rb_slots (ring s))[?R mod ?n := None] ! (j mod ?n) = Some (sent s ! j)"
    if j: "Suc ?R \<le> j" "j < length (sent s)" for j
  proof -
    have "?R mod ?n \<noteq> j mod ?n" using j d(4) by (intro slot_other) simp_all
    then show ?thesis using j d(9) [of j] c by (simp add: taken_def)
  qed
  moreover have "prod_ok (prod s) ((ring s)\<lparr>rb_slots := x\<rparr>)" for x
    using d(7) by (cases "prod s") simp_all
  ultimately show "spsc_inv (s\<lparr>ring := write_slot i None (ring s), cons := CTaken i (read_slot i (ring s))\<rparr>)"
    using d(1-6,10) c i nz lt rd by (simp add: spsc_inv_def write_slot_def slot slot [unfolded i] taken_def)
qed

lemma inv_p_index:
  assumes inv: "spsc_inv s" and lim: "length (sent s) < 2 ^ 64"
  shows "prod s = PWritten i \<Longrightarrow> spsc_inv (s\<lparr>ring := (ring s)\<lparr>rb_write_index := i + 1\<rparr>, prod := PStored\<rparr>)"
    and "prod s = PStored \<Longrightarrow> spsc_inv (s\<lparr>ring := (ring s)\<lparr>rb_len := rb_len (ring s) + 1\<rparr>, prod := PIdle\<rparr>)"
proof -
  note d = spsc_invD [OF inv]
  show "spsc_inv (s\<lparr>ring := (ring s)\<lparr>rb_write_index := i + 1\<rparr>, prod := PStored\<rparr>)" if p: "prod s = PWritten i"
  proof -
    have i: "i = rb_write_index (ring s)" using d(7) p by simp
    have "unat (i + 1) = unat i + 1" using d(5) p i lim by (intro unat_succ) auto
    moreover have "cons_ok (cons s) (s\<lparr>ring := (ring s)\<lparr>rb_write_index := i + 1\<rparr>, prod := PStored\<rparr>)"
      using d(8) by (cases "cons s") simp_all
    ultimately show ?thesis using d p i by (simp add: spsc_inv_def taken_def)
  qed
  show "spsc_inv (s\<lparr>ring := (ring s)\<lparr>rb_len := rb_len (ring s) + 1\<rparr>, prod := PIdle\<rparr>)" if p: "prod s = PStored"
  proof -
    have len: "unat (rb_len (ring s) + 1) = unat (rb_len (ring s)) + 1"
      using d(2) p lim by (intro unat_succ) auto
    then have "rb_len (ring s) + 1 \<noteq> 0" by (metis add_is_0 one_neq_zero unat_0)
    then have "cons_ok (cons s) (s\<lparr>ring := (ring s)\<lparr>rb_len := rb_len (ring s) + 1\<rparr>, prod := PIdle\<rparr>)"
      using d(8) by (cases "cons s") simp_all
    then show ?thesis using d p len by (simp add: spsc_inv_def taken_def)
  qed
qed

lemma inv_c_index:
  assumes inv: "spsc_inv s" and lim: "length (sent s) < 2 ^ 64"
  shows "cons s = CTaken i v \<Longrightarrow> spsc_inv (s\<lparr>ring := (ring s)\<lparr>rb_read_index := i + 1\<rparr>, cons := CStored v\<rparr>)"
    and "cons s = CStored v \<Longrightarrow> spsc_inv (s\<lparr>ring := (ring s)\<lparr>rb_len := rb_len (ring s) - 1\<rparr>, cons := CIdle,
      received := received s @ (case v of None \<Rightarrow> [] | Some m \<Rightarrow> [m])\<rparr>)"
proof -
  note d = spsc_invD [OF inv]
  show "spsc_inv (s\<lparr>ring := (ring s)\<lparr>rb_read_index := i + 1\<rparr>, cons := CStored v\<rparr>)" if c: "cons s = CTaken i v"
  proof -
    have i: "i = rb_read_index (ring s)" using d(8) c by simp
    have "unat (i + 1) = unat i + 1" using d(3,6) c i lim by (intro unat_succ) auto
    moreover have "prod_ok (prod s) ((ring s)\<lparr>rb_read_index := i + 1\<rparr>)" using d(7) by (cases "prod s") simp_all
    ultimately show ?thesis using d c i by (simp add: spsc_inv_def taken_def)
  qed
  show "spsc_inv (s\<lparr>ring := (ring s)\<lparr>rb_len := rb_len (ring s) - 1\<rparr>, cons := CIdle,
      received := received s @ (case v of None \<Rightarrow> [] | Some m \<Rightarrow> [m])\<rparr>)" if c: "cons s = CStored v"
  proof -
    have nz: "rb_len (ring s) \<noteq> 0" and v: "v = Some (sent s ! length (received s))" using d(8) c by simp_all
    have len: "unat (rb_len (ring s) - 1) = unat (rb_len (ring s)) - 1" "0 < unat (rb_len (ring s))"
      using nz by (simp_all add: unat_minus_one unat_gt_0)
    have lt: "length (received s) < length (sent s)" using d(3) c by (simp add: taken_def)
    have "prod_ok (prod s) ((ring s)\<lparr>rb_len := rb_len (ring s) - 1\<rparr>)"
      using d(7) len by (cases "prod s") (simp_all add: word_less_nat_alt)
    moreover have "received s @ [sent s ! length (received s)] = take (Suc (length (received s))) (sent s)"
      using d(10) lt by (simp add: take_Suc_conv_app_nth)
    ultimately show ?thesis using d c v len lt by (simp add: spsc_inv_def taken_def)
  qed
qed

lemma spsc_inv_step:
  assumes "spsc_step s s'" and "spsc_inv s" and "length (sent s) < 2 ^ 64"
  shows "spsc_inv s'"
  using assms
proof (induction rule: spsc_step.cases)
  case (p_check s m)
  then show ?case by (simp add: spsc_inv_def taken_def)
next
  case (p_load s m)
  then show ?case by (simp add: spsc_inv_def taken_def)
next
  case (c_check s)
  then show ?case by (simp add: spsc_inv_def taken_def)
next
  case (c_load s)
  then show ?case by (simp add: spsc_inv_def taken_def)
qed (simp_all add: inv_p_write inv_c_take(1) inv_p_index inv_c_index)

lemma sent_grows: "spsc_step s s' \<Longrightarrow> length (sent s) \<le> length (sent s')"
  by (induction rule: spsc_step.induct) simp_all

lemma spsc_reachable_inv:
  "spsc_step\<^sup>*\<^sup>* (spsc_init n) s \<Longrightarrow> length (sent s) < 2 ^ 64 \<Longrightarrow> spsc_inv s"
proof (induction rule: rtranclp_induct)
  case base
  show ?case by (rule spsc_inv_init)
next
  case (step s s')
  then have "length (sent s) < 2 ^ 64" using sent_grows [OF step.hyps(2)] by linarith
  then show ?case using step.IH spsc_inv_step [OF step.hyps(2)] by simp
qed

lemma spsc_capacity: "spsc_step\<^sup>*\<^sup>* (spsc_init n) s \<Longrightarrow> rb_capacity (ring s) = n"
proof (induction rule: rtranclp_induct)
  case base
  show ?case by (simp add: spsc_init_def new_ring_def)
next
  case (step s s')
  have "rb_capacity (ring s') = rb_capacity (ring s)"
    using step.hyps(2) by (induction rule: spsc_step.cases) (simp_all add: write_slot_def)
  then show ?case using step.IH by simp
qed

section \<open>Properties\<close>

text \<open>
  No data race on a slot. When the producer is about to write a slot and the consumer is about to take
  one, these are different slots; and the slot the consumer takes always holds a
  message, so that \<open>dequeue\<close> never answers \<open>QueueEmpty\<close> after it has passed its length check.
\<close>

lemma spsc_no_race:
  assumes "spsc_step\<^sup>*\<^sup>* (spsc_init n) s" and "length (sent s) < 2 ^ 64" and "cons s = CIdx j"
  shows "(prod s = PIdx m i \<longrightarrow> i mod n \<noteq> j mod n) \<and> read_slot j (ring s) = Some (sent s ! length (received s))"
proof
  note inv = spsc_reachable_inv [OF assms(1,2)]
  note d = spsc_invD [OF inv]
  have cap: "rb_capacity (ring s) = n" by (rule spsc_capacity [OF assms(1)])
  show "read_slot j (ring s) = Some (sent s ! length (received s))" by (rule inv_c_take(2) [OF inv assms(3)])
  show "prod s = PIdx m i \<longrightarrow> i mod n \<noteq> j mod n"
  proof
    assume p: "prod s = PIdx m i"
    have i: "unat i = length (sent s)" "unat (rb_len (ring s)) < unat n" using d(5,7) p cap by (simp_all add: word_less_nat_alt)
    have j: "unat j = length (received s)" "rb_len (ring s) \<noteq> 0" using d(6,8) assms(3) by (simp_all add: taken_def)
    then have "0 < unat (rb_len (ring s))" by (simp add: unat_gt_0)
    then have "unat j mod unat n \<noteq> unat i mod unat n" using i j d(2) p by (intro slot_other) simp_all
    then show "i mod n \<noteq> j mod n" by (metis unat_mod_distrib)
  qed
qed

text \<open>
  C13: First in, first out under every interleaving, without a race. Whatever the producer and the consumer have done, the messages
  received are a prefix of those sent: none is lost, duplicated, reordered or invented. At most
  \<open>capacity\<close> messages are under way. Whenever both sides are between calls the buffer holds
  exactly the messages sent and not yet received. When the consumer is about to take a slot, that slot holds the next message, so that
  \<open>dequeue\<close> never answers \<open>QueueEmpty\<close> after its length check, and a producer about to write is about to write a different slot.
\<close>

theorem spsc_fifo:
  assumes "spsc_step\<^sup>*\<^sup>* (spsc_init n) s" and "length (sent s) < 2 ^ 64"
  shows "received s = take (length (received s)) (sent s)
    \<and> length (sent s) \<le> length (received s) + unat n
    \<and> (prod s = PIdle \<and> cons s = CIdle \<longrightarrow> ring_holds (ring s) (drop (length (received s)) (sent s)))
    \<and> (\<forall>j m i. cons s = CIdx j \<longrightarrow>
         read_slot j (ring s) = Some (sent s ! length (received s)) \<and> (prod s = PIdx m i \<longrightarrow> i mod n \<noteq> j mod n))"
proof -
  note d = spsc_invD [OF spsc_reachable_inv [OF assms]]
  have cap: "rb_capacity (ring s) = n" by (rule spsc_capacity [OF assms(1)])
  have "ring_holds (ring s) (drop (length (received s)) (sent s))" if idle: "prod s = PIdle" "cons s = CIdle"
  proof -
    have "unat (rb_len (ring s)) = length (sent s) - length (received s)"
      "length (sent s) - length (received s) \<le> unat (rb_capacity (ring s))"
      using d(2,4) idle by auto
    then show ?thesis using d idle by (simp add: ring_holds_def taken_def)
  qed
  then show ?thesis using d(4,10) cap spsc_no_race [OF assms] by simp
qed

text \<open>A producer that has completed one call and a consumer that has begun one.\<close>

definition demo_message :: message where
  "demo_message = \<lparr>msg_sender = 1, msg_payload = [7]\<rparr>"

definition demo_state :: spsc where
  "demo_state = \<lparr>ring = fst (enqueue demo_message (new_ring 2)), prod = PIdx demo_message 1, cons = CIdx 0,
     sent = [demo_message], received = []\<rparr>"

lemma demo_reachable: "spsc_step\<^sup>*\<^sup>* (spsc_init 2) demo_state"
proof -
  let ?r = "fst (enqueue demo_message (new_ring 2))"
  let ?s1 = "(spsc_init 2)\<lparr>ring := ?r, sent := [demo_message]\<rparr>"
  have ring: "?r = \<lparr>rb_slots = [Some demo_message, None], rb_capacity = 2, rb_write_index = 1, rb_read_index = 0, rb_len = 1\<rparr>"
    by code_simp
  have "snd (enqueue demo_message (new_ring 2)) = Ok ()" by code_simp
  then have "spsc_step\<^sup>*\<^sup>* (spsc_init 2) ?s1"
    using producer_steps_are_enqueue [of "spsc_init 2" demo_message] by (simp add: spsc_init_def)
  moreover have "spsc_step ?s1 (?s1\<lparr>cons := CChecked\<rparr>)" by (rule c_check) (simp_all add: spsc_init_def ring)
  moreover have "spsc_step (?s1\<lparr>cons := CChecked\<rparr>) (?s1\<lparr>cons := CIdx 0\<rparr>)"
    using c_load [of "?s1\<lparr>cons := CChecked\<rparr>"] by (simp add: ring)
  moreover have "spsc_step (?s1\<lparr>cons := CIdx 0\<rparr>) (?s1\<lparr>cons := CIdx 0, prod := PChecked demo_message\<rparr>)"
    using p_check [of "?s1\<lparr>cons := CIdx 0\<rparr>" demo_message] by (simp add: spsc_init_def ring word_le_nat_alt)
  moreover have "spsc_step (?s1\<lparr>cons := CIdx 0, prod := PChecked demo_message\<rparr>) demo_state"
    using p_load [of "?s1\<lparr>cons := CIdx 0, prod := PChecked demo_message\<rparr>" demo_message]
    by (simp add: spsc_init_def demo_state_def ring)
  ultimately show ?thesis by (meson rtranclp.rtrancl_into_rtrancl)
qed

theorem spsc_fifo_witness:
  "length (sent demo_state) < 2 ^ 64 \<and> received demo_state = take 0 (sent demo_state)
     \<and> length (sent demo_state) \<le> length (received demo_state) + unat (2::usize)
     \<and> read_slot 0 (ring demo_state) = Some demo_message \<and> (1::usize) mod 2 \<noteq> 0 mod 2"
proof -
  have len: "length (sent demo_state) < 2 ^ 64" by (simp add: demo_state_def)
  have "cons demo_state = CIdx 0" "prod demo_state = PIdx demo_message 1" by (simp_all add: demo_state_def)
  then show ?thesis using len spsc_fifo [OF demo_reachable len] by (simp add: demo_state_def)
qed

end
