(* ===== verification/Timer.thy ===== *)
theory Timer
  imports UOSC_Prelude
begin

text \<open>
  Timer arithmetic (\<open>timer.rs\<close>) at its machine widths, and the PIT programming of the kernel
  (\<open>pit.rs\<close>) as the list of port writes it makes. The results state the conversions over unbounded integers: which
  frequencies are refused, that the divisor is the nearest one, and that no intermediate
  product wraps around.
\<close>

section \<open>The code\<close>

datatype timer_error = ZeroFrequency | DivisorOutOfRange

definition PIT_BASE_FREQ_HZ :: u32 where "PIT_BASE_FREQ_HZ = 1193182"
definition APIC_BUS_CLOCK_HZ :: u32 where "APIC_BUS_CLOCK_HZ = 100000000"
definition APIC_DIVISOR :: u32 where "APIC_DIVISOR = 16"

definition pit_divisor :: "u32 \<Rightarrow> (timer_error, u16) result" where
  "pit_divisor freq_hz =
     (if freq_hz = 0 then Err ZeroFrequency
      else
        let divisor = (PIT_BASE_FREQ_HZ + freq_hz div 2) div freq_hz
        in if 0xFFFF < divisor then Err DivisorOutOfRange else Ok (ucast divisor))"

definition apic_initial_count :: "u32 \<Rightarrow> (timer_error, u32) result" where
  "apic_initial_count freq_hz =
     (if freq_hz = 0 then Err ZeroFrequency
      else (case checked_mul APIC_DIVISOR freq_hz of
          None \<Rightarrow> Err DivisorOutOfRange
        | Some divisor_product \<Rightarrow> Ok (APIC_BUS_CLOCK_HZ div divisor_product)))"

definition ticks_to_ns :: "u64 \<Rightarrow> u32 \<Rightarrow> (timer_error, u64) result" where
  "ticks_to_ns tick_count freq_hz =
     (if freq_hz = 0 then Err ZeroFrequency
      else let interval_ns = 1000000000 div ucast freq_hz in Ok (saturating_mul tick_count interval_ns))"

definition tsc_to_ns :: "u64 \<Rightarrow> u64 \<Rightarrow> (timer_error, u64) result" where
  "tsc_to_ns tsc tsc_frequency_hz =
     (if tsc_frequency_hz = 0 then Err ZeroFrequency
      else Ok (ucast ((ucast tsc * 1000000000 :: u128) div ucast tsc_frequency_hz)))"

text \<open>\<open>pit::set_frequency\<close>: the bytes written to the ports, or nothing if \<open>expect\<close> panics.\<close>

definition set_frequency :: "u32 \<Rightarrow> (u16 \<times> u8) list option" where
  "set_frequency freq_hz =
     (case pit_divisor freq_hz of
        Inl e \<Rightarrow> None
      | Inr divisor \<Rightarrow> Some [(0x43, 0x36), (0x40, ucast (divisor AND 0xFF)), (0x40, ucast (drop_bit 8 divisor))])"

section \<open>Reading the words\<close>

lemma unat_u32_less: "unat (w::u32) < 2 ^ 32"
proof -
  have "unat w < 2 ^ LENGTH(32)" by (rule unsigned_less)
  then show ?thesis by simp
qed

lemma unat_ucast_wider:
  fixes w :: "'a::len word"
  assumes "LENGTH('a) \<le> LENGTH('b::len)"
  shows "unat (ucast w :: 'b word) = unat w"
proof -
  have "unat w < 2 ^ LENGTH('a)" by (rule unsigned_less)
  also have "\<dots> \<le> 2 ^ LENGTH('b)" using assms by (rule power_increasing) simp
  finally have "unat w < 2 ^ LENGTH('b)" .
  then show ?thesis by (simp add: unsigned_ucast_eq take_bit_nat_eq_self)
qed

lemma unat_pit_quotient:
  "unat ((PIT_BASE_FREQ_HZ + f div 2) div f) = (1193182 + unat f div 2) div unat f"
proof -
  have "unat (PIT_BASE_FREQ_HZ + f div 2) = 1193182 + unat f div 2"
    using unat_u32_less [of f] by (simp add: PIT_BASE_FREQ_HZ_def unat_word_ariths unat_div_distrib)
  then show ?thesis by (simp add: unat_div_distrib)
qed

lemma pit_divisor_cases:
  assumes "f \<noteq> 0"
  defines "q \<equiv> (1193182 + unat f div 2) div unat f"
  shows "unat f \<le> 18 \<Longrightarrow> pit_divisor f = Err DivisorOutOfRange"
    and "18 < unat f \<Longrightarrow> q < 2 ^ 16 \<and> (\<exists>d. pit_divisor f = Ok d \<and> unat d = q)"
proof -
  have f: "0 < unat f" using assms(1) by (simp add: unat_gt_0)
  have "65536 \<le> q \<longleftrightarrow> 65536 * unat f \<le> 1193182 + unat f div 2"
    unfolding q_def using f by (simp add: less_eq_div_iff_mult_less_eq)
  also have "\<dots> \<longleftrightarrow> unat f \<le> 18"
  proof -
    have "2 * (unat f div 2) \<le> unat f" by simp
    then show ?thesis by linarith
  qed
  finally have big: "65536 \<le> q \<longleftrightarrow> unat f \<le> 18" .
  have guard: "0xFFFF < (PIT_BASE_FREQ_HZ + f div 2) div f \<longleftrightarrow> 65536 \<le> q"
    by (auto simp: word_less_nat_alt unat_pit_quotient q_def)
  show "pit_divisor f = Err DivisorOutOfRange" if "unat f \<le> 18"
    using that assms(1) guard big by (simp add: pit_divisor_def Let_def)
  assume "18 < unat f"
  then have small: "q < 2 ^ 16" using big by simp
  have "unat (ucast ((PIT_BASE_FREQ_HZ + f div 2) div f) :: u16) = q"
    using small by (simp add: unsigned_ucast_eq unat_pit_quotient q_def take_bit_nat_eq_self)
  then show "q < 2 ^ 16 \<and> (\<exists>d. pit_divisor f = Ok d \<and> unat d = q)"
    using assms(1) guard big \<open>18 < unat f\<close> small by (simp add: pit_divisor_def Let_def)
qed

section \<open>Properties\<close>

text \<open>
  C19: The PIT divisor. For every 32-bit frequency: zero is refused as such, the frequencies from 1 to 18 Hz, for which the
  divisor does not fit 16 bits, are refused as out of range, and for every other one the
  result is the integer nearest to \<open>1193182 / freq_hz\<close>. Above 2386364 Hz that integer is 0.
\<close>

theorem pit_divisor_nearest:
  "case pit_divisor f of
     Inl ZeroFrequency \<Rightarrow> f = 0
   | Inl DivisorOutOfRange \<Rightarrow> 1 \<le> unat f \<and> unat f \<le> 18
   | Inr d \<Rightarrow> 18 < unat f
       \<and> 2 * (unat d * unat f) \<le> 2 * 1193182 + unat f \<and> 2 * 1193182 \<le> 2 * (unat d * unat f) + unat f
       \<and> (d = 0 \<longleftrightarrow> 2386364 < unat f)"
proof (cases "f = 0")
  case True
  then show ?thesis by (simp add: pit_divisor_def)
next
  case False
  then have f: "0 < unat f" by (simp add: unat_gt_0)
  show ?thesis
  proof (cases "unat f \<le> 18")
    case True
    then show ?thesis using pit_divisor_cases(1) [OF False] f by simp
  next
    case big: False
    let ?q = "(1193182 + unat f div 2) div unat f"
    obtain d where d: "pit_divisor f = Ok d" "unat d = ?q" using pit_divisor_cases(2) [OF False] big by auto
    have "?q * unat f \<le> 1193182 + unat f div 2" by (rule div_times_less_eq_dividend)
    moreover have "1193182 + unat f div 2 < unat f + ?q * unat f" using f by (rule dividend_less_div_times)
    ultimately have "2 * (?q * unat f) \<le> 2 * 1193182 + unat f" "2 * 1193182 \<le> 2 * (?q * unat f) + unat f" by linarith+
    moreover have "d = 0 \<longleftrightarrow> 1193182 + unat f div 2 < unat f" using d(2) f by (auto simp: word_unat_eq_iff div_eq_0_iff)
    moreover have "1193182 + unat f div 2 < unat f \<longleftrightarrow> 2386364 < unat f" by linarith
    ultimately show ?thesis using d big by simp
  qed
qed

text \<open>
  C20: The other conversions are the unbounded-integer formulas. The APIC count is the
  quotient of the bus clock by sixteen times the frequency, refused when that product does not fit 32
  bits; tick time is the product of the tick count and the interval, clamped to the largest 64-bit value; and TSC time is the exact quotient, since the
  128-bit product cannot wrap around, reduced modulo \<open>2 ^ 64\<close> by the final cast.
\<close>

theorem timer_conversions:
  "apic_initial_count f =
     (if f = 0 then Err ZeroFrequency
      else if 2 ^ 32 \<le> 16 * unat f then Err DivisorOutOfRange
      else Ok (of_nat (100000000 div (16 * unat f))))
   \<and> ticks_to_ns n f =
     (if f = 0 then Err ZeroFrequency else Ok (of_nat (min (unat n * (1000000000 div unat f)) (2 ^ 64 - 1))))
   \<and> tsc_to_ns t g =
     (if g = 0 then Err ZeroFrequency else Ok (of_nat (unat t * 1000000000 div unat g)))"
proof (intro conjI)
  show "apic_initial_count f = (if f = 0 then Err ZeroFrequency
      else if 2 ^ 32 \<le> 16 * unat f then Err DivisorOutOfRange else Ok (of_nat (100000000 div (16 * unat f))))"
  proof (cases "16 * unat f < 2 ^ 32")
    case True
    then have "unat (16 * f) = 16 * unat f" by (simp add: unat_word_ariths)
    then have "100000000 div (16 * f) = of_nat (100000000 div (16 * unat f))"
      by (intro word_eq_of_nat) (simp add: unat_div_distrib)
    with True show ?thesis by (simp add: apic_initial_count_def checked_mul_def APIC_DIVISOR_def APIC_BUS_CLOCK_HZ_def)
  next
    case False
    then show ?thesis by (auto simp: apic_initial_count_def checked_mul_def APIC_DIVISOR_def)
  qed
  show "ticks_to_ns n f = (if f = 0 then Err ZeroFrequency
      else Ok (of_nat (min (unat n * (1000000000 div unat f)) (2 ^ 64 - 1))))"
  proof -
    let ?i = "1000000000 div ucast f :: u64"
    have i: "unat ?i = 1000000000 div unat f" by (simp add: unat_div_distrib unat_ucast_wider)
    have max: "(-1::u64) = of_nat (2 ^ 64 - 1)" by (rule word_eq_of_nat) (simp add: unsigned_minus_1_eq_mask mask_eq_exp_minus_1)
    show ?thesis
    proof (cases "unat n * unat ?i < 2 ^ 64")
      case True
      then have "n * ?i = of_nat (unat n * (1000000000 div unat f))"
        by (intro word_eq_of_nat) (simp add: unat_mult_u64 i)
      then show ?thesis using True by (simp add: ticks_to_ns_def saturating_mul_def Let_def i min_def)
    next
      case False
      then show ?thesis using max by (simp add: ticks_to_ns_def saturating_mul_def Let_def i min_def)
    qed
  qed
  show "tsc_to_ns t g = (if g = 0 then Err ZeroFrequency else Ok (of_nat (unat t * 1000000000 div unat g)))"
  proof -
    have "unat (ucast t * 1000000000 :: u128) = unat t * 1000000000"
      using unat_u64_less [of t] by (simp add: unat_word_ariths unat_ucast_wider)
    then show ?thesis
      by (simp add: tsc_to_ns_def ucast_of_nat_unat [of "_ div _"] unat_div_distrib unat_ucast_wider)
  qed
qed

text \<open>
  Programming the PIT. \<open>set_frequency\<close> panics exactly for frequencies up to 18 Hz; otherwise it writes the control byte
  and then the divisor, low byte first, and the two data bytes put back together are the divisor that was computed.
\<close>

lemma pit_programming_roundtrip:
  "case set_frequency f of
     None \<Rightarrow> unat f \<le> 18
   | Some writes \<Rightarrow> 18 < unat f \<and> (\<exists>lo hi d. writes = [(0x43, 0x36), (0x40, lo), (0x40, hi)]
       \<and> pit_divisor f = Ok d \<and> unat d = unat lo + 256 * unat hi)"
proof (cases "pit_divisor f")
  case (Inl e)
  then show ?thesis
    using pit_divisor_cases(2) [of f] by (cases "f = 0"; cases "unat f \<le> 18") (auto simp: set_frequency_def)
next
  case (Inr d)
  have lim: "unat d < 2 ^ 16"
  proof -
    have "unat d < 2 ^ LENGTH(16)" by (rule unsigned_less)
    then show ?thesis by simp
  qed
  have "f \<noteq> 0" using Inr by (auto simp: pit_divisor_def)
  then have "18 < unat f" using Inr pit_divisor_cases(1) [of f] by (cases "unat f \<le> 18") auto
  moreover have "unat (ucast (d AND 0xFF) :: u8) = unat d mod 256"
  proof -
    have "d AND 0xFF = take_bit 8 d" by (simp add: take_bit_eq_mask mask_eq_exp_minus_1)
    then show ?thesis by (simp add: unsigned_ucast_eq unsigned_take_bit_eq take_bit_eq_mod unat_mod_distrib)
  qed
  moreover have "unat (ucast (drop_bit 8 d) :: u8) = unat d div 256"
    using lim by (simp add: unsigned_ucast_eq unsigned_drop_bit_eq drop_bit_eq_div take_bit_eq_mod unat_div_distrib)
  ultimately show ?thesis using Inr by (simp add: set_frequency_def)
qed

end
