(* ===== verification/Console.thy ===== *)
theory Console
  imports UOSC_Prelude
begin

text \<open>
  The console logic (\<open>console.rs\<close>): newline translation, the \<open>printf\<close>-style scanner, and cursor
  movement. A \<open>&str\<close> is the list of its bytes; a \<open>String\<close> that is built character by character is
  the list of its characters, each a 32-bit code point. The cursor arithmetic is on 32-bit words.
\<close>

section \<open>The code\<close>

type_synonym bytes = "u8 list"
type_synonym rstring = "u32 list"

definition translate_write :: "bytes \<Rightarrow> bytes" where
  "translate_write s = fold (\<lambda>byte out. if byte = 10 then out @ [13, 10] else out @ [byte]) s []"

text \<open>
  The scanner of \<open>format\<close>, with its position, argument index and output. \<open>args\<close> holds
  what \<open>Display\<close> prints for each argument; \<open>bytes[i] as char\<close> is the character whose code point is that byte.
\<close>

function format_loop :: "bytes \<Rightarrow> rstring list \<Rightarrow> nat \<Rightarrow> nat \<Rightarrow> rstring \<Rightarrow> rstring" where
  "format_loop bytes args i arg_index out =
     (if i < length bytes then
        (if bytes ! i = 37 \<and> i + 1 < length bytes then
           (let c = bytes ! (i + 1)
            in if c = 100 \<or> c = 117 \<or> c = 115 then
                 format_loop bytes args (i + 2) (arg_index + 1)
                   (if arg_index < length args then out @ args ! arg_index else out)
               else if c = 37 then format_loop bytes args (i + 2) arg_index (out @ [37])
               else format_loop bytes args (i + 1) arg_index (out @ [37]))
         else format_loop bytes args (i + 1) arg_index (out @ [ucast (bytes ! i)]))
      else out)"
  by pat_completeness auto
termination by (relation "measure (\<lambda>(bytes, args, i, arg_index, out). length bytes - i)") auto

declare format_loop.simps [simp del]

definition format :: "bytes \<Rightarrow> rstring list \<Rightarrow> rstring" where
  "format fmt args = format_loop fmt args 0 0 []"

record cursor_state =
  cur_x :: u32
  cur_y :: u32

record framebuffer_geometry =
  fb_width :: u32
  fb_height :: u32
  fb_char_width :: u32
  fb_char_height :: u32

definition advance_cursor :: "cursor_state \<Rightarrow> framebuffer_geometry \<Rightarrow> u8 \<Rightarrow> cursor_state \<times> bool" where
  "advance_cursor state geom ch =
     (if ch = 10 then
        (let y = cur_y state + fb_char_height geom
         in if fb_height geom \<le> y
            then (\<lparr>cur_x = 0, cur_y = saturating_sub (fb_height geom) (fb_char_height geom)\<rparr>, True)
            else (\<lparr>cur_x = 0, cur_y = y\<rparr>, False))
      else if ch = 13 then (\<lparr>cur_x = 0, cur_y = cur_y state\<rparr>, False)
      else
        (let x = cur_x state + fb_char_width geom; y = cur_y state
         in if fb_width geom \<le> x then
              (let x = 0; y = y + fb_char_height geom
               in if fb_height geom \<le> y
                  then (\<lparr>cur_x = x, cur_y = saturating_sub (fb_height geom) (fb_char_height geom)\<rparr>, True)
                  else (\<lparr>cur_x = x, cur_y = y\<rparr>, False))
            else (\<lparr>cur_x = x, cur_y = y\<rparr>, False)))"

fun write_all :: "framebuffer_geometry \<Rightarrow> bytes \<Rightarrow> cursor_state \<Rightarrow> cursor_state" where
  "write_all geom [] c = c"
| "write_all geom (ch # s) c = write_all geom s (fst (advance_cursor c geom ch))"

section \<open>Newline translation\<close>

lemma translate_write_concat: "translate_write s = concat (map (\<lambda>b. if b = 10 then [13, 10] else [b]) s)"
proof -
  have "fold (\<lambda>byte out. if byte = 10 then out @ [13, 10] else out @ [byte]) s out =
      out @ concat (map (\<lambda>b. if b = 10 then [13, 10] else [b]) s)" for out
    by (induction s arbitrary: out) auto
  then show ?thesis by (simp add: translate_write_def)
qed

text \<open>What a terminal that swallows the carriage return before a line feed reads.\<close>

fun collapse :: "bytes \<Rightarrow> bytes" where
  "collapse [] = []"
| "collapse (b # s) = (if b = 13 \<and> s \<noteq> [] \<and> hd s = 10 then collapse s else b # collapse s)"

lemma collapse_cr_free_head: "\<not> (b = 13 \<and> s \<noteq> [] \<and> hd s = 10) \<Longrightarrow> collapse (b # s) = b # collapse s"
  by simp

lemma collapse_translate: "collapse (translate_write s) = s"
proof (induction s)
  case Nil
  show ?case by (simp add: translate_write_concat)
next
  case (Cons b s)
  have hd: "translate_write s \<noteq> [] \<Longrightarrow> hd (translate_write s) \<noteq> 10"
    by (cases s) (simp_all add: translate_write_concat)
  show ?case
  proof (cases "b = 10")
    case True
    then have "translate_write (b # s) = 13 # 10 # translate_write s" by (simp add: translate_write_concat)
    then show ?thesis using Cons True by simp
  next
    case False
    then have "translate_write (b # s) = b # translate_write s" by (simp add: translate_write_concat)
    then show ?thesis using Cons hd by auto
  qed
qed

section \<open>The scanner as a recursion on the text\<close>

fun format_spec :: "bytes \<Rightarrow> rstring list \<Rightarrow> rstring" where
  "format_spec [] args = []"
| "format_spec [b] args = [ucast b]"
| "format_spec (b # c # s) args =
     (if b \<noteq> 37 then ucast b # format_spec (c # s) args
      else if c = 100 \<or> c = 117 \<or> c = 115
      then (case args of [] \<Rightarrow> format_spec s [] | a # as \<Rightarrow> a @ format_spec s as)
      else if c = 37 then 37 # format_spec s args
      else 37 # format_spec (c # s) args)"

lemma drop_split: "i < length xs \<Longrightarrow> drop i xs = xs ! i # drop (Suc i) xs"
  by (rule Cons_nth_drop_Suc [symmetric])

lemma format_loop_spec: "format_loop bytes args i k out = out @ format_spec (drop i bytes) (drop k args)"
proof (induction bytes args i k out rule: format_loop.induct)
  case (1 bytes args i k out)
  show ?case
  proof (cases "i < length bytes")
    case False
    then show ?thesis by (simp add: format_loop.simps)
  next
    case il: True
    show ?thesis
    proof (cases "bytes ! i = 37 \<and> i + 1 < length bytes")
      case True
      then have d: "drop i bytes = 37 # bytes ! Suc i # drop (i + 2) bytes" using il by (simp add: drop_split)
      have d1: "drop (i + 1) bytes = bytes ! Suc i # drop (i + 2) bytes" using True by (simp add: drop_split)
      show ?thesis
        using 1(1-3) [OF il True refl] True il
        by (cases "k < length args") (simp_all add: format_loop.simps [of bytes args i k out] Let_def d d1 drop_split)
    next
      case False
      have "format_spec (bytes ! i # drop (Suc i) bytes) a = ucast (bytes ! i) # format_spec (drop (Suc i) bytes) a" for a
        using False by (cases "drop (Suc i) bytes") auto
      moreover have "format_loop bytes args i k out = format_loop bytes args (i + 1) k (out @ [ucast (bytes ! i)])"
        by (subst format_loop.simps) (simp only: il False if_True if_False)
      ultimately show ?thesis using 1(4) [OF il False] il by (simp add: drop_split)
    qed
  qed
qed

lemma format_eq_spec: "format fmt args = format_spec fmt args"
  by (simp add: format_def format_loop_spec)

definition escape :: "bytes \<Rightarrow> bytes" where
  "escape s = concat (map (\<lambda>b. if b = 37 then [37, 37] else [b]) s)"

lemma format_spec_plain: "b \<noteq> 37 \<Longrightarrow> format_spec (b # s) args = ucast b # format_spec s args"
  by (cases s) simp_all

lemma format_spec_escape: "format_spec (escape s @ r) args = map ucast s @ format_spec r args"
  by (induction s) (simp_all add: escape_def format_spec_plain)

text \<open>A format string with a literal text before each of its \<open>%s\<close> directives and one at the end.\<close>

definition template :: "bytes \<Rightarrow> bytes list \<Rightarrow> bytes" where
  "template s0 ss = escape s0 @ concat (map (\<lambda>s. 37 # 115 # escape s) ss)"

lemma format_spec_template:
  "length args = length ss \<Longrightarrow>
     format_spec (template s0 ss) args = map ucast s0 @ concat (map2 (\<lambda>a s. a @ map ucast s) args ss)"
proof (induction ss arbitrary: s0 args)
  case Nil
  then show ?case using format_spec_escape [of s0 "[]" args] by (simp add: template_def)
next
  case (Cons s ss)
  then obtain a as where args: "args = a # as" "length as = length ss" by (cases args) auto
  have "template s0 (s # ss) = escape s0 @ 37 # 115 # template s ss" by (simp add: template_def)
  then show ?case using Cons.IH [OF args(2), of s] args(1) by (simp add: format_spec_escape)
qed

section \<open>The cursor\<close>

definition geometry_ok :: "framebuffer_geometry \<Rightarrow> bool" where
  "geometry_ok g \<longleftrightarrow> 0 < fb_width g \<and> 0 < fb_char_height g \<and> fb_char_height g \<le> fb_height g"

definition on_screen :: "framebuffer_geometry \<Rightarrow> cursor_state \<Rightarrow> bool" where
  "on_screen g c \<longleftrightarrow> cur_x c < fb_width g \<and> cur_y c < fb_height g"

lemma saturating_sub_less: "0 < b \<Longrightarrow> b \<le> a \<Longrightarrow> saturating_sub a b < a" for a b :: u32
  by (auto simp: saturating_sub_def word_less_nat_alt word_le_nat_alt unat_sub)

lemma advance_on_screen: "geometry_ok g \<Longrightarrow> on_screen g c \<Longrightarrow> on_screen g (fst (advance_cursor c g ch))"
  by (auto simp: on_screen_def geometry_ok_def advance_cursor_def Let_def saturating_sub_less not_le)

lemma write_all_on_screen: "geometry_ok g \<Longrightarrow> on_screen g c \<Longrightarrow> on_screen g (write_all g s c)"
  by (induction s arbitrary: c) (simp_all add: advance_on_screen)

section \<open>Properties\<close>

text \<open>
  Newline translation loses nothing. A terminal that drops the carriage return before each
  line feed reads exactly the text that was written, for every text, and the output is longer by
  exactly the number of line feeds.
\<close>

lemma translate_write_roundtrip:
  "collapse (translate_write s) = s \<and> length (translate_write s) = length s + count_list s 10"
proof -
  have "length (concat (map (\<lambda>b. if b = 10 then [13, 10] else [b]) s)) = length s + count_list s (10::u8)"
    by (induction s) auto
  then show ?thesis by (simp add: collapse_translate) (simp add: translate_write_concat)
qed

text \<open>
  \<open>format\<close> substitutes. In a format string made of literal texts, with their percent signs doubled, separated by \<open>%s\<close>
  directives, each directive is replaced by the argument at its place, in order, and every byte of literal text comes
  out as the character with that code point (for ASCII text, unchanged).
\<close>

lemma format_substitutes:
  assumes "length args = length ss"
  shows "format (template s0 ss) args = map ucast s0 @ concat (map2 (\<lambda>a s. a @ map ucast s) args ss)"
  using format_spec_template [OF assms] by (simp add: format_eq_spec)

text \<open>
  The cursor stays on the screen. For a geometry whose character height is positive and at
  most the screen height, a cursor inside the screen is inside it after any text, even where the 32-bit sums wrap around.
\<close>

lemma cursor_stays_on_screen:
  assumes "0 < fb_width g" and "0 < fb_char_height g" and "fb_char_height g \<le> fb_height g"
    and "cur_x c < fb_width g" and "cur_y c < fb_height g"
  shows "cur_x (write_all g s c) < fb_width g \<and> cur_y (write_all g s c) < fb_height g"
  using write_all_on_screen [of g c s] assms by (simp add: geometry_ok_def on_screen_def)

text \<open>A two-byte UTF-8 character in the format string comes out as two characters.\<close>

lemma format_splits_utf8: "format [0xC3, 0xA9] [] = [0xC3, 0xA9]"
  by code_simp

end
