(* ===== verification/BTree_Map.thy ===== *)
theory BTree_Map
  imports UOSC_Prelude
begin

text \<open>
  The ordered map \<open>alloc::collections::BTreeMap\<close> of the Rust standard library, which holds
  the tokens, ports, vaults, processes, live blocks and mappings of the kernel. A map is the list
  of its entries in strictly increasing key order; \<open>get\<close>, \<open>insert\<close>,
  \<open>remove\<close>, \<open>values\<close>, \<open>iter().next()\<close> and \<open>len\<close> are the operations
  the source uses. The locale \<open>ordered_map\<close> states the contract the components rely on;
  it is interpreted on this representation.

  The second half is the contract of a registry that hands out identifiers from a counter
  (\<open>id_registry\<close>), which the token broker, the port table and the vault manager share.
\<close>

section \<open>Entry lists\<close>

fun ins_entry :: "'k::linorder \<Rightarrow> 'v \<Rightarrow> ('k \<times> 'v) list \<Rightarrow> ('k \<times> 'v) list" where
  "ins_entry k v [] = [(k, v)]"
| "ins_entry k v (e # es) =
     (if k < fst e then (k, v) # e # es
      else if k = fst e then (k, v) # es
      else e # ins_entry k v es)"

definition del_entry :: "'k \<Rightarrow> ('k \<times> 'v) list \<Rightarrow> ('k \<times> 'v) list" where
  "del_entry k es = filter (\<lambda>e. fst e \<noteq> k) es"

lemma fst_set_ins_entry: "fst ` set (ins_entry k v es) = insert k (fst ` set es)"
  by (induction es) auto

lemma map_of_ins_entry: "map_of (ins_entry k v es) = (map_of es)(k \<mapsto> v)"
  by (induction es) (auto simp: fun_eq_iff)

lemma sorted_ins_entry:
  "sorted_wrt (<) (map fst es) \<Longrightarrow> sorted_wrt (<) (map fst (ins_entry k v es))"
proof (induction es)
  case (Cons e es)
  then show ?case
    using fst_set_ins_entry [of k v es] by (auto simp: image_iff)
qed simp

lemma sorted_del_entry:
  "sorted_wrt (<) (map fst es) \<Longrightarrow> sorted_wrt (<) (map fst (del_entry k es))"
  by (induction es) (auto simp: del_entry_def)

lemma map_of_del_entry: "map_of (del_entry k es) = (map_of es)(k := None)"
  by (induction es) (auto simp: del_entry_def fun_eq_iff)

section \<open>The map type\<close>

typedef (overloaded) ('k::linorder, 'v) btree_map =
    "{es :: ('k \<times> 'v) list. sorted_wrt (<) (map fst es)}"
  morphisms entries Btree
  by (rule exI [of _ "[]"]) simp

setup_lifting type_definition_btree_map

lift_definition bt_empty :: "('k::linorder, 'v) btree_map" is "[]" by simp

lift_definition bt_insert :: "'k::linorder \<Rightarrow> 'v \<Rightarrow> ('k, 'v) btree_map \<Rightarrow> ('k, 'v) btree_map"
  is ins_entry by (rule sorted_ins_entry)

lift_definition bt_remove :: "'k::linorder \<Rightarrow> ('k, 'v) btree_map \<Rightarrow> ('k, 'v) btree_map"
  is del_entry by (rule sorted_del_entry)

definition bt_get :: "('k::linorder, 'v) btree_map \<Rightarrow> 'k \<Rightarrow> 'v option" where
  "bt_get m k = map_of (entries m) k"

definition bt_values :: "('k::linorder, 'v) btree_map \<Rightarrow> 'v list" where
  "bt_values m = map snd (entries m)"

definition bt_keys :: "('k::linorder, 'v) btree_map \<Rightarrow> 'k list" where
  "bt_keys m = map fst (entries m)"

text \<open>\<open>iter().next()\<close>: the entry with the least key.\<close>

definition bt_first :: "('k::linorder, 'v) btree_map \<Rightarrow> ('k \<times> 'v) option" where
  "bt_first m = (case entries m of [] \<Rightarrow> None | e # _ \<Rightarrow> Some e)"

definition bt_len :: "('k::linorder, 'v) btree_map \<Rightarrow> nat" where
  "bt_len m = length (entries m)"

lemmas bt_entries_simps [simp] = bt_empty.rep_eq bt_insert.rep_eq bt_remove.rep_eq

instantiation btree_map :: (linorder, equal) equal
begin

definition equal_btree_map :: "('a, 'b) btree_map \<Rightarrow> ('a, 'b) btree_map \<Rightarrow> bool" where
  "equal_btree_map m n \<longleftrightarrow> entries m = entries n"

instance
  by standard (simp add: equal_btree_map_def entries_inject)

end

section \<open>Laws\<close>

lemma sorted_entries: "sorted_wrt (<) (map fst (entries m))"
  using entries [of m] by simp

lemma distinct_keys: "distinct (map fst (entries m))"
  using sorted_entries [of m] by (simp add: strict_sorted_iff)

lemma bt_get_empty [simp]: "bt_get bt_empty k = None"
  by (simp add: bt_get_def)

lemma bt_get_insert [simp]: "bt_get (bt_insert k v m) k' = (if k' = k then Some v else bt_get m k')"
  by (simp add: bt_get_def map_of_ins_entry)

lemma bt_get_remove [simp]: "bt_get (bt_remove k m) k' = (if k' = k then None else bt_get m k')"
  by (simp add: bt_get_def map_of_del_entry)

lemma bt_get_iff_entry: "bt_get m k = Some v \<longleftrightarrow> (k, v) \<in> set (entries m)"
  by (simp add: bt_get_def distinct_keys)

lemma bt_get_None_iff: "bt_get m k = None \<longleftrightarrow> k \<notin> fst ` set (entries m)"
  by (simp add: bt_get_def map_of_eq_None_iff)

lemma set_bt_values: "set (bt_values m) = {v. \<exists>k. bt_get m k = Some v}"
  by (force simp: bt_values_def bt_get_iff_entry)

lemma set_bt_keys: "set (bt_keys m) = {k. bt_get m k \<noteq> None}"
  by (auto simp: bt_keys_def bt_get_None_iff)

lemma bt_eq_iff: "m = n \<longleftrightarrow> (\<forall>k. bt_get m k = bt_get n k)"
proof
  assume eq: "\<forall>k. bt_get m k = bt_get n k"
  have "set (entries m) = set (entries n)"
    using eq by (auto simp: set_eq_iff simp flip: bt_get_iff_entry)
  then have keys: "map fst (entries m) = map fst (entries n)"
    using sorted_entries [of m] sorted_entries [of n]
    by (intro strict_sorted_equal) simp_all
  have "entries m = entries n"
    using keys distinct_keys [of m] \<open>set (entries m) = set (entries n)\<close>
    by (intro map_inj_on [OF keys]) (auto simp: inj_on_def dest: eq_key_imp_eq_value simp: distinct_map)
  then show "m = n" by (simp add: entries_inject)
qed simp

lemma bt_first_None_iff: "bt_first m = None \<longleftrightarrow> (\<forall>k. bt_get m k = None)"
  by (cases "entries m") (auto simp: bt_first_def bt_get_def)

lemma bt_first_Some_iff:
  "bt_first m = Some (k, v) \<longleftrightarrow>
     bt_get m k = Some v \<and> (\<forall>k' v'. bt_get m k' = Some v' \<longrightarrow> k \<le> k')"
proof (cases "entries m")
  case Nil
  then show ?thesis by (simp add: bt_first_def bt_get_def)
next
  case (Cons e es)
  have lt: "\<forall>e' \<in> set es. fst e < fst e'" using sorted_entries [of m] Cons by auto
  then show ?thesis
    using Cons by (cases e) (fastforce simp: bt_first_def bt_get_iff_entry)
qed

lemma ins_entry_fresh: "k \<notin> fst ` set es \<Longrightarrow> mset (ins_entry k v es) = add_mset (k, v) (mset es)"
  by (induction es) auto

lemma del_entry_fresh: "k \<notin> fst ` set es \<Longrightarrow> del_entry k es = es"
  by (auto simp: del_entry_def image_iff intro!: filter_True)

lemma del_entry_present:
  "(k, v) \<in> set es \<Longrightarrow> distinct (map fst es) \<Longrightarrow> mset es = add_mset (k, v) (mset (del_entry k es))"
proof (induction es)
  case (Cons e es)
  show ?case
  proof (cases "fst e = k")
    case True
    with Cons.prems have "e = (k, v)" and "k \<notin> fst ` set es" by (force simp: image_iff)+
    then show ?thesis using del_entry_fresh [of k es] by (simp add: del_entry_def del: mset_filter)
  next
    case False
    with Cons show ?thesis by (auto simp: del_entry_def)
  qed
qed simp

lemma mset_entries_insert_fresh:
  "bt_get m k = None \<Longrightarrow> mset (entries (bt_insert k v m)) = add_mset (k, v) (mset (entries m))"
  by (simp add: bt_get_None_iff ins_entry_fresh)

lemma mset_entries_remove:
  "bt_get m k = Some v \<Longrightarrow> mset (entries m) = add_mset (k, v) (mset (entries (bt_remove k m)))"
  by (simp add: bt_get_iff_entry distinct_keys del_entry_present)

lemma set_bt_values_insert_fresh:
  assumes "bt_get m k = None"
  shows "set (bt_values (bt_insert k v m)) = insert v (set (bt_values m))"
proof -
  have "set (entries (bt_insert k v m)) = insert (k, v) (set (entries m))"
    using arg_cong [OF mset_entries_insert_fresh [OF assms, of v], of set_mset] by (simp del: bt_entries_simps)
  then show ?thesis by (simp add: bt_values_def del: bt_entries_simps)
qed

lemma bt_len_insert_fresh: "bt_get m k = None \<Longrightarrow> bt_len (bt_insert k v m) = Suc (bt_len m)"
  by (metis bt_len_def mset_entries_insert_fresh size_add_mset size_mset)

section \<open>The contract of an ordered map\<close>

locale ordered_map =
  fixes empty :: 'm
    and insert :: "'k::linorder \<Rightarrow> 'v \<Rightarrow> 'm \<Rightarrow> 'm"
    and remove :: "'k \<Rightarrow> 'm \<Rightarrow> 'm"
    and get :: "'m \<Rightarrow> 'k \<Rightarrow> 'v option"
    and first :: "'m \<Rightarrow> ('k \<times> 'v) option"
  assumes get_empty: "get empty k = None"
    and get_insert: "get (insert k v m) k' = (if k' = k then Some v else get m k')"
    and get_remove: "get (remove k m) k' = (if k' = k then None else get m k')"
    and first_None: "first m = None \<longleftrightarrow> (\<forall>k. get m k = None)"
    and first_Some: "first m = Some (k, v) \<longleftrightarrow>
          get m k = Some v \<and> (\<forall>k' v'. get m k' = Some v' \<longrightarrow> k \<le> k')"
begin

lemma insert_insert: "get (insert k v (insert k w m)) k' = get (insert k v m) k'"
  by (simp add: get_insert)

lemma remove_insert: "get m k = None \<Longrightarrow> get (remove k (insert k v m)) k' = get m k'"
  by (simp add: get_insert get_remove)

lemma first_is_least: "first m = Some (k, v) \<Longrightarrow> get m k' = Some v' \<Longrightarrow> k \<le> k'"
  by (simp add: first_Some)

lemma first_exists: "get m k = Some v \<Longrightarrow> \<exists>k' v'. first m = Some (k', v')"
  by (cases "first m") (auto simp: first_None)

end

interpretation btm: ordered_map bt_empty bt_insert bt_remove bt_get bt_first
  by unfold_locales (simp_all add: bt_first_None_iff bt_first_Some_iff)

section \<open>Registries with a fresh-identifier counter\<close>

text \<open>
  \<open>CapabilityBroker\<close>, \<open>PortTable\<close> and \<open>VaultManager\<close> each keep a map keyed
  by identifiers and a counter with the next identifier. \<open>fresh_ids\<close> is their
  invariant: every identifier in use is below the counter. It holds until the 64-bit counter
  wraps around.
\<close>

definition fresh_ids :: "(u64, 'v) btree_map \<Rightarrow> u64 \<Rightarrow> bool" where
  "fresh_ids m next \<longleftrightarrow> (\<forall>k v. bt_get m k = Some v \<longrightarrow> k < next)"

lemma fresh_ids_empty [simp]: "fresh_ids bt_empty next"
  by (simp add: fresh_ids_def)

lemma fresh_ids_unused: "fresh_ids m next \<Longrightarrow> bt_get m next = None"
  by (cases "bt_get m next") (auto simp: fresh_ids_def)

lemma fresh_ids_insert:
  assumes "fresh_ids m next" and "next \<noteq> u64_max"
  shows "fresh_ids (bt_insert next v m) (next + 1)"
proof -
  have "next < next + 1" using assms(2) by (simp add: word_less_nat_alt unat_succ)
  with assms(1) show ?thesis by (auto simp: fresh_ids_def intro: order.strict_trans)
qed

lemma fresh_ids_update: "fresh_ids m next \<Longrightarrow> bt_get m k = Some w \<Longrightarrow> fresh_ids (bt_insert k v m) next"
  by (auto simp: fresh_ids_def)

lemma fresh_ids_remove: "fresh_ids m next \<Longrightarrow> fresh_ids (bt_remove k m) next"
  by (auto simp: fresh_ids_def split: if_splits)

locale id_registry =
  fixes table :: "'s \<Rightarrow> (u64, 'v) btree_map"
    and next_id :: "'s \<Rightarrow> u64"
    and create :: "'a \<Rightarrow> 's \<Rightarrow> 's \<times> u64"
    and entry :: "'a \<Rightarrow> u64 \<Rightarrow> 'v"
  assumes create_id: "snd (create a s) = next_id s"
    and create_table: "table (fst (create a s)) = bt_insert (next_id s) (entry a (next_id s)) (table s)"
    and create_next: "next_id (fst (create a s)) = next_id s + 1"
begin

abbreviation fresh :: "'s \<Rightarrow> bool" where
  "fresh s \<equiv> fresh_ids (table s) (next_id s)"

lemma create_fresh: "fresh s \<Longrightarrow> next_id s \<noteq> u64_max \<Longrightarrow> fresh (fst (create a s))"
  by (simp add: create_table create_next fresh_ids_insert)

lemma create_lookup: "bt_get (table (fst (create a s))) (snd (create a s)) = Some (entry a (next_id s))"
  by (simp add: create_table create_id)

lemma create_unused: "fresh s \<Longrightarrow> bt_get (table s) (snd (create a s)) = None"
  by (simp add: create_id fresh_ids_unused)

lemma create_keeps: "fresh s \<Longrightarrow> bt_get (table s) k = Some v \<Longrightarrow> bt_get (table (fst (create a s))) k = Some v"
  using fresh_ids_unused [of "table s" "next_id s"] by (auto simp: create_table)

end

end
