(* ===== verification/Run_Queue.thy ===== *)
theory Run_Queue
  imports BTree_Map "HOL-Library.Product_Lexorder"
begin

text \<open>
  The scheduler's run queue (\<open>scheduler.rs\<close>): a table of processes with two ordered indexes,
  by deadline for the real-time class and by virtual runtime for the normal class, each keyed by
  \<open>(value, pid)\<close> under the lexicographic order of Rust tuples. The invariant says that the
  indexes list exactly the processes of their class; with it, \<open>pick_next_task\<close> is earliest deadline
  first before smallest virtual runtime, and the normal class does not starve.
\<close>

section \<open>The code\<close>

type_synonym pid = u64

datatype priority_class = RealTime u64 | Normal | Idle

datatype process_state = Ready | Running | Sleeping | Zombie

record process =
  proc_pid :: pid
  proc_class :: priority_class
  proc_state :: process_state
  proc_vruntime :: u64

record run_queue =
  rq_processes :: "(pid, process) btree_map"
  rq_real_time_order :: "(u64 \<times> pid, unit) btree_map"
  rq_normal_order :: "(u64 \<times> pid, unit) btree_map"

definition new_queue :: run_queue where
  "new_queue = \<lparr>rq_processes = bt_empty, rq_real_time_order = bt_empty, rq_normal_order = bt_empty\<rparr>"

definition add_process :: "process \<Rightarrow> run_queue \<Rightarrow> run_queue" where
  "add_process p rq =
     (let rq1 = (case proc_class p of
           RealTime deadline \<Rightarrow> rq\<lparr>rq_real_time_order := bt_insert (deadline, proc_pid p) () (rq_real_time_order rq)\<rparr>
         | Normal \<Rightarrow> rq\<lparr>rq_normal_order := bt_insert (proc_vruntime p, proc_pid p) () (rq_normal_order rq)\<rparr>
         | Idle \<Rightarrow> rq)
      in rq1\<lparr>rq_processes := bt_insert (proc_pid p) p (rq_processes rq1)\<rparr>)"

definition remove_process :: "pid \<Rightarrow> run_queue \<Rightarrow> run_queue \<times> process option" where
  "remove_process pid rq =
     (case bt_get (rq_processes rq) pid of
        None \<Rightarrow> (rq, None)
      | Some p \<Rightarrow>
          let rq1 = rq\<lparr>rq_processes := bt_remove pid (rq_processes rq)\<rparr>
          in (case proc_class p of
                RealTime deadline \<Rightarrow> rq1\<lparr>rq_real_time_order := bt_remove (deadline, pid) (rq_real_time_order rq1)\<rparr>
              | Normal \<Rightarrow> rq1\<lparr>rq_normal_order := bt_remove (proc_vruntime p, pid) (rq_normal_order rq1)\<rparr>
              | Idle \<Rightarrow> rq1, Some p))"

definition pick_next_task :: "run_queue \<Rightarrow> pid option" where
  "pick_next_task rq =
     (case bt_first (rq_real_time_order rq) of
        Some ((_, pid), _) \<Rightarrow> Some pid
      | None \<Rightarrow> map_option (\<lambda>((_, pid), _). pid) (bt_first (rq_normal_order rq)))"

definition update_vruntime :: "pid \<Rightarrow> u64 \<Rightarrow> run_queue \<Rightarrow> run_queue" where
  "update_vruntime pid time_used rq =
     (case bt_get (rq_processes rq) pid of
        None \<Rightarrow> rq
      | Some p \<Rightarrow>
          if proc_class p \<noteq> Normal then rq
          else
            let old_key = (proc_vruntime p, pid);
                p = p\<lparr>proc_vruntime := proc_vruntime p + time_used\<rparr>;
                rq = rq\<lparr>rq_processes := bt_insert pid p (rq_processes rq)\<rparr>;
                new_key = (proc_vruntime p, pid)
            in rq\<lparr>rq_normal_order := bt_insert new_key () (bt_remove old_key (rq_normal_order rq))\<rparr>)"

definition get_process :: "pid \<Rightarrow> run_queue \<Rightarrow> process option" where
  "get_process pid rq = bt_get (rq_processes rq) pid"

definition ready_count :: "run_queue \<Rightarrow> nat" where
  "ready_count rq = bt_len (rq_processes rq)"

text \<open>The order \<open>derive(PartialOrd, Ord)\<close> gives the priority classes.\<close>

fun class_key :: "priority_class \<Rightarrow> nat \<times> u64" where
  "class_key (RealTime d) = (0, d)"
| "class_key Normal = (1, 0)"
| "class_key Idle = (2, 0)"

lemma class_key_inject: "class_key a = class_key b \<longleftrightarrow> a = b"
  by (cases a; cases b) auto

instantiation priority_class :: linorder
begin

definition less_eq_priority_class :: "priority_class \<Rightarrow> priority_class \<Rightarrow> bool" where
  "less_eq_priority_class a b \<longleftrightarrow> class_key a \<le> class_key b"

definition less_priority_class :: "priority_class \<Rightarrow> priority_class \<Rightarrow> bool" where
  "less_priority_class a b \<longleftrightarrow> class_key a < class_key b"

instance
proof
  fix a b c :: priority_class
  show "a < b \<longleftrightarrow> a \<le> b \<and> \<not> b \<le> a" by (auto simp: less_eq_priority_class_def less_priority_class_def)
  show "a \<le> a" by (simp add: less_eq_priority_class_def)
  show "a \<le> b \<Longrightarrow> b \<le> c \<Longrightarrow> a \<le> c" unfolding less_eq_priority_class_def by (rule order_trans)
  show "a \<le> b \<Longrightarrow> b \<le> a \<Longrightarrow> a = b"
    unfolding less_eq_priority_class_def by (metis antisym class_key_inject)
  show "a \<le> b \<or> b \<le> a" unfolding less_eq_priority_class_def by (rule linear)
qed

end

section \<open>Sequences of operations and the invariant\<close>

datatype rq_op = AddProcess process | RemoveProcess pid | UpdateVruntime pid u64

fun rq_step :: "rq_op \<Rightarrow> run_queue \<Rightarrow> run_queue" where
  "rq_step (AddProcess p) rq = add_process p rq"
| "rq_step (RemoveProcess k) rq = fst (remove_process k rq)"
| "rq_step (UpdateVruntime k u) rq = update_vruntime k u rq"

fun rq_run :: "rq_op list \<Rightarrow> run_queue \<Rightarrow> run_queue" where
  "rq_run [] rq = rq"
| "rq_run (x # xs) rq = rq_run xs (rq_step x rq)"

text \<open>Callers add a process only under an identifier that is not in the table.\<close>

fun op_ok :: "rq_op \<Rightarrow> run_queue \<Rightarrow> bool" where
  "op_ok (AddProcess p) rq \<longleftrightarrow> get_process (proc_pid p) rq = None"
| "op_ok (RemoveProcess k) rq \<longleftrightarrow> True"
| "op_ok (UpdateVruntime k u) rq \<longleftrightarrow> True"

fun ops_ok :: "rq_op list \<Rightarrow> run_queue \<Rightarrow> bool" where
  "ops_ok [] rq \<longleftrightarrow> True"
| "ops_ok (x # xs) rq \<longleftrightarrow> op_ok x rq \<and> ops_ok xs (rq_step x rq)"

definition rq_inv :: "run_queue \<Rightarrow> bool" where
  "rq_inv rq \<longleftrightarrow>
     (\<forall>k p. bt_get (rq_processes rq) k = Some p \<longrightarrow> proc_pid p = k)
     \<and> (\<forall>d k. bt_get (rq_real_time_order rq) (d, k) = Some () \<longleftrightarrow>
          (\<exists>p. bt_get (rq_processes rq) k = Some p \<and> proc_class p = RealTime d))
     \<and> (\<forall>v k. bt_get (rq_normal_order rq) (v, k) = Some () \<longleftrightarrow>
          (\<exists>p. bt_get (rq_processes rq) k = Some p \<and> proc_class p = Normal \<and> proc_vruntime p = v))"

lemma rq_inv_new: "rq_inv new_queue"
  by (simp add: rq_inv_def new_queue_def)

lemma rq_inv_add: "rq_inv rq \<Longrightarrow> get_process (proc_pid p) rq = None \<Longrightarrow> rq_inv (add_process p rq)"
  by (cases "proc_class p") (auto simp: rq_inv_def add_process_def get_process_def)

lemma rq_inv_remove: "rq_inv rq \<Longrightarrow> rq_inv (fst (remove_process k rq))"
proof (cases "bt_get (rq_processes rq) k")
  case (Some p)
  assume "rq_inv rq"
  with Some show ?thesis
    by (cases "proc_class p") (auto simp: rq_inv_def remove_process_def Let_def split: if_splits)
qed (simp add: remove_process_def)

lemma rq_inv_update: "rq_inv rq \<Longrightarrow> rq_inv (update_vruntime k u rq)"
proof (cases "bt_get (rq_processes rq) k")
  case (Some p)
  assume "rq_inv rq"
  with Some show ?thesis
    by (cases "proc_class p = Normal") (auto simp: rq_inv_def update_vruntime_def Let_def split: if_splits)
qed (simp add: update_vruntime_def)

lemma rq_inv_run: "rq_inv rq \<Longrightarrow> ops_ok xs rq \<Longrightarrow> rq_inv (rq_run xs rq)"
proof (induction xs arbitrary: rq)
  case (Cons x xs)
  then show ?case by (cases x) (simp_all add: rq_inv_add rq_inv_remove rq_inv_update)
qed simp

section \<open>Picking\<close>

lemma unit_option_None: "x \<noteq> Some () \<Longrightarrow> x = None"
  by (cases x) auto

definition real_time :: "run_queue \<Rightarrow> pid \<Rightarrow> u64 \<Rightarrow> bool" where
  "real_time rq k d \<longleftrightarrow> (\<exists>p. get_process k rq = Some p \<and> proc_class p = RealTime d)"

definition normal :: "run_queue \<Rightarrow> pid \<Rightarrow> u64 \<Rightarrow> bool" where
  "normal rq k v \<longleftrightarrow> (\<exists>p. get_process k rq = Some p \<and> proc_class p = Normal \<and> proc_vruntime p = v)"

lemma rq_inv_orders:
  assumes "rq_inv rq"
  shows "bt_get (rq_real_time_order rq) (d, k) = Some () \<longleftrightarrow> real_time rq k d"
    and "bt_get (rq_normal_order rq) (v, k) = Some () \<longleftrightarrow> normal rq k v"
  using assms by (auto simp: rq_inv_def real_time_def normal_def get_process_def)

lemma pick_cases:
  assumes "rq_inv rq"
  obtains (edf) k d where "pick_next_task rq = Some k" "real_time rq k d"
      "\<And>k' d'. real_time rq k' d' \<Longrightarrow> (d, k) \<le> (d', k')"
  | (cfs) k v where "pick_next_task rq = Some k" "\<And>k' d'. \<not> real_time rq k' d'" "normal rq k v"
      "\<And>k' v'. normal rq k' v' \<Longrightarrow> (v, k) \<le> (v', k')"
  | (idle) "pick_next_task rq = None" "\<And>k' d'. \<not> real_time rq k' d'" "\<And>k' v'. \<not> normal rq k' v'"
proof (cases "bt_first (rq_real_time_order rq)")
  case (Some e)
  obtain d k where e: "e = ((d, k), ())" by (cases e) auto
  have f: "bt_get (rq_real_time_order rq) (d, k) = Some ()"
    "\<And>x. bt_get (rq_real_time_order rq) x = Some () \<Longrightarrow> (d, k) \<le> x"
    using Some e by (auto simp: bt_first_Some_iff)
  show thesis
  proof (rule edf [of k d])
    show "pick_next_task rq = Some k" using Some e by (simp add: pick_next_task_def)
    show "real_time rq k d" using f(1) rq_inv_orders(1) [OF assms] by simp
    show "(d, k) \<le> (d', k')" if "real_time rq k' d'" for k' d'
      using f(2) that rq_inv_orders(1) [OF assms] by blast
  qed
next
  case None
  then have nort: "\<not> real_time rq k' d'" for k' d'
    using rq_inv_orders(1) [OF assms, of d' k'] by (simp add: bt_first_None_iff)
  show thesis
  proof (cases "bt_first (rq_normal_order rq)")
    case (Some e)
    obtain v k where e: "e = ((v, k), ())" by (cases e) auto
    have f: "bt_get (rq_normal_order rq) (v, k) = Some ()"
      "\<And>x. bt_get (rq_normal_order rq) x = Some () \<Longrightarrow> (v, k) \<le> x"
      using Some e by (auto simp: bt_first_Some_iff)
    show thesis
    proof (rule cfs [of k v])
      show "pick_next_task rq = Some k" using None Some e by (simp add: pick_next_task_def)
      show "normal rq k v" using f(1) rq_inv_orders(2) [OF assms] by simp
      show "(v, k) \<le> (v', k')" if "normal rq k' v'" for k' v'
        using f(2) that rq_inv_orders(2) [OF assms] by blast
    qed (rule nort)
  next
    case nn: None
    then have "\<not> normal rq k' v'" for k' v'
      using rq_inv_orders(2) [OF assms, of v' k'] by (simp add: bt_first_None_iff)
    then show thesis using None nn nort by (intro idle) (simp_all add: pick_next_task_def)
  qed
qed

section \<open>What a dispatcher relies on\<close>

text \<open>
  The contract of the run queue towards a dispatcher: which identifiers are queued, how
  each operation changes that set, and that only a queued identifier is picked.
\<close>

locale task_queue =
  fixes inv :: "'q \<Rightarrow> bool" and members :: "'q \<Rightarrow> pid set"
    and add :: "process \<Rightarrow> 'q \<Rightarrow> 'q" and remove :: "pid \<Rightarrow> 'q \<Rightarrow> 'q"
    and charge :: "pid \<Rightarrow> u64 \<Rightarrow> 'q \<Rightarrow> 'q" and pick :: "'q \<Rightarrow> pid option"
  assumes add_ok: "inv q \<Longrightarrow> proc_pid p \<notin> members q \<Longrightarrow> inv (add p q) \<and> members (add p q) = insert (proc_pid p) (members q)"
    and remove_ok: "inv q \<Longrightarrow> inv (remove k q) \<and> members (remove k q) = members q - {k}"
    and charge_ok: "inv q \<Longrightarrow> inv (charge k u q) \<and> members (charge k u q) = members q"
    and pick_member: "inv q \<Longrightarrow> pick q = Some k \<Longrightarrow> k \<in> members q"
begin

lemma removed_not_picked: "inv q \<Longrightarrow> pick (remove k q) \<noteq> Some k"
  using remove_ok [of q k] pick_member [of "remove k q" k] by auto

lemma charge_keeps_absent: "inv q \<Longrightarrow> k \<notin> members q \<Longrightarrow> pick (charge j u q) \<noteq> Some k"
  using charge_ok [of q j u] pick_member [of "charge j u q" k] by auto

end

definition queued :: "run_queue \<Rightarrow> pid set" where
  "queued rq = {k. get_process k rq \<noteq> None}"

lemma picked_is_queued: "rq_inv rq \<Longrightarrow> pick_next_task rq = Some k \<Longrightarrow> get_process k rq \<noteq> None"
  by (erule pick_cases) (auto simp: real_time_def normal_def)

interpretation dispatch: task_queue rq_inv queued add_process "\<lambda>k rq. fst (remove_process k rq)" update_vruntime pick_next_task
proof
  fix q p k u
  assume inv: "rq_inv q"
  show "proc_pid p \<notin> queued q \<Longrightarrow> rq_inv (add_process p q) \<and> queued (add_process p q) = insert (proc_pid p) (queued q)"
    using inv rq_inv_add [of q p]
    by (cases "proc_class p") (auto simp: queued_def get_process_def add_process_def)
  show "rq_inv (fst (remove_process k q)) \<and> queued (fst (remove_process k q)) = queued q - {k}"
    using rq_inv_remove [OF inv]
    by (auto simp: queued_def get_process_def remove_process_def Let_def split: option.splits priority_class.splits)
  show "rq_inv (update_vruntime k u q) \<and> queued (update_vruntime k u q) = queued q"
    using rq_inv_update [OF inv]
    by (auto simp: queued_def get_process_def update_vruntime_def Let_def split: option.splits)
  show "pick_next_task q = Some k \<Longrightarrow> k \<in> queued q"
    using picked_is_queued [OF inv] by (simp add: queued_def)
qed

section \<open>No starvation\<close>

text \<open>
  One round of the scheduling loop: the picked process runs and is charged \<open>u\<close>. With no
  real-time process present, \<open>lead\<close> counts how many rounds other processes can take before
  \<open>t\<close> has the smallest virtual runtime.
\<close>

definition tick :: "u64 \<Rightarrow> run_queue \<Rightarrow> run_queue" where
  "tick u rq = (case pick_next_task rq of None \<Rightarrow> rq | Some k \<Rightarrow> update_vruntime k u rq)"

definition normal_pids :: "run_queue \<Rightarrow> pid set" where
  "normal_pids rq = {k. \<exists>v. normal rq k v}"

definition vruntime_of :: "run_queue \<Rightarrow> pid \<Rightarrow> nat" where
  "vruntime_of rq k = (case get_process k rq of None \<Rightarrow> 0 | Some p \<Rightarrow> unat (proc_vruntime p))"

definition lead :: "run_queue \<Rightarrow> pid \<Rightarrow> nat" where
  "lead rq t = (\<Sum>k\<in>normal_pids rq - {t}. Suc (vruntime_of rq t) - vruntime_of rq k)"

lemma normal_vruntime: "normal rq k v \<Longrightarrow> vruntime_of rq k = unat v"
  by (auto simp: normal_def vruntime_of_def)

lemma get_update_vruntime:
  "normal rq k v \<Longrightarrow> get_process j (update_vruntime k u rq) =
     (if j = k then map_option (\<lambda>p. p\<lparr>proc_vruntime := v + u\<rparr>) (get_process k rq) else get_process j rq)"
  by (auto simp: normal_def get_process_def update_vruntime_def Let_def)

lemma normal_update_vruntime:
  "normal rq k v \<Longrightarrow> normal (update_vruntime k u rq) j w \<longleftrightarrow> (if j = k then w = v + u else normal rq j w)"
  by (auto simp: normal_def get_update_vruntime)

lemma real_time_update_vruntime:
  "normal rq k v \<Longrightarrow> real_time (update_vruntime k u rq) j d \<longleftrightarrow> real_time rq j d"
  by (auto simp: real_time_def normal_def get_process_def update_vruntime_def Let_def split: if_splits)

lemma tick_progress:
  assumes inv: "rq_inv rq" and nort: "\<And>k d. \<not> real_time rq k d" and t: "normal rq t v" and u: "0 < u"
    and lim: "unat v + unat u < 2 ^ 64" and other: "pick_next_task rq \<noteq> Some t"
  shows "rq_inv (tick u rq)" and "\<not> real_time (tick u rq) k d" and "normal (tick u rq) t v"
    and "lead (tick u rq) t < lead rq t"
proof -
  have "\<exists>k w. pick_next_task rq = Some k \<and> normal rq k w \<and> (w, k) \<le> (v, t)"
    by (rule pick_cases [OF inv]) (use nort t in auto)
  then obtain k w where k: "pick_next_task rq = Some k" "normal rq k w" "(w, k) \<le> (v, t)" by blast
  then have kt: "k \<noteq> t" and wv: "w \<le> v" using other by auto
  have tk: "tick u rq = update_vruntime k u rq" using k(1) by (simp add: tick_def)
  show "rq_inv (tick u rq)" "\<not> real_time (tick u rq) k' d" for k'
    using inv nort k(2) by (simp_all add: tk rq_inv_update real_time_update_vruntime)
  show t': "normal (tick u rq) t v" using t kt by (simp add: tk normal_update_vruntime [OF k(2)])
  have sum: "unat (w + u) = unat w + unat u"
    using wv lim by (intro unat_add_u64) (simp add: word_le_nat_alt)
  have pids: "normal_pids (tick u rq) = normal_pids rq"
    using k(2) by (auto simp: normal_pids_def tk normal_update_vruntime [OF k(2)])
  have fin: "finite (normal_pids rq)"
    by (rule finite_subset [of _ "set (bt_keys (rq_processes rq))"])
      (auto simp: normal_pids_def normal_def get_process_def set_bt_keys)
  let ?f = "\<lambda>rq j. Suc (vruntime_of rq t) - vruntime_of rq j"
  have vt: "vruntime_of (tick u rq) t = unat v" "vruntime_of rq t = unat v"
    using normal_vruntime [OF t'] normal_vruntime [OF t] by simp_all
  have "(\<Sum>j\<in>normal_pids rq - {t}. ?f (tick u rq) j) < (\<Sum>j\<in>normal_pids rq - {t}. ?f rq j)"
  proof (rule sum_strict_mono_ex1)
    show "finite (normal_pids rq - {t})" using fin by simp
    have vk: "vruntime_of (tick u rq) k = unat w + unat u" "vruntime_of rq k = unat w"
      using normal_vruntime [of "tick u rq" k "w + u"] normal_vruntime [OF k(2)] sum
      by (simp_all add: tk normal_update_vruntime [OF k(2)])
    have vj: "vruntime_of (tick u rq) j = vruntime_of rq j" if "j \<noteq> k" for j
      using that by (simp add: vruntime_of_def tk get_update_vruntime [OF k(2)])
    show "\<forall>j\<in>normal_pids rq - {t}. ?f (tick u rq) j \<le> ?f rq j"
      using vk vj vt by (metis diff_le_mono2 le_add1 order_refl)
    have "0 < unat u" using u by (simp add: word_less_nat_alt)
    then have "?f (tick u rq) k < ?f rq k" using vk vt wv by (simp add: word_le_nat_alt)
    moreover have "k \<in> normal_pids rq - {t}" using k(2) kt by (auto simp: normal_pids_def)
    ultimately show "\<exists>j\<in>normal_pids rq - {t}. ?f (tick u rq) j < ?f rq j" by blast
  qed
  then show "lead (tick u rq) t < lead rq t" by (simp add: lead_def pids)
qed

lemma picked_within_lead:
  assumes "rq_inv rq" and "\<And>k d. \<not> real_time rq k d" and "normal rq t v" and "0 < u"
    and "unat v + unat u < 2 ^ 64"
  shows "\<exists>n\<le>lead rq t. pick_next_task ((tick u ^^ n) rq) = Some t"
  using assms
proof (induction "lead rq t" arbitrary: rq rule: less_induct)
  case less
  show ?case
  proof (cases "pick_next_task rq = Some t")
    case True
    then show ?thesis by (intro exI [of _ 0]) simp
  next
    case False
    note p = tick_progress [OF less.prems False]
    obtain n where "n \<le> lead (tick u rq) t" "pick_next_task ((tick u ^^ n) (tick u rq)) = Some t"
      using less.hyps [OF p(4) p(1) p(2) p(3) less.prems(4,5)] by blast
    then show ?thesis using p(4) by (intro exI [of _ "Suc n"]) (simp add: funpow_swap1)
  qed
qed

section \<open>Properties\<close>

text \<open>
  C15: Earliest deadline first, then smallest virtual runtime. After any sequence of
  operations that adds processes under fresh identifiers, \<open>pick_next_task\<close> returns the
  real-time process with the least deadline, ties broken by identifier; if there is none, the
  normal process with the least virtual runtime; and nothing only if every process is idle.
\<close>

theorem pick_next_edf_then_cfs:
  assumes "ops_ok xs new_queue" and "rq = rq_run xs new_queue"
  shows "case pick_next_task rq of
     None \<Rightarrow> \<forall>k p. get_process k rq = Some p \<longrightarrow> proc_class p = Idle
   | Some k \<Rightarrow>
       (\<exists>d. real_time rq k d \<and> (\<forall>k' d'. real_time rq k' d' \<longrightarrow> (d, k) \<le> (d', k')))
       \<or> ((\<forall>k' d'. \<not> real_time rq k' d') \<and>
          (\<exists>v. normal rq k v \<and> (\<forall>k' v'. normal rq k' v' \<longrightarrow> (v, k) \<le> (v', k'))))"
proof -
  have inv: "rq_inv rq" using rq_inv_run [OF rq_inv_new assms(1)] assms(2) by simp
  show ?thesis
  proof (rule pick_cases [OF inv])
    fix k d
    assume a: "pick_next_task rq = Some k" "real_time rq k d" "\<And>k' d'. real_time rq k' d' \<Longrightarrow> (d, k) \<le> (d', k')"
    show ?thesis unfolding a(1) option.case using a(2,3) by blast
  next
    fix k v
    assume a: "pick_next_task rq = Some k" "\<And>k' d'. \<not> real_time rq k' d'" "normal rq k v"
      "\<And>k' v'. normal rq k' v' \<Longrightarrow> (v, k) \<le> (v', k')"
    show ?thesis unfolding a(1) option.case using a(2-4) by blast
  next
    assume n: "pick_next_task rq = None" "\<And>k' d'. \<not> real_time rq k' d'" "\<And>k' v'. \<not> normal rq k' v'"
    have "proc_class p = Idle" if "get_process k rq = Some p" for k p
      using n(2) [of k] n(3) [of k "proc_vruntime p"] that by (cases "proc_class p") (auto simp: real_time_def normal_def)
    then show ?thesis using n(1) by simp
  qed
qed

definition demo_process :: "pid \<Rightarrow> priority_class \<Rightarrow> u64 \<Rightarrow> process" where
  "demo_process k c v = \<lparr>proc_pid = k, proc_class = c, proc_state = Ready, proc_vruntime = v\<rparr>"

theorem pick_next_edf_then_cfs_witness:
  "let xs = [AddProcess (demo_process 1 Normal 0), AddProcess (demo_process 2 (RealTime 9) 0),
             AddProcess (demo_process 3 (RealTime 4) 0)]; rq = rq_run xs new_queue
   in ops_ok xs new_queue \<and> pick_next_task rq = Some 3
      \<and> (\<exists>d. real_time rq 3 d \<and> (\<forall>k' d'. real_time rq k' d' \<longrightarrow> (d, 3) \<le> (d', k')))"
proof -
  let ?xs = "[AddProcess (demo_process 1 Normal 0), AddProcess (demo_process 2 (RealTime 9) 0),
             AddProcess (demo_process 3 (RealTime 4) 0)]"
  let ?rq = "rq_run ?xs new_queue"
  have ok: "ops_ok ?xs new_queue" and pick: "pick_next_task ?rq = Some 3" by code_simp+
  have "get_process 3 ?rq = Some (demo_process 3 (RealTime 4) 0)" by code_simp
  then have "real_time ?rq 3 4" by (simp add: real_time_def demo_process_def)
  then show ?thesis
    using pick_next_edf_then_cfs [OF ok refl, unfolded pick option.case] ok pick unfolding Let_def by blast
qed

text \<open>
  C16: The normal class does not starve. With no real-time process in the queue, and every round
  charging the process it picks the same positive amount, a normal process is picked after at
  most as many rounds as the virtual runtimes of the others lag behind its own, counted one
  per unit; provided its own virtual runtime plus one charge does not overflow.
\<close>

theorem no_starvation:
  assumes "ops_ok xs new_queue" and "rq = rq_run xs new_queue"
    and "\<forall>k d. \<not> real_time rq k d" and "normal rq t v" and "0 < u" and "unat v + unat u < 2 ^ 64"
  shows "\<exists>n \<le> lead rq t. pick_next_task ((tick u ^^ n) rq) = Some t"
proof -
  have "rq_inv rq" using rq_inv_run [OF rq_inv_new assms(1)] assms(2) by simp
  then show ?thesis using picked_within_lead [of rq t v u] assms(3-6) by blast
qed

theorem no_starvation_witness:
  "let rq = rq_run [AddProcess (demo_process 1 Normal 0), AddProcess (demo_process 2 Normal 30)] new_queue
   in \<exists>n \<le> lead rq 2. pick_next_task ((tick 10 ^^ n) rq) = Some 2"
proof -
  let ?xs = "[AddProcess (demo_process 1 Normal 0), AddProcess (demo_process 2 Normal 30)]"
  let ?rq = "rq_run ?xs new_queue"
  have ok: "ops_ok ?xs new_queue" by code_simp
  have get: "get_process k ?rq = (if k = 2 then Some (demo_process 2 Normal 30)
      else if k = 1 then Some (demo_process 1 Normal 0) else None)" for k
    by (simp add: get_process_def add_process_def demo_process_def new_queue_def Let_def)
  have "\<forall>k d. \<not> real_time ?rq k d" unfolding real_time_def get by (simp add: demo_process_def)
  moreover have "normal ?rq 2 30" unfolding normal_def get by (simp add: demo_process_def)
  ultimately show ?thesis
    using no_starvation [OF ok refl, of 2 30 10] unfolding Let_def by (simp del: rq_run.simps)
qed

text \<open>
  Removing a process undoes adding it: for a fresh identifier, \<open>remove_process\<close> after
  \<open>add_process\<close> returns the process and restores the queue, both indexes included.
\<close>

lemma add_remove_roundtrip:
  assumes "ops_ok xs new_queue" and "rq = rq_run xs new_queue" and "get_process (proc_pid p) rq = None"
  shows "remove_process (proc_pid p) (add_process p rq) = (rq, Some p)"
proof -
  have inv: "rq_inv rq" using rq_inv_run [OF rq_inv_new assms(1)] assms(2) by simp
  have fresh: "bt_get (rq_real_time_order rq) (d, proc_pid p) = None" "bt_get (rq_normal_order rq) (d, proc_pid p) = None" for d
    using rq_inv_orders [OF inv, of d "proc_pid p"] assms(3) by (auto simp: real_time_def normal_def intro: unit_option_None)
  have "bt_remove k (bt_insert k v m) = m" if "bt_get m k = None" for k :: "'k::linorder" and v :: 'v and m
    using that by (simp add: bt_eq_iff)
  then show ?thesis
    using assms(3) fresh
    by (cases "proc_class p") (simp_all add: remove_process_def add_process_def get_process_def bt_eq_iff Let_def)
qed

text \<open>Without the freshness condition the indexes keep an entry that removal does not find.\<close>

lemma stale_entry_survives_removal:
  "let rq = add_process (demo_process 1 (RealTime 5) 0) new_queue;
       rq = add_process (demo_process 1 Normal 0) rq;
       rq = fst (remove_process 1 rq)
   in get_process 1 rq = None \<and> pick_next_task rq = Some 1"
  by code_simp

end
