(* ===== verification/Context.thy ===== *)
theory Context
  imports UOSC_Prelude
begin

text \<open>
  Context switching (\<open>context.rs\<close>): the instructions of \<open>switch_to\<close> and
  \<open>task_trampoline\<close> on a machine with the registers they use and a memory of 64-bit cells, and
  \<open>init_stack\<close>, which builds the frame a task is first resumed from. Every address that is read or
  written is congruent to the stack pointer modulo eight, so that distinct addresses are
  distinct cells. The word that \<open>switch_to\<close> stores through its pointer argument is
  returned beside the machine; the scheduler puts it into the task's slot.
\<close>

section \<open>The machine\<close>

record machine =
  rsp :: u64
  rbp :: u64
  rbx :: u64
  r12 :: u64
  r13 :: u64
  r14 :: u64
  r15 :: u64
  rip :: u64
  interrupts :: bool
  mem :: "u64 \<Rightarrow> u64"

definition push :: "u64 \<Rightarrow> machine \<Rightarrow> machine" where
  "push v m = m\<lparr>rsp := rsp m - 8, mem := (mem m)(rsp m - 8 := v)\<rparr>"

definition peek :: "machine \<Rightarrow> u64" where
  "peek m = mem m (rsp m)"

definition pop :: "machine \<Rightarrow> machine" where
  "pop m = m\<lparr>rsp := rsp m + 8\<rparr>"

section \<open>The code\<close>

text \<open>
  \<open>switch_to\<close> is entered with the return address on top of the stack. It returns the stack
  pointer it saves, and the machine after its final \<open>ret\<close>.
\<close>

definition switch_to :: "u64 \<Rightarrow> machine \<Rightarrow> u64 \<times> machine" where
  "switch_to next_rsp m =
     (let m = push (rbp m) m;
          m = push (rbx m) m;
          m = push (r12 m) m;
          m = push (r13 m) m;
          m = push (r14 m) m;
          m = push (r15 m) m;
          current_rsp = rsp m;
          m = m\<lparr>rsp := next_rsp\<rparr>;
          m = pop (m\<lparr>r15 := peek m\<rparr>);
          m = pop (m\<lparr>r14 := peek m\<rparr>);
          m = pop (m\<lparr>r13 := peek m\<rparr>);
          m = pop (m\<lparr>r12 := peek m\<rparr>);
          m = pop (m\<lparr>rbx := peek m\<rparr>);
          m = pop (m\<lparr>rbp := peek m\<rparr>);
          m = pop (m\<lparr>rip := peek m\<rparr>)
      in (current_rsp, m))"

definition task_trampoline :: "machine \<Rightarrow> machine" where
  "task_trampoline m = (let m = m\<lparr>interrupts := True\<rparr> in m\<lparr>rip := r15 m\<rparr>)"

text \<open>
  \<open>init_stack\<close> on the stack of \<open>len\<close> bytes at \<open>base\<close>. \<open>trampoline\<close> is the address of
  \<open>task_trampoline\<close> and \<open>entry\<close> that of the task's code.
\<close>

definition init_stack :: "u64 \<Rightarrow> u64 \<Rightarrow> u64 \<Rightarrow> u64 \<Rightarrow> (u64 \<Rightarrow> u64) \<Rightarrow> (u64 \<Rightarrow> u64) \<times> u64" where
  "init_stack base len trampoline entry memory =
     (let top16 = (base + len) AND NOT 0xF;
          stack_top = top16 - 8;
          sp = stack_top;
          sp = sp - 8; memory = memory(sp := trampoline);
          sp = sp - 8; memory = memory(sp := 0);
          sp = sp - 8; memory = memory(sp := 0);
          sp = sp - 8; memory = memory(sp := 0);
          sp = sp - 8; memory = memory(sp := 0);
          sp = sp - 8; memory = memory(sp := 0);
          sp = sp - 8; memory = memory(sp := entry)
      in (memory, sp))"

section \<open>Frames\<close>

text \<open>
  A suspended context is seven cells from its saved stack pointer upwards: the callee-saved
  registers, last pushed first, and the return address.
\<close>

definition frame_at :: "(u64 \<Rightarrow> u64) \<Rightarrow> u64 \<Rightarrow> u64 list" where
  "frame_at memory s = [memory s, memory (s + 8), memory (s + 16), memory (s + 24), memory (s + 32), memory (s + 40), memory (s + 48)]"

definition callee_saved :: "machine \<Rightarrow> u64 list" where
  "callee_saved m = [r15 m, r14 m, r13 m, r12 m, rbx m, rbp m]"

text \<open>The six cells below the stack pointer, which \<open>switch_to\<close> pushes the registers to.\<close>

definition pushed :: "machine \<Rightarrow> u64 set" where
  "pushed m = {rsp m - 8, rsp m - 16, rsp m - 24, rsp m - 32, rsp m - 40, rsp m - 48}"

definition frame_cells :: "u64 \<Rightarrow> u64 set" where
  "frame_cells s = {s, s + 8, s + 16, s + 24, s + 32, s + 40, s + 48}"


text \<open>\<open>switch_to\<close> in closed form.\<close>

definition saved_mem :: "machine \<Rightarrow> u64 \<Rightarrow> u64" where
  "saved_mem m = (mem m)(rsp m - 8 := rbp m, rsp m - 16 := rbx m, rsp m - 24 := r12 m,
                         rsp m - 32 := r13 m, rsp m - 40 := r14 m, rsp m - 48 := r15 m)"

lemma switch_to_closed:
  "switch_to n m = (rsp m - 48,
     m\<lparr>rsp := n + 56, rbp := saved_mem m (n + 40), rbx := saved_mem m (n + 32),
       r12 := saved_mem m (n + 24), r13 := saved_mem m (n + 16), r14 := saved_mem m (n + 8),
       r15 := saved_mem m n, rip := saved_mem m (n + 48), mem := saved_mem m\<rparr>)"
  by (cases m) (simp add: switch_to_def Let_def push_def pop_def peek_def saved_mem_def add.commute
    del: fun_upd_apply)

lemma saved_mem_other: "a \<notin> pushed m \<Longrightarrow> saved_mem m a = mem m a"
  by (simp add: saved_mem_def pushed_def)

lemma saved_mem_cells:
  "saved_mem m (rsp m - 48) = r15 m" "saved_mem m (rsp m - 40) = r14 m"
  "saved_mem m (rsp m - 32) = r13 m" "saved_mem m (rsp m - 24) = r12 m"
  "saved_mem m (rsp m - 16) = rbx m" "saved_mem m (rsp m - 8) = rbp m"
  "saved_mem m (rsp m) = mem m (rsp m)"
  by (simp_all add: saved_mem_def)


lemma frame_at_saved: "frame_at (saved_mem m) (rsp m - 48) = callee_saved m @ [peek m]"
proof -
  have "rsp m - 48 + 8 = rsp m - 40" "rsp m - 48 + 16 = rsp m - 32" "rsp m - 48 + 24 = rsp m - 24"
    "rsp m - 48 + 32 = rsp m - 16" "rsp m - 48 + 40 = rsp m - 8" "rsp m - 48 + 48 = rsp m"
    by simp_all
  then show ?thesis by (simp only: frame_at_def saved_mem_cells callee_saved_def peek_def append.simps)
qed

lemma frame_at_cong: "\<forall>a \<in> frame_cells s. f a = g a \<Longrightarrow> frame_at f s = frame_at g s"
  by (simp add: frame_at_def frame_cells_def)

lemma switch_to_saves:
  assumes "switch_to n m = (s, m')"
  shows "s = rsp m - 48" and "frame_at (mem m') s = callee_saved m @ [peek m]"
    and "a \<notin> pushed m \<Longrightarrow> mem m' a = mem m a"
  using assms by (auto simp: switch_to_closed frame_at_saved saved_mem_other)

lemma switch_to_resumes:
  assumes "switch_to n m = (s, m')" and "pushed m \<inter> frame_cells n = {}"
  shows "callee_saved m' @ [rip m'] = frame_at (mem m) n" and "rsp m' = n + 56"
    and "interrupts m' = interrupts m"
proof -
  have m': "m' = snd (switch_to n m)" using assms(1) by simp
  have "callee_saved m' @ [rip m'] = frame_at (saved_mem m) n"
    by (simp add: m' switch_to_closed callee_saved_def frame_at_def)
  also have "\<dots> = frame_at (mem m) n"
    using assms(2) by (intro frame_at_cong) (auto intro: saved_mem_other)
  finally show "callee_saved m' @ [rip m'] = frame_at (mem m) n" .
  show "rsp m' = n + 56" "interrupts m' = interrupts m" by (simp_all add: m' switch_to_closed)
qed


section \<open>The initial frame\<close>

lemma unat_align16: "unat (w AND NOT 0xF :: u64) = unat w div 16 * 16"
  using unat_align [of 4 w] by (simp add: mask_eq_exp_minus_1)

lemma init_stack_closed:
  "init_stack base len trampoline entry memory =
     (let s = ((base + len) AND NOT 0xF) - 64
      in (memory(s + 48 := trampoline, s + 40 := 0, s + 32 := 0, s + 24 := 0, s + 16 := 0, s + 8 := 0, s := entry), s))"
  by (simp add: init_stack_def Let_def del: fun_upd_apply)

lemma init_stack_frame:
  assumes "init_stack base len trampoline entry memory = (memory', s)"
  shows "s = ((base + len) AND NOT 0xF) - 64" and "frame_at memory' s = [entry, 0, 0, 0, 0, 0, trampoline]"
    and "a \<notin> frame_cells s \<Longrightarrow> memory' a = memory a"
  using assms by (auto simp: init_stack_closed Let_def frame_at_def frame_cells_def)

lemma init_stack_bounds:
  assumes "init_stack base len trampoline entry memory = (memory', s)"
    and "unat base + unat len < 2 ^ 64" and "80 \<le> unat len"
  shows "unat base \<le> unat s" and "unat s + 64 \<le> unat base + unat len" and "unat s mod 16 = 0"
proof -
  let ?n = "unat base + unat len"
  have "unat ((base + len) AND NOT 0xF) = ?n div 16 * 16"
    by (simp only: unat_align16 unat_add_u64 [OF assms(2)])
  moreover have "unat (w - 64) = unat w - 64" if "64 \<le> unat w" for w :: u64
    using that by (simp add: unat_sub word_le_nat_alt)
  ultimately have s: "unat s = ?n div 16 * 16 - 64"
    using init_stack_frame(1) [OF assms(1)] assms(3) by auto
  show "unat base \<le> unat s" "unat s + 64 \<le> ?n" using s assms(3) by linarith+
  have "unat s = 16 * (?n div 16 - 4)" using s by simp
  then show "unat s mod 16 = 0" by simp
qed


section \<open>Properties\<close>

text \<open>
  A context that \<open>switch_to\<close> has suspended is resumed exactly where it left off: if nothing in between
  overwrote the seven cells of its frame, and the stack switched away from does not overlap it, the
  switch back to the saved stack pointer restores every callee-saved register, continues at the return
  address of the suspended call, and leaves the stack pointer just above that return address.
\<close>
lemma suspend_resume_roundtrip:
  assumes "switch_to n m = (s, m1)"
    and "\<forall>a \<in> frame_cells s. mem m2 a = mem m1 a"
    and "pushed m2 \<inter> frame_cells s = {}"
    and "switch_to s m2 = (s2, m3)"
  shows "callee_saved m3 = callee_saved m \<and> rip m3 = peek m \<and> rsp m3 = rsp m + 8"
proof -
  have "callee_saved m3 @ [rip m3] = frame_at (mem m2) s" by (rule switch_to_resumes(1) [OF assms(4,3)])
  also have "\<dots> = frame_at (mem m1) s" by (rule frame_at_cong [OF assms(2)])
  also have "\<dots> = callee_saved m @ [peek m]" by (rule switch_to_saves(2) [OF assms(1)])
  finally have "callee_saved m3 @ [rip m3] = callee_saved m @ [peek m]" .
  moreover have "rsp m3 = rsp m + 8"
    using switch_to_resumes(2) [OF assms(4,3)] switch_to_saves(1) [OF assms(1)] by simp
  ultimately show ?thesis by simp
qed

definition sample_machine :: "u64 \<Rightarrow> machine" where
  "sample_machine sp = \<lparr>rsp = sp, rbp = 1, rbx = 2, r12 = 3, r13 = 4, r14 = 5, r15 = 6, rip = 7,
     interrupts = False, mem = (\<lambda>a. a + 100)\<rparr>"

text \<open>
  C21: The first switch to a fresh task. \<open>init_stack\<close> on a stack of at least 80 bytes that
  does not wrap writes only cells of that stack; switching to the context it returns from a stack elsewhere continues in
  \<open>task_trampoline\<close> with the stack pointer aligned as after a \<open>call\<close> (8 modulo 16) and still
  inside the stack, and the trampoline jumps to the entry point with interrupts enabled.
\<close>
theorem first_switch_enters_task:
  assumes "init_stack base len trampoline entry memory = (memory', s)"
    and "unat base + unat len < 2 ^ 64" and "80 \<le> unat len"
    and "mem m = memory'" and "pushed m \<inter> frame_cells s = {}"
    and "switch_to s m = (saved, m')"
  shows "rip m' = trampoline \<and> rip (task_trampoline m') = entry \<and> interrupts (task_trampoline m')
    \<and> unat (rsp m') mod 16 = 8 \<and> unat base < unat (rsp m') \<and> unat (rsp m') < unat base + unat len
    \<and> (\<forall>a. memory' a \<noteq> memory a \<longrightarrow> unat base \<le> unat a \<and> unat a + 8 \<le> unat base + unat len)"
proof -
  note b = init_stack_bounds [OF assms(1-3)]
  have "callee_saved m' @ [rip m'] = [entry, 0, 0, 0, 0, 0, trampoline]"
    using switch_to_resumes(1) [OF assms(6,5)] init_stack_frame(2) [OF assms(1)] assms(4) by simp
  moreover have add: "unat (s + of_nat k) = unat s + k" if "k \<le> 56" for k
    using that b assms(2) by (simp add: unat_add_u64 unat_of_nat_u64)
  have sp: "unat (rsp m') = unat s + 56"
    using switch_to_resumes(2) [OF assms(6,5)] add [of 56] by simp
  moreover have "(unat s + 56) mod 16 = 8" using b(3) by presburger
  moreover have "unat base \<le> unat a \<and> unat a + 8 \<le> unat base + unat len" if "memory' a \<noteq> memory a" for a
  proof -
    have "a \<in> frame_cells s" using init_stack_frame(3) [OF assms(1)] that by blast
    then have "unat s \<le> unat a \<and> unat a \<le> unat s + 48"
      using add [of 0] add [of 8] add [of 16] add [of 24] add [of 32] add [of 40] add [of 48]
      by (auto simp: frame_cells_def)
    then show ?thesis using b by linarith
  qed
  ultimately show ?thesis using b by (simp add: callee_saved_def task_trampoline_def Let_def)
qed

theorem first_switch_enters_task_witness:
  "let (memory', s) = init_stack 0x10001 0x1000 0x400 0x500 (\<lambda>a. 0);
       m = (sample_machine 0x1000)\<lparr>mem := memory'\<rparr>;
       m' = snd (switch_to s m)
   in rip m' = 0x400 \<and> rip (task_trampoline m') = 0x500 \<and> unat (rsp m') mod 16 = 8"
proof -
  let ?i = "init_stack 0x10001 0x1000 0x400 0x500 (\<lambda>a. 0)"
  let ?m = "(sample_machine 0x1000)\<lparr>mem := fst ?i\<rparr>"
  have s: "snd ?i = 0x10FC0" by (simp add: init_stack_closed Let_def)
  have "pushed ?m \<inter> frame_cells (snd ?i) = {}"
    by (simp only: s) (simp add: pushed_def frame_cells_def sample_machine_def)
  then show ?thesis
    using first_switch_enters_task [of "0x10001" "0x1000" "0x400" "0x500" "\<lambda>a. 0" "fst ?i" "snd ?i" ?m
      "fst (switch_to (snd ?i) ?m)" "snd (switch_to (snd ?i) ?m)"]
    by (simp add: split_beta Let_def)
qed

end
