(* ===== verification/Capability.thy ===== *)
theory Capability
  imports BTree_Map "HOL-Library.Sublist"
begin

text \<open>
  The capability model of \<open>reference-rs/src/capability.rs\<close>: permission sets, tokens, the
  broker with its token table and audit log, and its operations \<open>issue\<close>, \<open>revoke\<close>,
  \<open>verify\<close>, \<open>check_access\<close> and \<open>delegate\<close>. Rust string slices are byte
  strings; the wildcard character is ASCII, so stripping it bytewise and characterwise agree.

  The lemmas show that the token scan computes a declarative decision, that authority is confined
  to principals that were given a token, that revocation is final and that delegation only
  attenuates, each over arbitrary sequences of broker operations.
\<close>

section \<open>Data\<close>

type_synonym token_id = u64
type_synonym principal_id = u64
type_synonym timestamp = u64

datatype resource_type =
    FileSystem | Network | Gpu | Usb | Audio | Input | Hardware | System | Ipc | Memory

record permissions =
  perm_read :: bool
  perm_write :: bool
  perm_execute :: bool
  perm_list :: bool
  perm_create :: bool
  perm_delete :: bool
  perm_modify :: bool
  perm_delegate :: bool

definition NONE :: permissions where
  "NONE = \<lparr>perm_read = False, perm_write = False, perm_execute = False, perm_list = False,
           perm_create = False, perm_delete = False, perm_modify = False, perm_delegate = False\<rparr>"

definition covers :: "permissions \<Rightarrow> permissions \<Rightarrow> bool" where
  "covers self other \<longleftrightarrow>
     (\<not> perm_read other \<or> perm_read self)
   \<and> (\<not> perm_write other \<or> perm_write self)
   \<and> (\<not> perm_execute other \<or> perm_execute self)
   \<and> (\<not> perm_list other \<or> perm_list self)
   \<and> (\<not> perm_create other \<or> perm_create self)
   \<and> (\<not> perm_delete other \<or> perm_delete self)
   \<and> (\<not> perm_modify other \<or> perm_modify self)
   \<and> (\<not> perm_delegate other \<or> perm_delegate self)"

definition intersect :: "permissions \<Rightarrow> permissions \<Rightarrow> permissions" where
  "intersect self other =
     \<lparr>perm_read = (perm_read self \<and> perm_read other),
      perm_write = (perm_write self \<and> perm_write other),
      perm_execute = (perm_execute self \<and> perm_execute other),
      perm_list = (perm_list self \<and> perm_list other),
      perm_create = (perm_create self \<and> perm_create other),
      perm_delete = (perm_delete self \<and> perm_delete other),
      perm_modify = (perm_modify self \<and> perm_modify other),
      perm_delegate = (perm_delegate self \<and> perm_delegate other)\<rparr>"

record capability_token =
  tok_id :: token_id
  tok_issuer :: principal_id
  tok_subject :: principal_id
  tok_resource_type :: resource_type
  tok_resource_path :: string
  tok_permissions :: permissions
  tok_issued_at :: timestamp
  tok_expires_at :: timestamp
  tok_revoked :: bool

definition is_live :: "capability_token \<Rightarrow> timestamp \<Rightarrow> bool" where
  "is_live t now \<longleftrightarrow> \<not> tok_revoked t \<and> now < tok_expires_at t"

datatype enforcement_decision = Allowed | Denied | Revoked | Expired

record audit_entry =
  aud_timestamp :: timestamp
  aud_subject :: principal_id
  aud_resource_type :: resource_type
  aud_resource_path :: string
  aud_decision :: enforcement_decision

datatype capability_error =
    NotFound | NotDelegatable | ExceedsSourcePermissions | IssuerLacksPermissions
  | PathNotWithinSourceScope

record capability_broker =
  tokens :: "(token_id, capability_token) btree_map"
  audit_log :: "audit_entry list"
  next_token_id :: token_id

section \<open>Operations\<close>

definition new_broker :: capability_broker where
  "new_broker = \<lparr>tokens = bt_empty, audit_log = [], next_token_id = 1\<rparr>"

definition issue ::
  "principal_id \<Rightarrow> principal_id \<Rightarrow> resource_type \<Rightarrow> string \<Rightarrow> permissions \<Rightarrow> timestamp \<Rightarrow> timestamp \<Rightarrow>
   capability_broker \<Rightarrow> capability_broker \<times> token_id" where
  "issue issuer subject rtype path perms now expires_at b =
     (let token_id = next_token_id b;
          token = \<lparr>tok_id = token_id, tok_issuer = issuer, tok_subject = subject,
                   tok_resource_type = rtype, tok_resource_path = path, tok_permissions = perms,
                   tok_issued_at = now, tok_expires_at = expires_at, tok_revoked = False\<rparr>
      in (b\<lparr>next_token_id := token_id + 1, tokens := bt_insert token_id token (tokens b)\<rparr>, token_id))"

definition revoke ::
  "token_id \<Rightarrow> capability_broker \<Rightarrow> capability_broker \<times> (capability_error, unit) result" where
  "revoke token_id b =
     (case bt_get (tokens b) token_id of
        None \<Rightarrow> (b, Err NotFound)
      | Some token \<Rightarrow>
          (b\<lparr>tokens := bt_insert token_id (token\<lparr>tok_revoked := True\<rparr>) (tokens b)\<rparr>, Ok ()))"

definition verify :: "capability_broker \<Rightarrow> token_id \<Rightarrow> timestamp \<Rightarrow> bool" where
  "verify b token_id now =
     (case bt_get (tokens b) token_id of None \<Rightarrow> False | Some t \<Rightarrow> is_live t now)"

text \<open>A granted path ending in the wildcard covers every path with that prefix.\<close>

definition path_covers :: "string \<Rightarrow> string \<Rightarrow> bool" where
  "path_covers granted requested =
     (if granted \<noteq> [] \<and> last granted = CHR ''*'' then prefix (butlast granted) requested
      else granted = requested)"

text \<open>The scan over the token table, with its two flags and its early return.\<close>

fun decide_loop ::
  "principal_id \<Rightarrow> resource_type \<Rightarrow> string \<Rightarrow> permissions \<Rightarrow> timestamp \<Rightarrow> bool \<Rightarrow> bool \<Rightarrow>
   capability_token list \<Rightarrow> enforcement_decision" where
  "decide_loop subject rtype path needs now saw_revoked saw_expired [] =
     (if saw_revoked then Revoked else if saw_expired then Expired else Denied)"
| "decide_loop subject rtype path needs now saw_revoked saw_expired (t # ts) =
     (if tok_subject t \<noteq> subject \<or> tok_resource_type t \<noteq> rtype
         \<or> \<not> path_covers (tok_resource_path t) path
      then decide_loop subject rtype path needs now saw_revoked saw_expired ts
      else if tok_revoked t
      then decide_loop subject rtype path needs now True saw_expired ts
      else if tok_expires_at t \<le> now
      then decide_loop subject rtype path needs now saw_revoked True ts
      else if covers (tok_permissions t) needs then Allowed
      else decide_loop subject rtype path needs now saw_revoked saw_expired ts)"

definition decide ::
  "capability_broker \<Rightarrow> principal_id \<Rightarrow> resource_type \<Rightarrow> string \<Rightarrow> permissions \<Rightarrow> timestamp \<Rightarrow>
   enforcement_decision" where
  "decide b subject rtype path needs now =
     decide_loop subject rtype path needs now False False (bt_values (tokens b))"

definition check_access ::
  "principal_id \<Rightarrow> resource_type \<Rightarrow> string \<Rightarrow> permissions \<Rightarrow> timestamp \<Rightarrow> capability_broker \<Rightarrow>
   capability_broker \<times> enforcement_decision" where
  "check_access subject rtype path needs now b =
     (let decision = decide b subject rtype path needs now
      in (b\<lparr>audit_log := audit_log b @
              [\<lparr>aud_timestamp = now, aud_subject = subject, aud_resource_type = rtype,
                aud_resource_path = path, aud_decision = decision\<rparr>]\<rparr>, decision))"

definition delegate ::
  "token_id \<Rightarrow> principal_id \<Rightarrow> permissions \<Rightarrow> timestamp \<Rightarrow> capability_broker \<Rightarrow>
   capability_broker \<times> (capability_error, token_id) result" where
  "delegate source_token_id delegatee requested now b =
     (case bt_get (tokens b) source_token_id of
        None \<Rightarrow> (b, Err NotFound)
      | Some source \<Rightarrow>
          if \<not> is_live source now then (b, Err NotFound)
          else if \<not> perm_delegate (tok_permissions source) then (b, Err NotDelegatable)
          else let granted = intersect (tok_permissions source) requested
               in if granted \<noteq> requested then (b, Err ExceedsSourcePermissions)
                  else let (b', new_id) =
                         issue (tok_subject source) delegatee (tok_resource_type source)
                           (tok_resource_path source) granted now (tok_expires_at source) b
                       in (b', Ok new_id))"

section \<open>Sequences of broker operations\<close>

datatype broker_op =
    Issue principal_id principal_id resource_type string permissions timestamp timestamp
  | Revoke token_id
  | CheckAccess principal_id resource_type string permissions timestamp
  | Delegate token_id principal_id permissions timestamp

fun broker_step :: "broker_op \<Rightarrow> capability_broker \<Rightarrow> capability_broker" where
  "broker_step (Issue i s r p q n e) b = fst (issue i s r p q n e b)"
| "broker_step (Revoke t) b = fst (revoke t b)"
| "broker_step (CheckAccess s r p q n) b = fst (check_access s r p q n b)"
| "broker_step (Delegate t d q n) b = fst (delegate t d q n b)"

fun broker_run :: "broker_op list \<Rightarrow> capability_broker \<Rightarrow> capability_broker" where
  "broker_run [] b = b"
| "broker_run (x # xs) b = broker_run xs (broker_step x b)"

section \<open>The decision the scan computes\<close>

definition matches :: "capability_token \<Rightarrow> principal_id \<Rightarrow> resource_type \<Rightarrow> string \<Rightarrow> bool" where
  "matches t subject rtype path \<longleftrightarrow>
     tok_subject t = subject \<and> tok_resource_type t = rtype \<and> path_covers (tok_resource_path t) path"

definition grants ::
  "capability_token \<Rightarrow> principal_id \<Rightarrow> resource_type \<Rightarrow> string \<Rightarrow> permissions \<Rightarrow> timestamp \<Rightarrow> bool" where
  "grants t subject rtype path needs now \<longleftrightarrow>
     matches t subject rtype path \<and> is_live t now \<and> covers (tok_permissions t) needs"

definition held :: "capability_broker \<Rightarrow> capability_token set" where
  "held b = set (bt_values (tokens b))"

lemma held_iff: "t \<in> held b \<longleftrightarrow> (\<exists>k. bt_get (tokens b) k = Some t)"
  by (auto simp: held_def set_bt_values)

definition verdict :: "bool \<Rightarrow> bool \<Rightarrow> bool \<Rightarrow> enforcement_decision" where
  "verdict granted saw_revoked saw_expired =
     (if granted then Allowed else if saw_revoked then Revoked else if saw_expired then Expired else Denied)"

lemma decide_loop_step:
  "decide_loop subject rtype path needs now sr se (t # ts) =
     (if grants t subject rtype path needs now then Allowed
      else decide_loop subject rtype path needs now
             (sr \<or> matches t subject rtype path \<and> tok_revoked t)
             (se \<or> matches t subject rtype path \<and> \<not> tok_revoked t \<and> tok_expires_at t \<le> now) ts)"
proof -
  have "(tok_subject t \<noteq> subject \<or> tok_resource_type t \<noteq> rtype
      \<or> \<not> path_covers (tok_resource_path t) path) = (\<not> matches t subject rtype path)"
    by (auto simp: matches_def)
  then show ?thesis
    by (simp only: decide_loop.simps) (auto simp: grants_def is_live_def simp flip: not_le)
qed

lemma decide_loop_spec:
  "decide_loop subject rtype path needs now sr se ts =
     verdict (\<exists>t\<in>set ts. grants t subject rtype path needs now)
       (sr \<or> (\<exists>t\<in>set ts. matches t subject rtype path \<and> tok_revoked t))
       (se \<or> (\<exists>t\<in>set ts. matches t subject rtype path \<and> \<not> tok_revoked t \<and> tok_expires_at t \<le> now))"
proof (induction ts arbitrary: sr se)
  case (Cons t ts)
  show ?case
    unfolding decide_loop_step Cons.IH by (simp add: verdict_def)
qed (simp add: verdict_def)

lemma decide_Allowed_iff:
  "decide b subject rtype path needs now = Allowed \<longleftrightarrow>
     (\<exists>t\<in>held b. grants t subject rtype path needs now)"
  by (simp add: decide_def decide_loop_spec held_def verdict_def)

section \<open>Permission sets\<close>

lemma covers_refl [simp]: "covers p p"
  by (simp add: covers_def)

lemma covers_trans: "covers p q \<Longrightarrow> covers q r \<Longrightarrow> covers p r"
  by (auto simp: covers_def)

lemma covers_antisym: "covers p q \<Longrightarrow> covers q p \<Longrightarrow> p = q"
  by (auto simp: covers_def intro!: permissions.equality)

lemma covers_NONE [simp]: "covers p NONE"
  by (simp add: covers_def NONE_def)

lemma intersect_eq_iff_covers: "intersect p q = q \<longleftrightarrow> covers p q"
  by (cases q) (auto simp: intersect_def covers_def)

lemma covers_intersect: "covers p (intersect p q)" "covers q (intersect p q)"
  by (auto simp: intersect_def covers_def)

section \<open>What each operation does to the table\<close>

lemma issue_simps [simp]:
  "snd (issue i s r p q n e b) = next_token_id b"
  "next_token_id (fst (issue i s r p q n e b)) = next_token_id b + 1"
  "tokens (fst (issue i s r p q n e b)) =
     bt_insert (next_token_id b)
       \<lparr>tok_id = next_token_id b, tok_issuer = i, tok_subject = s, tok_resource_type = r,
        tok_resource_path = p, tok_permissions = q, tok_issued_at = n, tok_expires_at = e,
        tok_revoked = False\<rparr> (tokens b)"
  by (simp_all add: issue_def Let_def)

lemma check_access_simps [simp]:
  "tokens (fst (check_access s r p q n b)) = tokens b"
  "next_token_id (fst (check_access s r p q n b)) = next_token_id b"
  "snd (check_access s r p q n b) = decide b s r p q n"
  by (simp_all add: check_access_def Let_def)

lemma check_access_decide [simp]:
  "decide (fst (check_access s r p q n b)) s' r' p' q' n' = decide b s' r' p' q' n'"
  by (simp add: decide_def)

lemma revoke_next [simp]: "next_token_id (fst (revoke t b)) = next_token_id b"
  by (simp add: revoke_def split: option.split)

lemma delegate_eq:
  "delegate t d q n b =
     (case bt_get (tokens b) t of
        None \<Rightarrow> (b, Err NotFound)
      | Some source \<Rightarrow>
          if \<not> is_live source n then (b, Err NotFound)
          else if \<not> perm_delegate (tok_permissions source) then (b, Err NotDelegatable)
          else if \<not> covers (tok_permissions source) q then (b, Err ExceedsSourcePermissions)
          else (fst (issue (tok_subject source) d (tok_resource_type source)
                  (tok_resource_path source) q n (tok_expires_at source) b), Ok (next_token_id b)))"
proof (cases "bt_get (tokens b) t")
  case (Some source)
  then show ?thesis
    by (cases "intersect (tok_permissions source) q = q")
      (simp_all add: delegate_def Let_def issue_def flip: intersect_eq_iff_covers)
qed (simp add: delegate_def)

lemma delegate_cases:
  obtains (err) e where "delegate t d q n b = (b, Err e)"
  | (ok) source where "bt_get (tokens b) t = Some source" "is_live source n"
      "perm_delegate (tok_permissions source)" "covers (tok_permissions source) q"
      "delegate t d q n b =
         (fst (issue (tok_subject source) d (tok_resource_type source) (tok_resource_path source) q n
                 (tok_expires_at source) b), Ok (next_token_id b))"
  by (fastforce simp: delegate_eq split: option.splits if_splits)

interpretation tok: id_registry tokens next_token_id
  "\<lambda>(i, s, r, p, q, n, e). issue i s r p q n e"
  "\<lambda>(i, s, r, p, q, n, e) k. \<lparr>tok_id = k, tok_issuer = i, tok_subject = s, tok_resource_type = r,
     tok_resource_path = p, tok_permissions = q, tok_issued_at = n, tok_expires_at = e,
     tok_revoked = False\<rparr>"
  by unfold_locales (auto split: prod.split)

section \<open>The monitor the other components call\<close>

text \<open>
  The port table and the memory contexts call \<open>check_access\<close> before they act. What they
  rely on: the answer is \<open>Allowed\<close> exactly when the caller has authority, and asking does not
  change anyone's authority.
\<close>

locale access_monitor =
  fixes check :: "'r \<Rightarrow> 's \<Rightarrow> 's \<times> enforcement_decision"
    and authority :: "'s \<Rightarrow> 'r \<Rightarrow> bool"
  assumes check_allowed: "snd (check r s) = Allowed \<longleftrightarrow> authority s r"
    and check_keeps: "authority (fst (check r s)) r' = authority s r'"
begin

lemma check_twice: "snd (check r (fst (check r' s))) = Allowed \<longleftrightarrow> snd (check r s) = Allowed"
  by (simp add: check_allowed check_keeps)

lemma refused_stays_refused:
  "\<not> authority s r \<Longrightarrow> snd (check r (fst (check r' s))) \<noteq> Allowed"
  by (simp add: check_allowed check_keeps)

end

definition has_authority ::
  "capability_broker \<Rightarrow> principal_id \<times> resource_type \<times> string \<times> permissions \<times> timestamp \<Rightarrow> bool" where
  "has_authority b = (\<lambda>(s, r, p, q, n). \<exists>t\<in>held b. grants t s r p q n)"

interpretation caps: access_monitor "\<lambda>(s, r, p, q, n). check_access s r p q n" has_authority
  by unfold_locales (auto simp: has_authority_def decide_Allowed_iff held_def split: prod.split)

section \<open>Invariants along sequences of operations\<close>

definition broker_ok :: "capability_broker \<Rightarrow> bool" where
  "broker_ok b \<longleftrightarrow> fresh_ids (tokens b) (next_token_id b)"

lemma broker_ok_new [simp]: "broker_ok new_broker"
  by (simp add: broker_ok_def new_broker_def)

lemma broker_ok_issue_new [simp]: "broker_ok (fst (issue i s r p q n e new_broker))"
  by (simp add: broker_ok_def new_broker_def fresh_ids_def)

lemma broker_step_next:
  "next_token_id (broker_step x b) = next_token_id b \<or> next_token_id (broker_step x b) = next_token_id b + 1"
proof (cases x)
  case (Delegate t d q n)
  then show ?thesis by (cases rule: delegate_cases [of t d q n b]) simp_all
qed simp_all

lemma broker_ok_step:
  assumes "broker_ok b" and "next_token_id b \<noteq> u64_max"
  shows "broker_ok (broker_step x b)"
proof (cases x)
  case (Revoke t)
  with assms show ?thesis
    by (auto simp: broker_ok_def revoke_def intro: fresh_ids_update split: option.split)
next
  case (Delegate t d q n)
  with assms show ?thesis
    by (cases rule: delegate_cases [of t d q n b]) (simp_all add: broker_ok_def fresh_ids_insert)
qed (use assms in \<open>simp_all add: broker_ok_def fresh_ids_insert\<close>)

text \<open>No operation clears a token's revoked flag or frees its identifier.\<close>

definition revoked_in :: "capability_broker \<Rightarrow> token_id \<Rightarrow> bool" where
  "revoked_in b k \<longleftrightarrow> (\<exists>t. bt_get (tokens b) k = Some t \<and> tok_revoked t)"

text \<open>A revoked token grants nothing, so an allowed access rests on another one.\<close>

lemma allowed_by_other:
  assumes "revoked_in b k"
  shows "snd (check_access s rtype path needs now b) = Allowed \<longleftrightarrow>
    (\<exists>k' t. k' \<noteq> k \<and> bt_get (tokens b) k' = Some t \<and> grants t s rtype path needs now)"
proof -
  have other: "k' \<noteq> k" if "bt_get (tokens b) k' = Some t" "grants t s rtype path needs now" for k' t
    using assms that by (auto simp: revoked_in_def grants_def is_live_def)
  have d: "snd (check_access s rtype path needs now b) = decide b s rtype path needs now" by (simp add: check_access_def Let_def)
  show ?thesis unfolding d decide_Allowed_iff Bex_def held_iff using other by blast
qed

lemma revoked_in_issue:
  "broker_ok b \<Longrightarrow> revoked_in b k \<Longrightarrow> revoked_in (fst (issue i s r p q n e b)) k"
  using fresh_ids_unused [of "tokens b" "next_token_id b"] by (auto simp: revoked_in_def broker_ok_def)

lemma revoked_in_step: "broker_ok b \<Longrightarrow> revoked_in b k \<Longrightarrow> revoked_in (broker_step x b) k"
proof (cases x)
  case (Revoke t)
  then show "revoked_in b k \<Longrightarrow> ?thesis"
    by (auto simp: revoked_in_def revoke_def split: option.split)
next
  case (CheckAccess s r p q n)
  then show "revoked_in b k \<Longrightarrow> ?thesis" by (simp add: revoked_in_def)
next
  case (Delegate t d q n)
  then show "broker_ok b \<Longrightarrow> revoked_in b k \<Longrightarrow> ?thesis"
    by (cases rule: delegate_cases [of t d q n b]) (simp_all add: revoked_in_issue)
qed (simp add: revoked_in_issue)

lemma room_step:
  assumes "unat (next_token_id b) + Suc n < 2 ^ 64"
  shows "next_token_id b \<noteq> u64_max" "unat (next_token_id (broker_step x b)) + n < 2 ^ 64"
proof -
  show ne: "next_token_id b \<noteq> u64_max" using assms by (rule not_u64_max)
  show "unat (next_token_id (broker_step x b)) + n < 2 ^ 64"
    using broker_step_next [of x b] assms unat_succ [OF ne] by auto
qed

lemma revoked_in_run:
  "broker_ok b \<Longrightarrow> revoked_in b k \<Longrightarrow> unat (next_token_id b) + length xs < 2 ^ 64 \<Longrightarrow>
   broker_ok (broker_run xs b) \<and> revoked_in (broker_run xs b) k"
proof (induction xs arbitrary: b)
  case (Cons x xs)
  then show ?case
    using room_step(1) [of b "length xs"] room_step(2) [of b "length xs" x] by (simp add: broker_ok_step revoked_in_step)
qed simp

text \<open>
  Tokens appear by \<open>Issue\<close> and \<open>Delegate\<close> only, and a delegated token carries its
  source's resource, path and expiry and a part of its permissions.
\<close>

definition derived_from :: "capability_token \<Rightarrow> capability_token \<Rightarrow> bool" where
  "derived_from t t0 \<longleftrightarrow>
     tok_resource_type t = tok_resource_type t0 \<and> tok_resource_path t = tok_resource_path t0
   \<and> tok_expires_at t = tok_expires_at t0 \<and> covers (tok_permissions t0) (tok_permissions t)"

lemma derived_from_refl [simp]: "derived_from t t"
  by (simp add: derived_from_def)

lemma derived_from_trans: "derived_from t u \<Longrightarrow> derived_from u v \<Longrightarrow> derived_from t v"
  by (auto simp: derived_from_def intro: covers_trans)

definition live_tokens :: "capability_broker \<Rightarrow> capability_token set" where
  "live_tokens b = {t \<in> held b. \<not> tok_revoked t}"

fun is_issue :: "broker_op \<Rightarrow> bool" where
  "is_issue (Issue _ _ _ _ _ _ _) = True"
| "is_issue _ = False"

fun grantee :: "broker_op \<Rightarrow> principal_id option" where
  "grantee (Issue _ s _ _ _ _ _) = Some s"
| "grantee (Delegate _ d _ _) = Some d"
| "grantee _ = None"

lemma held_insert: "t \<in> set (bt_values (bt_insert k v m)) \<Longrightarrow> t = v \<or> t \<in> set (bt_values m)"
  by (auto simp: set_bt_values split: if_splits)

lemma live_step_derived:
  assumes "\<not> is_issue x" and "t \<in> live_tokens (broker_step x b)"
  shows "\<exists>t0 \<in> live_tokens b. derived_from t t0"
proof (cases x)
  case (Revoke k)
  with assms(2) have "t \<in> live_tokens b"
    by (auto simp: live_tokens_def held_def revoke_def dest!: held_insert split: option.splits)
  then show ?thesis by (auto intro: derived_from_refl)
next
  case (CheckAccess s r p q n)
  with assms(2) have "t \<in> live_tokens b" by (simp add: live_tokens_def held_def)
  then show ?thesis by (auto intro: derived_from_refl)
next
  case (Delegate k d q n)
  show ?thesis
  proof (cases rule: delegate_cases [of k d q n b])
    case (err e)
    with assms(2) Delegate show ?thesis by (auto intro: derived_from_refl)
  next
    case (ok source)
    have "source \<in> live_tokens b" using ok by (auto simp: live_tokens_def held_iff is_live_def)
    then show ?thesis
      using assms(2) Delegate ok
      by (auto simp: live_tokens_def held_def derived_from_def dest!: held_insert intro: bexI [of _ source])
  qed
qed (use assms(1) in simp)

lemma live_run_derived:
  "\<forall>x\<in>set xs. \<not> is_issue x \<Longrightarrow> t \<in> live_tokens (broker_run xs b) \<Longrightarrow>
   \<exists>t0 \<in> live_tokens b. derived_from t t0"
proof (induction xs arbitrary: b)
  case Nil
  then show ?case by (auto intro: derived_from_refl)
next
  case (Cons x xs)
  then obtain t1 where "t1 \<in> live_tokens (broker_step x b)" "derived_from t t1" by auto
  then show ?case using Cons.prems live_step_derived [of x t1 b] by (auto intro: derived_from_trans)
qed

lemma subjects_step:
  assumes "grantee x \<noteq> Some s" and "t \<in> held (broker_step x b)" and "tok_subject t = s"
  shows "\<exists>t0 \<in> held b. tok_subject t0 = s"
proof (cases x)
  case (Revoke k)
  with assms show ?thesis
    by (auto simp: held_def revoke_def dest!: held_insert split: option.splits)
      (auto simp: set_bt_values)
next
  case (Delegate k d q n)
  with assms show ?thesis
    by (cases rule: delegate_cases [of k d q n b]) (auto simp: held_def dest!: held_insert)
qed (use assms in \<open>auto simp: held_def dest!: held_insert\<close>)

lemma subjects_run:
  "\<forall>x\<in>set xs. grantee x \<noteq> Some s \<Longrightarrow> t \<in> held (broker_run xs b) \<Longrightarrow> tok_subject t = s \<Longrightarrow>
   \<exists>t0 \<in> held b. tok_subject t0 = s"
proof (induction xs arbitrary: b t)
  case (Cons x xs)
  have "\<exists>t1 \<in> held (broker_step x b). tok_subject t1 = s"
    by (rule Cons.IH [of t]) (use Cons.prems in auto)
  then obtain t1 where "t1 \<in> held (broker_step x b)" "tok_subject t1 = s" by blast
  then show ?case using Cons.prems subjects_step [of x s t1 b] by auto
qed auto

section \<open>Properties\<close>

text \<open>
  C1: \<open>check_access\<close> is a complete mediator. Its answer is the declarative decision over
  all held tokens, whatever their order in the table: allowed exactly if some live matching token
  covers the request, otherwise \<open>Revoked\<close> if a matching token was revoked, otherwise
  \<open>Expired\<close> if a matching token has expired, otherwise \<open>Denied\<close>. The call leaves
  tokens and the identifier counter alone and appends exactly one audit entry with that answer.
\<close>

theorem check_access_mediates:
  "snd (check_access subject rtype path needs now b) =
     (if \<exists>t\<in>held b. grants t subject rtype path needs now then Allowed
      else if \<exists>t\<in>held b. matches t subject rtype path \<and> tok_revoked t then Revoked
      else if \<exists>t\<in>held b. matches t subject rtype path \<and> \<not> tok_revoked t \<and> tok_expires_at t \<le> now
      then Expired else Denied)
   \<and> fst (check_access subject rtype path needs now b) =
       b\<lparr>audit_log := audit_log b @
           [\<lparr>aud_timestamp = now, aud_subject = subject, aud_resource_type = rtype,
             aud_resource_path = path,
             aud_decision = snd (check_access subject rtype path needs now b)\<rparr>]\<rparr>"
proof (rule conjI)
  show "snd (check_access subject rtype path needs now b) =
     (if \<exists>t\<in>held b. grants t subject rtype path needs now then Allowed
      else if \<exists>t\<in>held b. matches t subject rtype path \<and> tok_revoked t then Revoked
      else if \<exists>t\<in>held b. matches t subject rtype path \<and> \<not> tok_revoked t \<and> tok_expires_at t \<le> now
      then Expired else Denied)"
    by (simp only: check_access_simps decide_def decide_loop_spec held_def verdict_def simp_thms)
qed (simp add: check_access_def Let_def)

text \<open>
  C2: No ambient authority. A principal that holds no token, and to which no operation of a
  sequence issues or delegates one, is never allowed any access after that sequence.
\<close>

theorem no_ambient_authority:
  assumes "\<forall>t\<in>held b. tok_subject t \<noteq> s"
    and "\<forall>x\<in>set xs. grantee x \<noteq> Some s"
  shows "snd (check_access s rtype path needs now (broker_run xs b)) \<noteq> Allowed"
  using assms subjects_run [of xs s _ b]
  by (auto simp: decide_Allowed_iff grants_def matches_def)

theorem no_ambient_authority_witness:
  "snd (check_access 2 Network ''x'' NONE 5
     (broker_run [Issue 0 1 Network ''*'' NONE 0 1000, Revoke 1] new_broker)) \<noteq> Allowed"
  by (rule no_ambient_authority) (simp_all add: held_def new_broker_def bt_values_def)

text \<open>
  C3: Revocation is final. Once \<open>revoke\<close> returned \<open>Ok\<close> for a token, no later
  sequence of issue, revoke, check and delegate operations makes that identifier valid again or
  lets it be delegated, and an access is allowed exactly when a token other than the revoked one
  grants it, as long as the 64-bit identifier counter does not wrap around.
\<close>

theorem revocation_is_final:
  assumes "broker_ok b" and "snd (revoke k b) = Ok ()"
    and "unat (next_token_id b) + length xs < 2 ^ 64"
  shows "\<not> verify (broker_run xs (fst (revoke k b))) k now
       \<and> delegate k d q now (broker_run xs (fst (revoke k b))) =
           (broker_run xs (fst (revoke k b)), Err NotFound)
       \<and> (snd (check_access s rtype path needs now (broker_run xs (fst (revoke k b)))) = Allowed \<longleftrightarrow>
            (\<exists>k' t. k' \<noteq> k \<and> bt_get (tokens (broker_run xs (fst (revoke k b)))) k' = Some t \<and> grants t s rtype path needs now))"
proof -
  from assms(2) obtain t where "bt_get (tokens b) k = Some t"
    by (auto simp: revoke_def split: option.splits)
  then have "revoked_in (fst (revoke k b)) k" by (simp add: revoked_in_def revoke_def)
  moreover have "broker_ok (fst (revoke k b))"
    using assms(1) \<open>bt_get (tokens b) k = Some t\<close> by (simp add: broker_ok_def revoke_def fresh_ids_update)
  ultimately have "revoked_in (broker_run xs (fst (revoke k b))) k"
    using revoked_in_run [of "fst (revoke k b)" k xs] assms(3) by simp
  then show ?thesis
    using allowed_by_other [of "broker_run xs (fst (revoke k b))" k] by (auto simp: revoked_in_def verify_def is_live_def delegate_def)
qed

theorem revocation_is_final_witness:
  "\<not> verify (broker_run [Issue 0 1 Gpu ''y'' NONE 0 9, CheckAccess 1 Gpu ''y'' NONE 1]
       (fst (revoke 1 (fst (issue 0 1 Network ''*'' NONE 0 1000 new_broker))))) 1 5
   \<and> snd (check_access 1 Network ''x'' NONE 5 (broker_run [Issue 0 1 Gpu ''y'' NONE 0 9, CheckAccess 1 Gpu ''y'' NONE 1]
       (fst (revoke 1 (fst (issue 0 1 Network ''*'' NONE 0 1000 new_broker)))))) \<noteq> Allowed"
proof -
  let ?b = "fst (issue 0 1 Network ''*'' NONE 0 1000 new_broker)" and ?xs = "[Issue 0 1 Gpu ''y'' NONE 0 9, CheckAccess 1 Gpu ''y'' NONE 1]"
  let ?after = "broker_run ?xs (fst (revoke 1 ?b))"
  have "broker_ok ?b" by (rule broker_ok_issue_new)
  moreover have "snd (revoke 1 ?b) = Ok ()" by (simp add: revoke_def new_broker_def)
  moreover have "unat (next_token_id ?b) + length ?xs < 2 ^ 64" by (simp add: new_broker_def)
  ultimately have r: "\<not> verify ?after 1 5"
    "snd (check_access 1 Network ''x'' NONE 5 ?after) = Allowed \<longleftrightarrow>
       (\<exists>k' t. k' \<noteq> 1 \<and> bt_get (tokens ?after) k' = Some t \<and> grants t 1 Network ''x'' NONE 5)"
    using revocation_is_final [of ?b 1 ?xs 5] by blast+
  have "\<not> (\<exists>k' t. k' \<noteq> 1 \<and> bt_get (tokens ?after) k' = Some t \<and> grants t 1 Network ''x'' NONE 5)"
    by (auto simp: new_broker_def revoke_def grants_def matches_def split: if_splits)
  with r show ?thesis by blast
qed

text \<open>
  C4: Delegation never amplifies. After any sequence of operations without an \<open>issue\<close>,
  whatever access anybody is allowed was within the scope, the permissions and the lifetime of a
  token that was unrevoked before the sequence.
\<close>

theorem delegation_never_amplifies:
  assumes "\<forall>x\<in>set xs. \<not> is_issue x"
    and "snd (check_access s rtype path needs now (broker_run xs b)) = Allowed"
  shows "\<exists>t0\<in>held b. \<not> tok_revoked t0 \<and> now < tok_expires_at t0 \<and> tok_resource_type t0 = rtype
           \<and> path_covers (tok_resource_path t0) path \<and> covers (tok_permissions t0) needs"
proof -
  from assms(2) obtain t where t: "t \<in> held (broker_run xs b)" "grants t s rtype path needs now"
    by (auto simp: decide_Allowed_iff)
  then have "t \<in> live_tokens (broker_run xs b)" by (simp add: live_tokens_def grants_def is_live_def)
  then obtain t0 where "t0 \<in> live_tokens b" "derived_from t t0"
    using live_run_derived [OF assms(1)] by blast
  then show ?thesis using t(2)
    by (auto simp: live_tokens_def derived_from_def grants_def matches_def is_live_def intro: covers_trans)
qed

theorem delegation_never_amplifies_witness:
  "let b = fst (issue 0 1 Network ''*'' (NONE\<lparr>perm_read := True, perm_delegate := True\<rparr>) 0 1000 new_broker);
       q = NONE\<lparr>perm_read := True\<rparr>
   in snd (check_access 2 Network ''x'' q 6 (broker_run [Delegate 1 2 q 5] b)) = Allowed
      \<and> (\<exists>t0\<in>held b. \<not> tok_revoked t0 \<and> 6 < tok_expires_at t0 \<and> tok_resource_type t0 = Network
           \<and> path_covers (tok_resource_path t0) ''x'' \<and> covers (tok_permissions t0) q)"
proof -
  let ?b = "fst (issue 0 1 Network ''*'' (NONE\<lparr>perm_read := True, perm_delegate := True\<rparr>) 0 1000 new_broker)"
  let ?q = "NONE\<lparr>perm_read := True\<rparr>"
  have allowed: "snd (check_access 2 Network ''x'' ?q 6 (broker_run [Delegate 1 2 ?q 5] ?b)) = Allowed"
    by (simp add: new_broker_def delegate_eq is_live_def NONE_def covers_def decide_def bt_values_def path_covers_def)
  show ?thesis
    using allowed delegation_never_amplifies [of "[Delegate 1 2 ?q 5]" 2 Network "''x''" ?q 6 ?b]
    by (simp add: Let_def)
qed

text \<open>
  What \<open>delegate\<close> returns on every branch: \<open>NotFound\<close> for an unknown, revoked or
  expired source, \<open>NotDelegatable\<close> without the delegate bit,
  \<open>ExceedsSourcePermissions\<close> for more than the source has, each without changing the broker;
  otherwise a fresh token for the delegatee, issued in the name of the source's subject, with
  exactly the requested permissions and the source's resource, path and expiry.
\<close>

lemma delegate_outcome:
  assumes "broker_ok b"
  shows "case snd (delegate k d q now b) of
     Inl e \<Rightarrow> fst (delegate k d q now b) = b \<and>
       (case bt_get (tokens b) k of
          None \<Rightarrow> e = NotFound
        | Some src \<Rightarrow>
            if \<not> is_live src now then e = NotFound
            else if \<not> perm_delegate (tok_permissions src) then e = NotDelegatable
            else e = ExceedsSourcePermissions \<and> \<not> covers (tok_permissions src) q)
   | Inr new_id \<Rightarrow> bt_get (tokens b) new_id = None \<and>
       (\<exists>src t. bt_get (tokens b) k = Some src \<and> is_live src now
          \<and> perm_delegate (tok_permissions src) \<and> covers (tok_permissions src) q
          \<and> bt_get (tokens (fst (delegate k d q now b))) new_id = Some t
          \<and> tok_subject t = d \<and> tok_issuer t = tok_subject src \<and> tok_permissions t = q
          \<and> tok_resource_type t = tok_resource_type src
          \<and> tok_resource_path t = tok_resource_path src \<and> tok_expires_at t = tok_expires_at src
          \<and> \<not> tok_revoked t)"
  using assms fresh_ids_unused [of "tokens b" "next_token_id b"]
  by (cases "bt_get (tokens b) k") (auto simp: delegate_eq broker_ok_def)

end
