(* ===== verification/Dyadic.thy ===== *)
theory Dyadic
  imports UOSC_Prelude
begin

text \<open>
  The mathematics of the buddy allocator, without machine words: a block is a pair of a first page
  and an order, it occupies \<open>2 ^ order\<close> pages and starts at a multiple of its size. A
  tiling of \<open>n\<close> pages is a multiset of blocks whose pages, counted with multiplicity, are
  exactly \<open>{..<n}\<close>, which says at once that the blocks are disjoint and that no page is
  lost. A set of blocks is coalesced if no two buddies of an order below the maximum are both in it.

  The main results: splitting and merging keep a tiling, and a coalesced tiling of \<open>n\<close> pages is
  unique.
\<close>

definition MAX_ORDER :: nat where
  "MAX_ORDER = 20"

type_synonym block = "nat \<times> nat"

definition pages_of :: "block \<Rightarrow> nat set" where
  "pages_of blk = {fst blk ..< fst blk + 2 ^ snd blk}"

definition aligned :: "block \<Rightarrow> bool" where
  "aligned blk \<longleftrightarrow> 2 ^ snd blk dvd fst blk \<and> snd blk \<le> MAX_ORDER"

definition page_mset :: "block multiset \<Rightarrow> nat multiset" where
  "page_mset M = (\<Sum>blk\<in>#M. mset_set (pages_of blk))"

definition tiles :: "nat \<Rightarrow> block multiset \<Rightarrow> bool" where
  "tiles n M \<longleftrightarrow> (\<forall>blk\<in>#M. aligned blk) \<and> page_mset M = mset_set {..<n}"

definition buddy :: "nat \<Rightarrow> nat \<Rightarrow> nat" where
  "buddy p k = (if even (p div 2 ^ k) then p + 2 ^ k else p - 2 ^ k)"

definition coalesced :: "block multiset \<Rightarrow> bool" where
  "coalesced M \<longleftrightarrow> (\<forall>p k. (p, k) \<in># M \<longrightarrow> k < MAX_ORDER \<longrightarrow> (buddy p k, k) \<notin># M)"

lemma finite_pages_of [simp]: "finite (pages_of blk)"
  by (simp add: pages_of_def)

lemma card_pages_of [simp]: "card (pages_of blk) = 2 ^ snd blk"
  by (simp add: pages_of_def)

lemma first_in_pages_of [simp]: "p \<in> pages_of (p, k)"
  by (simp add: pages_of_def)

lemma page_mset_simps [simp]:
  "page_mset {#} = {#}"
  "page_mset (add_mset blk M) = mset_set (pages_of blk) + page_mset M"
  "page_mset (M + N) = page_mset M + page_mset N"
  by (simp_all add: page_mset_def)

lemma size_page_mset: "size (page_mset M) = (\<Sum>blk\<in>#M. 2 ^ snd blk)"
  by (induction M) simp_all

section \<open>Reading a tiling\<close>

lemma tiles_aligned: "tiles n M \<Longrightarrow> blk \<in># M \<Longrightarrow> aligned blk"
  by (simp add: tiles_def)

lemma tiles_covers:
  assumes "tiles n M" and "x < n"
  shows "\<exists>blk\<in>#M. x \<in> pages_of blk"
proof -
  have "x \<in># page_mset M" using assms by (simp add: tiles_def)
  then show ?thesis by (auto simp: page_mset_def)
qed

lemma tiles_within:
  assumes "tiles n M" and "blk \<in># M"
  shows "pages_of blk \<subseteq> {..<n}"
proof
  fix x assume "x \<in> pages_of blk"
  then have "x \<in># page_mset M" using assms(2) by (auto simp: page_mset_def)
  then show "x \<in> {..<n}" using assms(1) by (simp add: tiles_def)
qed

lemma tiles_bound: "tiles n M \<Longrightarrow> (p, k) \<in># M \<Longrightarrow> p + 2 ^ k \<le> n"
proof -
  assume "tiles n M" and "(p, k) \<in># M"
  then have "{p..<p + 2 ^ k} \<subseteq> {..<n}" using tiles_within [of n M "(p, k)"] by (simp add: pages_of_def)
  moreover have "0 < (2::nat) ^ k" by simp
  ultimately show ?thesis by (simp add: lessThan_atLeast0 del: zero_less_power)
qed

lemma tiles_disjoint:
  assumes "tiles n (add_mset b1 (add_mset b2 M))"
  shows "pages_of b1 \<inter> pages_of b2 = {}"
proof (rule ccontr)
  assume "pages_of b1 \<inter> pages_of b2 \<noteq> {}"
  then obtain x where x: "x \<in> pages_of b1" "x \<in> pages_of b2" by blast
  have "page_mset (add_mset b1 (add_mset b2 M)) = mset_set {..<n}" using assms by (simp only: tiles_def)
  then have "count (mset_set (pages_of b1)) x + (count (mset_set (pages_of b2)) x + count (page_mset M) x)
      = count (mset_set {..<n}) x"
    by (simp only: page_mset_simps count_union flip: \<open>page_mset (add_mset b1 (add_mset b2 M)) = mset_set {..<n}\<close>)
  then show False using x by (simp add: count_mset_set' split: if_splits)
qed

lemma tiles_count: "tiles n M \<Longrightarrow> count M blk \<le> 1"
proof (rule ccontr)
  assume t: "tiles n M" and "\<not> count M blk \<le> 1"
  then have "blk \<in># M" by (auto simp flip: count_greater_zero_iff)
  then obtain M1 where M1: "M = add_mset blk M1" by (blast dest: multi_member_split)
  then have "blk \<in># M1" using \<open>\<not> count M blk \<le> 1\<close> by (auto simp flip: count_greater_zero_iff)
  then obtain M2 where "M1 = add_mset blk M2" by (blast dest: multi_member_split)
  then have "pages_of blk \<inter> pages_of blk = {}" using t M1 tiles_disjoint by blast
  then show False by (cases blk) (auto simp: pages_of_def)
qed

lemma tiles_overlap_eq:
  assumes "tiles n M" and "b1 \<in># M" and "b2 \<in># M" and "x \<in> pages_of b1" and "x \<in> pages_of b2"
  shows "b1 = b2"
proof (rule ccontr)
  assume "b1 \<noteq> b2"
  from assms(2) obtain M1 where M1: "M = add_mset b1 M1" by (blast dest: multi_member_split)
  with assms(3) \<open>b1 \<noteq> b2\<close> obtain M2 where "M1 = add_mset b2 M2" by (auto dest: multi_member_split)
  then have "pages_of b1 \<inter> pages_of b2 = {}" using assms(1) M1 tiles_disjoint by blast
  then show False using assms(4,5) by blast
qed

lemma tiles_total: "tiles n M \<Longrightarrow> (\<Sum>blk\<in>#M. 2 ^ snd blk) = n"
  by (metis size_page_mset tiles_def size_mset_set card_lessThan)

section \<open>Splitting, merging and extending\<close>

lemma pages_of_Suc: "pages_of (p, Suc k) = pages_of (p, k) \<union> pages_of (p + 2 ^ k, k)"
  by (auto simp: pages_of_def)

lemma mset_pages_of_Suc:
  "mset_set (pages_of (p, Suc k)) = mset_set (pages_of (p, k)) + mset_set (pages_of (p + 2 ^ k, k))"
  unfolding pages_of_Suc by (rule mset_set_Union) (auto simp: pages_of_def)

lemma tiles_split:
  assumes "tiles n (add_mset (p, Suc k) M)"
  shows "tiles n (add_mset (p, k) (add_mset (p + 2 ^ k, k) M))"
proof -
  have "aligned (p, k)" "aligned (p + 2 ^ k, k)"
    using tiles_aligned [OF assms, of "(p, Suc k)"]
    by (auto simp: aligned_def intro: power_le_dvd dvd_trans [of "2 ^ k" "2 ^ Suc k"])
  with assms show ?thesis by (auto simp: tiles_def mset_pages_of_Suc ac_simps)
qed

lemma buddy_even: "even (p div 2 ^ k) \<Longrightarrow> buddy p k = p + 2 ^ k"
  by (simp add: buddy_def)

lemma buddy_odd_ge: "odd ((p::nat) div 2 ^ k) \<Longrightarrow> 2 ^ k \<le> p"
  by (rule ccontr) simp

lemma div_pred_block: "2 ^ k \<le> p \<Longrightarrow> (p - 2 ^ k) div 2 ^ k = p div 2 ^ k - (1::nat)"
  using div_add_self2 [of "2 ^ k" "p - 2 ^ k"] by simp

lemma buddy_involutive: "buddy (buddy p k) k = p"
proof (cases "even (p div 2 ^ k)")
  case True
  then show ?thesis by (simp add: buddy_def div_add_self2)
next
  case False
  then have le: "2 ^ k \<le> p" by (rule buddy_odd_ge)
  with False show ?thesis by (simp add: buddy_def div_pred_block)
qed

lemma dvd_buddy: "2 ^ k dvd p \<Longrightarrow> 2 ^ k dvd buddy p k"
  by (auto simp: buddy_def intro: dvd_diff_nat)

lemma dvd_Suc_of_even: "2 ^ k dvd (p::nat) \<Longrightarrow> even (p div 2 ^ k) \<Longrightarrow> 2 ^ Suc k dvd p"
  by auto

lemma min_buddy_cases:
  obtains (low) "even (p div 2 ^ k)" "buddy p k = p + 2 ^ k" "min p (buddy p k) = p"
  | (high) "odd (p div 2 ^ k)" "2 ^ k \<le> p" "buddy p k = p - 2 ^ k" "min p (buddy p k) = p - 2 ^ k"
  by (cases "even (p div 2 ^ k)") (auto simp: buddy_def buddy_odd_ge)

lemma tiles_merge:
  assumes "tiles n (add_mset (p, k) (add_mset (buddy p k, k) M))" and "k < MAX_ORDER"
  shows "tiles n (add_mset (min p (buddy p k), Suc k) M)"
proof -
  have al: "2 ^ k dvd p" using tiles_aligned [OF assms(1), of "(p, k)"] by (simp add: aligned_def)
  show ?thesis
  proof (cases rule: min_buddy_cases [of p k])
    case low
    then have "aligned (p, Suc k)" using al assms(2) dvd_Suc_of_even [of k p] by (simp add: aligned_def)
    with low assms(1) show ?thesis by (simp add: tiles_def mset_pages_of_Suc ac_simps)
  next
    case high
    let ?q = "p - 2 ^ k"
    have "even (?q div 2 ^ k)"
      using high by (simp add: div_pred_block)
    then have "aligned (?q, Suc k)"
      using al assms(2) dvd_Suc_of_even [of k ?q] by (simp add: aligned_def)
    moreover have "mset_set (pages_of (?q, Suc k)) = mset_set (pages_of (?q, k)) + mset_set (pages_of (p, k))"
      using high by (simp add: mset_pages_of_Suc)
    ultimately show ?thesis using high assms(1) by (simp add: tiles_def ac_simps)
  qed
qed

lemma tiles_extend:
  assumes "tiles n M" and "aligned (n, k)"
  shows "tiles (n + 2 ^ k) (add_mset (n, k) M)"
proof -
  have "{..<n + 2 ^ k} = pages_of (n, k) \<union> {..<n}" by (auto simp: pages_of_def)
  moreover have "mset_set (pages_of (n, k) \<union> {..<n}) = mset_set (pages_of (n, k)) + mset_set {..<n}"
    by (rule mset_set_Union) (auto simp: pages_of_def)
  ultimately show ?thesis using assms by (simp add: tiles_def)
qed

section \<open>Coalesced tilings\<close>

lemma mem_pages_of_iff: "2 ^ k dvd p \<Longrightarrow> x \<in> pages_of (p, k) \<longleftrightarrow> x div 2 ^ k = p div 2 ^ k"
proof
  assume "2 ^ k dvd p" and "x \<in> pages_of (p, k)"
  then have "p div 2 ^ k * 2 ^ k = p" "p \<le> x" "x < p + 2 ^ k" by (simp_all add: pages_of_def)
  then show "x div 2 ^ k = p div 2 ^ k" by (intro div_nat_eqI) (simp_all add: mult.commute)
next
  assume "2 ^ k dvd p" and eq: "x div 2 ^ k = p div 2 ^ k"
  then have p: "p div 2 ^ k * 2 ^ k = p" by simp
  have "x = p div 2 ^ k * 2 ^ k + x mod 2 ^ k" by (simp add: div_mult_mod_eq flip: eq)
  then have "x = p + x mod 2 ^ k" using p by simp
  moreover have "x mod 2 ^ k < 2 ^ k" by simp
  ultimately have "p \<le> x \<and> x < p + 2 ^ k" by linarith
  then show "x \<in> pages_of (p, k)" by (simp add: pages_of_def)
qed

lemma pages_of_nested:
  assumes "2 ^ j dvd p" and "2 ^ m dvd q" and "j \<le> m"
    and "x \<in> pages_of (p, j)" and "x \<in> pages_of (q, m)"
  shows "pages_of (p, j) \<subseteq> pages_of (q, m)"
proof
  fix y assume y: "y \<in> pages_of (p, j)"
  have split: "z div 2 ^ m = z div 2 ^ j div 2 ^ (m - j)" for z :: nat
    using assms(3) by (simp flip: div_mult2_eq power_add)
  have "y div 2 ^ j = x div 2 ^ j" using y assms(1,4) by (simp add: mem_pages_of_iff)
  then have "y div 2 ^ m = x div 2 ^ m" by (simp add: split)
  also have "\<dots> = q div 2 ^ m" using assms(2,5) by (simp add: mem_pages_of_iff)
  finally show "y \<in> pages_of (q, m)" using assms(2) by (simp add: mem_pages_of_iff)
qed

lemma pages_of_subset_order: "pages_of (p, j) \<subseteq> pages_of (q, m) \<Longrightarrow> j \<le> m"
  using card_mono [of "pages_of (q, m)" "pages_of (p, j)"] by simp

lemma pages_of_inject: "pages_of b1 = pages_of b2 \<Longrightarrow> b1 = b2"
proof -
  assume eq: "pages_of b1 = pages_of b2"
  have "snd b1 = snd b2" using arg_cong [OF eq, of card] by simp
  moreover have "fst b1 \<in> pages_of b2" "fst b2 \<in> pages_of b1" using eq by (auto simp: pages_of_def)
  ultimately show "b1 = b2" by (auto simp: pages_of_def prod_eq_iff)
qed

text \<open>
  An aligned region that no other block \<open>L\<close> touches lies inside a single coalesced block.
\<close>

lemma coalesced_region:
  assumes "tiles n (M + L)" and "coalesced M"
  shows "2 ^ j dvd p \<Longrightarrow> p + 2 ^ j \<le> n \<Longrightarrow> j \<le> MAX_ORDER \<Longrightarrow> \<forall>b\<in>#L. pages_of b \<inter> pages_of (p, j) = {}
    \<Longrightarrow> \<exists>blk\<in>#M. pages_of (p, j) \<subseteq> pages_of blk"
proof (induction j arbitrary: p)
  case 0
  then obtain b where "b \<in># M + L" "p \<in> pages_of b" using tiles_covers [OF assms(1), of p] by auto
  moreover have "b \<notin># L" using 0(4) \<open>p \<in> pages_of b\<close> first_in_pages_of by blast
  ultimately show ?case by (auto simp: pages_of_def)
next
  case (Suc j)
  have al: "2 ^ j dvd p" "2 ^ j dvd p + 2 ^ j" using Suc.prems(1) by (auto intro: dvd_trans [of "2 ^ j" "2 ^ Suc j"])
  have free: "\<forall>b\<in>#L. pages_of b \<inter> pages_of (p, j) = {}" "\<forall>b\<in>#L. pages_of b \<inter> pages_of (p + 2 ^ j, j) = {}"
    using Suc.prems(4) unfolding pages_of_Suc by blast+
  obtain q m where b1: "(q, m) \<in># M" "pages_of (p, j) \<subseteq> pages_of (q, m)"
    using Suc.IH [of p] Suc.prems al free by auto
  obtain q' m' where b2: "(q', m') \<in># M" "pages_of (p + 2 ^ j, j) \<subseteq> pages_of (q', m')"
    using Suc.IH [of "p + 2 ^ j"] Suc.prems al free by (auto simp: add.assoc)
  have dv: "2 ^ m dvd q" "2 ^ m' dvd q'" using b1 b2 tiles_aligned [OF assms(1)] by (auto simp: aligned_def)
  have in1: "p \<in> pages_of (q, m)" "p \<in> pages_of (p, Suc j)" using b1(2) first_in_pages_of by blast+
  have in2: "p + 2 ^ j \<in> pages_of (q', m')" using b2(2) first_in_pages_of by blast
  have in2': "p + 2 ^ j \<in> pages_of (p, Suc j)" by (simp add: pages_of_def)
  consider "Suc j \<le> m" | "Suc j \<le> m'" | "m = j" "m' = j"
    using pages_of_subset_order [OF b1(2)] pages_of_subset_order [OF b2(2)] by linarith
  then show ?case
  proof cases
    case 1
    then show ?thesis using pages_of_nested [OF Suc.prems(1) dv(1) _ in1(2,1)] b1(1) by blast
  next
    case 2
    then show ?thesis using pages_of_nested [OF Suc.prems(1) dv(2) _ in2' in2] b2(1) by blast
  next
    case 3
    then have "pages_of (p, j) = pages_of (q, m)" "pages_of (p + 2 ^ j, j) = pages_of (q', m')"
      using b1(2) b2(2) by (simp_all add: card_subset_eq)
    then have M: "(p, j) \<in># M" "(p + 2 ^ j, j) \<in># M" using b1(1) b2(1) by (auto dest: pages_of_inject)
    have "buddy p j = p + 2 ^ j" using Suc.prems(1) by (auto intro!: buddy_even)
    then have "(p + 2 ^ j, j) \<notin># M" using M(1) assms(2) Suc.prems(3) unfolding coalesced_def by (metis Suc_le_lessD)
    then show ?thesis using M(2) by simp
  qed
qed

lemma coalesced_tiling_subset:
  assumes "tiles n M" "coalesced M" "tiles n N" "coalesced N" and "blk \<in># M"
  shows "blk \<in># N"
proof -
  have reg: "\<exists>b'\<in>#P. pages_of b \<subseteq> pages_of b'"
    if "tiles n P" "coalesced P" "tiles n Q" "b \<in># Q" for P Q b
    using coalesced_region [of n P "{#}" "snd b" "fst b"] tiles_aligned [OF that(3,4)]
      tiles_bound [OF that(3), of "fst b" "snd b"] that by (simp add: aligned_def)
  obtain b1 where b1: "b1 \<in># N" "pages_of blk \<subseteq> pages_of b1" using reg [OF assms(3,4,1,5)] by blast
  obtain b2 where b2: "b2 \<in># M" "pages_of b1 \<subseteq> pages_of b2" using reg [OF assms(1,2,3) b1(1)] by blast
  have "fst blk \<in> pages_of blk" by (simp add: pages_of_def)
  then have "b2 = blk" using tiles_overlap_eq [OF assms(1) b2(1) assms(5)] b1 b2 by blast
  then have "pages_of blk = pages_of b1" using b1(2) b2(2) by blast
  then show ?thesis using b1(1) pages_of_inject by blast
qed

lemma coalesced_tiling_unique:
  assumes "tiles n M" "coalesced M" "tiles n N" "coalesced N"
  shows "M = N"
proof (rule multiset_eqI)
  fix blk
  have "blk \<in># M \<longleftrightarrow> blk \<in># N" using coalesced_tiling_subset assms by blast
  moreover have "count M blk \<le> 1" "count N blk \<le> 1" using assms tiles_count by blast+
  ultimately show "count M blk = count N blk"
    by (metis count_greater_zero_iff le_antisym less_one not_gr_zero linorder_not_le)
qed

lemma coalesced_empty [simp]: "coalesced {#}"
  by (simp add: coalesced_def)

lemma coalesced_mono: "coalesced (add_mset b M) \<Longrightarrow> coalesced M"
  by (auto simp: coalesced_def)

lemma buddy_neq: "buddy p k \<noteq> p"
proof (cases rule: min_buddy_cases [of p k])
  case high
  then show ?thesis by (metis diff_less less_le_trans nat_less_le zero_less_numeral zero_less_power)
qed simp

lemma coalesced_add:
  assumes "coalesced M" and "k < MAX_ORDER \<Longrightarrow> (buddy p k, k) \<notin># M"
  shows "coalesced (add_mset (p, k) M)"
  unfolding coalesced_def
proof (intro allI impI)
  fix q j assume q: "(q, j) \<in># add_mset (p, k) M" "j < MAX_ORDER"
  show "(buddy q j, j) \<notin># add_mset (p, k) M"
  proof (cases "(q, j) = (p, k)")
    case True
    then show ?thesis using assms(2) q(2) buddy_neq by auto
  next
    case False
    then have "(q, j) \<in># M" using q(1) by auto
    moreover have "(buddy q j, j) \<noteq> (p, k)" using assms(2) q(2) \<open>(q, j) \<in># M\<close> buddy_involutive by auto
    ultimately show ?thesis using assms(1) q(2) by (auto simp: coalesced_def)
  qed
qed

section \<open>Seeding\<close>

text \<open>
  The seeding loop of the allocator takes, at page \<open>p\<close> with \<open>r\<close> pages to go, the largest
  order that fits. \<open>seedable\<close> is why that block is aligned, so that the loop's second bound,
  by the alignment of \<open>p\<close>, never binds.
\<close>

definition seedable :: "nat \<Rightarrow> nat \<Rightarrow> bool" where
  "seedable p r \<longleftrightarrow> (\<exists>t\<le>MAX_ORDER. 2 ^ t dvd p \<and> (t = MAX_ORDER \<or> r < 2 ^ t))"

definition seed_order :: "nat \<Rightarrow> nat" where
  "seed_order r = min (ilog2 r) MAX_ORDER"

lemma seedable_start [simp]: "seedable 0 r"
  by (auto simp: seedable_def)

lemma seed_order_le: "0 < r \<Longrightarrow> 2 ^ seed_order r \<le> r"
  by (rule order_trans [OF power_increasing [of "seed_order r" "ilog2 r"] ilog2_lower])
    (simp_all add: seed_order_def)

lemma seed_order_fits:
  assumes "seedable p r" and "0 < r"
  shows "2 ^ seed_order r dvd p"
    and "seed_order r < MAX_ORDER \<Longrightarrow> 2 ^ Suc (seed_order r) dvd p"
proof -
  obtain t where t: "2 ^ t dvd p" "t \<le> MAX_ORDER" "t = MAX_ORDER \<or> r < 2 ^ t" using assms(1) by (auto simp: seedable_def)
  have lt: "seed_order r < t" if "r < 2 ^ t"
    using le_less_trans [OF seed_order_le [OF assms(2)] that] by simp
  have "seed_order r \<le> MAX_ORDER" by (simp add: seed_order_def)
  then have "seed_order r \<le> t" using lt t(3) by auto
  then show "2 ^ seed_order r dvd p" using t(1) by (rule power_le_dvd [rotated])
  assume "seed_order r < MAX_ORDER"
  then have "Suc (seed_order r) \<le> t" using lt t(3) by auto
  then show "2 ^ Suc (seed_order r) dvd p" using t(1) by (rule power_le_dvd [rotated])
qed

lemma seed_order_trailing:
  "seedable p r \<Longrightarrow> 0 < r \<Longrightarrow> 0 < p \<Longrightarrow> seed_order r \<le> trailing_zeros p"
  by (intro trailing_zeros_greatest seed_order_fits(1))

lemma seedable_step:
  assumes "seedable p r" and "0 < r"
  shows "seedable (p + 2 ^ seed_order r) (r - 2 ^ seed_order r)"
proof (cases "seed_order r = MAX_ORDER")
  case True
  then show ?thesis using seed_order_fits(1) [OF assms] by (auto simp: seedable_def)
next
  case False
  then have "seed_order r = ilog2 r" "seed_order r \<le> MAX_ORDER" by (simp_all add: seed_order_def min_def split: if_splits)
  then have "r - 2 ^ seed_order r < 2 ^ seed_order r" using ilog2_upper [of r] by simp
  then show ?thesis using seed_order_fits(1) [OF assms] \<open>seed_order r \<le> MAX_ORDER\<close> by (auto simp: seedable_def)
qed

lemma seed_step_tiles:
  assumes "tiles p M" and "coalesced M" and "seedable p r" and "0 < r"
  shows "tiles (p + 2 ^ seed_order r) (add_mset (p, seed_order r) M)"
    and "coalesced (add_mset (p, seed_order r) M)"
proof -
  let ?k = "seed_order r"
  have "aligned (p, ?k)" using seed_order_fits(1) [OF assms(3,4)] by (simp add: aligned_def seed_order_def)
  then show "tiles (p + 2 ^ ?k) (add_mset (p, ?k) M)" using assms(1) by (rule tiles_extend [rotated])
  show "coalesced (add_mset (p, ?k) M)"
  proof (rule coalesced_add [OF assms(2)])
    assume "?k < MAX_ORDER"
    then have "2 ^ Suc ?k dvd p" by (rule seed_order_fits(2) [OF assms(3,4)])
    then have "buddy p ?k = p + 2 ^ ?k" by (auto intro!: buddy_even)
    then show "(buddy p ?k, ?k) \<notin># M" using tiles_bound [OF assms(1), of "p + 2 ^ ?k" ?k] by auto
  qed
qed

end
