(* ===== verification/Phys_Alloc.thy ===== *)
theory Phys_Alloc
  imports Dyadic BTree_Map
begin

text \<open>
  The physical page allocator of \<open>memory.rs\<close>: a buddy allocator over \<open>total_pages\<close> pages
  from address \<open>base\<close>, with one free list per order and a map from the address of each
  live block to its order. Addresses are 64-bit words, the loops that seed, split and coalesce are
  recursive functions with termination proofs, and every operation returns the new state beside its result,
  so that what an error path leaves behind is visible.

  The invariant relates the words to the page numbers of \<open>Dyadic\<close>: free and live blocks
  together tile the arena, and the free blocks are coalesced.
\<close>

section \<open>The code\<close>

type_synonym phys_addr = u64
type_synonym virt_addr = u64

definition PAGE_SIZE :: u64 where
  "PAGE_SIZE = 0x1000"

datatype memory_error =
  OutOfMemory | InvalidOrder | RegionNotFound | CapabilityDenied | DoubleFree | Unmapped
  | AccessViolation

text \<open>
  An order is a \<open>u32\<close> that only indexes the free lists and is compared with \<open>MAX_ORDER\<close>;
  it is a natural number here. \<open>Vec::push\<close> appends and \<open>Vec::pop\<close> takes the last element.
\<close>

record physical_allocator =
  pa_base :: phys_addr
  pa_total_pages :: u64
  pa_free_lists :: "phys_addr list list"
  pa_live_blocks :: "(phys_addr, nat) btree_map"

definition push_block :: "nat \<Rightarrow> phys_addr \<Rightarrow> phys_addr list list \<Rightarrow> phys_addr list list" where
  "push_block k a fls = fls[k := fls ! k @ [a]]"

definition pop_block :: "nat \<Rightarrow> phys_addr list list \<Rightarrow> phys_addr list list" where
  "pop_block k fls = fls[k := butlast (fls ! k)]"

definition pages_in :: "nat \<Rightarrow> u64" where
  "pages_in k = push_bit k 1"

lemma unat_pages_in: "k \<le> 63 \<Longrightarrow> unat (pages_in k) = 2 ^ k"
  by (simp add: pages_in_def push_bit_eq_mult unat_power2_u64)

function (sequential) seed_loop ::
    "phys_addr \<Rightarrow> phys_addr \<Rightarrow> u64 \<Rightarrow> phys_addr list list \<Rightarrow> phys_addr list list" where
  "seed_loop base addr remaining fls =
     (if remaining = 0 then fls
      else
        let order = min (ilog2 (unat remaining)) MAX_ORDER;
            page_index = (addr - base) div PAGE_SIZE;
            order = (if page_index \<noteq> 0 then min order (trailing_zeros (unat page_index)) else order);
            block_pages = pages_in order
        in seed_loop base (addr + block_pages * PAGE_SIZE) (remaining - block_pages)
             (push_block order addr fls))"
  by pat_completeness auto

lemma block_pages_bounds:
  assumes "remaining \<noteq> 0" and "k \<le> ilog2 (unat remaining)" and "k \<le> MAX_ORDER"
  shows "unat (pages_in k) \<le> unat remaining" and "0 < unat (pages_in k)"
proof -
  have "0 < unat remaining" using assms(1) by (simp add: unat_gt_0)
  then have "2 ^ k \<le> unat remaining"
    using power_increasing [OF assms(2), of "2::nat"] ilog2_lower [of "unat remaining"] by linarith
  then show "unat (pages_in k) \<le> unat remaining" and "0 < unat (pages_in k)"
    using assms(3) by (simp_all add: unat_pages_in MAX_ORDER_def)
qed

termination seed_loop
proof (relation "measure (\<lambda>(base, addr, remaining, fls). unat remaining)")
  fix base addr :: phys_addr and remaining order0 page_index order block_pages :: u64
    and k0 k :: nat and fls :: "phys_addr list list"
  assume nz: "remaining \<noteq> 0" and k0: "k0 = min (ilog2 (unat remaining)) MAX_ORDER"
    and k: "k = (if page_index \<noteq> 0 then min k0 (trailing_zeros (unat page_index)) else k0)"
    and b: "block_pages = pages_in k"
  have "k \<le> ilog2 (unat remaining)" "k \<le> MAX_ORDER" using k0 k by (auto split: if_splits)
  from block_pages_bounds [OF nz this]
  have "unat (remaining - block_pages) < unat remaining" using b by (simp add: unat_sub word_le_nat_alt)
  then show "((base, addr + block_pages * PAGE_SIZE, remaining - block_pages, push_block k addr fls),
         base, addr, remaining, fls) \<in> measure (\<lambda>(base, addr, remaining, fls). unat remaining)"
    by simp
qed simp

declare seed_loop.simps [simp del]

definition seed_free_lists :: "physical_allocator \<Rightarrow> physical_allocator" where
  "seed_free_lists s =
     s\<lparr>pa_free_lists := seed_loop (pa_base s) (pa_base s) (pa_total_pages s) (pa_free_lists s)\<rparr>"

definition new_allocator :: "phys_addr \<Rightarrow> u64 \<Rightarrow> physical_allocator" where
  "new_allocator base total_pages =
     seed_free_lists \<lparr>pa_base = base, pa_total_pages = total_pages,
       pa_free_lists = replicate (MAX_ORDER + 1) [], pa_live_blocks = bt_empty\<rparr>"

definition buddy_of :: "phys_addr \<Rightarrow> phys_addr \<Rightarrow> nat \<Rightarrow> phys_addr" where
  "buddy_of base addr order =
     (let block_bytes = pages_in order * PAGE_SIZE; offset = addr - base
      in base + (offset XOR block_bytes))"

function find_source :: "phys_addr list list \<Rightarrow> nat \<Rightarrow> nat" where
  "find_source fls source_order =
     (if source_order \<le> MAX_ORDER \<and> fls ! source_order = []
      then find_source fls (source_order + 1) else source_order)"
  by pat_completeness auto
termination by (relation "measure (\<lambda>(fls, k). Suc MAX_ORDER - k)") auto

fun split_down ::
    "nat \<Rightarrow> nat \<Rightarrow> phys_addr list list \<Rightarrow> phys_addr list list \<times> (memory_error, unit) result" where
  "split_down order cur fls =
     (if cur \<le> order then (fls, Ok ())
      else if fls ! cur = [] then (fls, Err OutOfMemory)
      else
        let block = last (fls ! cur); half = cur - 1; block_bytes = pages_in half * PAGE_SIZE
        in split_down order half
             (push_block half (block + block_bytes) (push_block half block (pop_block cur fls))))"

declare find_source.simps [simp del] split_down.simps [simp del]

definition ensure_free_block ::
    "nat \<Rightarrow> physical_allocator \<Rightarrow> physical_allocator \<times> (memory_error, unit) result" where
  "ensure_free_block order s =
     (if length (pa_free_lists s) \<le> order then (s, Err InvalidOrder)
      else if pa_free_lists s ! order \<noteq> [] then (s, Ok ())
      else
        let source_order = find_source (pa_free_lists s) (order + 1)
        in if MAX_ORDER < source_order then (s, Err OutOfMemory)
           else case split_down order source_order (pa_free_lists s) of
             (fls, r) \<Rightarrow> (s\<lparr>pa_free_lists := fls\<rparr>, r))"

definition allocate ::
    "nat \<Rightarrow> physical_allocator \<Rightarrow> physical_allocator \<times> (memory_error, phys_addr) result" where
  "allocate order s =
     (case ensure_free_block order s of
        (s1, Inl e) \<Rightarrow> (s1, Err e)
      | (s1, Inr _) \<Rightarrow>
          if pa_free_lists s1 ! order = [] then (s1, Err OutOfMemory)
          else
            let addr = last (pa_free_lists s1 ! order)
            in (s1\<lparr>pa_free_lists := pop_block order (pa_free_lists s1),
                  pa_live_blocks := bt_insert addr order (pa_live_blocks s1)\<rparr>, Ok addr))"

function coalesce_loop ::
    "phys_addr \<Rightarrow> phys_addr \<Rightarrow> nat \<Rightarrow> phys_addr list list \<Rightarrow> phys_addr list list \<times> phys_addr \<times> nat" where
  "coalesce_loop base block order fls =
     (if order < MAX_ORDER then
        let buddy = buddy_of base block order
        in if buddy \<in> set (fls ! order)
           then coalesce_loop base (min block buddy) (order + 1) (fls[order := remove1 buddy (fls ! order)])
           else (fls, block, order)
      else (fls, block, order))"
  by pat_completeness auto
termination by (relation "measure (\<lambda>(base, block, order, fls). MAX_ORDER - order)") auto

declare coalesce_loop.simps [simp del]

definition deallocate ::
    "phys_addr \<Rightarrow> physical_allocator \<Rightarrow> physical_allocator \<times> (memory_error, unit) result" where
  "deallocate addr s =
     (case bt_get (pa_live_blocks s) addr of
        None \<Rightarrow> (s, Err DoubleFree)
      | Some order \<Rightarrow>
          (case coalesce_loop (pa_base s) addr order (pa_free_lists s) of
             (fls, block, k) \<Rightarrow>
               (s\<lparr>pa_live_blocks := bt_remove addr (pa_live_blocks s),
                  pa_free_lists := push_block k block fls\<rparr>, Ok ())))"

definition free_page_count :: "physical_allocator \<Rightarrow> u64" where
  "free_page_count s =
     sum_list (map (\<lambda>(order, l). of_nat (length l) * pages_in order) (enumerate 0 (pa_free_lists s)))"

text \<open>A client of the allocator is a sequence of calls.\<close>

datatype alloc_op = Allocate nat | Deallocate phys_addr

fun alloc_step :: "alloc_op \<Rightarrow> physical_allocator \<Rightarrow> physical_allocator" where
  "alloc_step (Allocate k) s = fst (allocate k s)"
| "alloc_step (Deallocate a) s = fst (deallocate a s)"

fun alloc_run :: "alloc_op list \<Rightarrow> physical_allocator \<Rightarrow> physical_allocator" where
  "alloc_run [] s = s"
| "alloc_run (x # xs) s = alloc_run xs (alloc_step x s)"

section \<open>Pages and addresses\<close>

definition page_no :: "phys_addr \<Rightarrow> phys_addr \<Rightarrow> nat" where
  "page_no base a = unat (a - base) div 4096"

definition on_page :: "phys_addr \<Rightarrow> phys_addr \<Rightarrow> bool" where
  "on_page base a \<longleftrightarrow> 4096 dvd unat (a - base)"

definition page_addr :: "phys_addr \<Rightarrow> nat \<Rightarrow> phys_addr" where
  "page_addr base p = base + of_nat (p * 4096)"

lemma unat_PAGE_SIZE [simp]: "unat PAGE_SIZE = 4096"
  by (simp add: PAGE_SIZE_def)

lemma page_no_bound: "page_no base a < 2 ^ 52"
  using unat_u64_less [of "a - base"] by (simp add: page_no_def less_mult_imp_div_less)

lemma page_addr_page_no: "on_page base a \<Longrightarrow> page_addr base (page_no base a) = a"
  by (simp add: page_addr_def page_no_def on_page_def)

lemma unat_page_offset: "p < 2 ^ 52 \<Longrightarrow> unat (page_addr base p - base) = p * 4096"
  using unat_of_nat_u64 [of "p * 4096"] by (simp add: page_addr_def)

lemma page_no_page_addr [simp]: "p < 2 ^ 52 \<Longrightarrow> page_no base (page_addr base p) = p"
  by (simp add: page_no_def unat_page_offset)

lemma on_page_page_addr [simp]: "p < 2 ^ 52 \<Longrightarrow> on_page base (page_addr base p)"
  by (simp add: on_page_def unat_page_offset)

lemma page_no_inject: "on_page base a \<Longrightarrow> on_page base b \<Longrightarrow> page_no base a = page_no base b \<Longrightarrow> a = b"
  by (metis page_addr_page_no)

lemma page_addr_add: "page_addr base p + pages_in k * PAGE_SIZE = page_addr base (p + 2 ^ k)"
  by (simp add: page_addr_def pages_in_def PAGE_SIZE_def push_bit_eq_mult algebra_simps)

lemma nat_flip_bit: "m XOR 2 ^ j = (if odd (m div 2 ^ j) then m - 2 ^ j else m + (2::nat) ^ j)"
proof -
  have "m XOR 2 ^ j = flip_bit j m" by (simp add: flip_bit_eq_xor push_bit_eq_mult)
  moreover have "unset_bit j m = m - 2 ^ j" if "bit m j"
  proof -
    have "set_bit j (unset_bit j m) = m" using that by (intro bit_eqI) (auto simp: bit_simps)
    moreover have "set_bit j (unset_bit j m) = unset_bit j m + 2 ^ j" by (simp add: set_bit_eq bit_simps)
    ultimately show ?thesis by simp
  qed
  ultimately show ?thesis
    by (simp add: flip_bit_eq_if set_bit_eq bit_iff_odd)
qed

lemma buddy_scaled: "p * 4096 XOR 2 ^ (12 + k) = buddy p k * 4096"
proof -
  have "p * 4096 div 2 ^ (12 + k) = p div 2 ^ k" by (simp add: power_add div_mult2_eq)
  then have "p * 4096 XOR 2 ^ (12 + k) =
      (if odd (p div 2 ^ k) then p * 4096 - 2 ^ (12 + k) else p * 4096 + 2 ^ (12 + k))"
    by (simp only: nat_flip_bit)
  then show ?thesis by (simp add: buddy_def power_add algebra_simps split del: if_split cong: if_cong) auto
qed

lemma buddy_of_page_addr:
  assumes "p < 2 ^ 52" and "k \<le> MAX_ORDER"
  shows "buddy_of base (page_addr base p) k = page_addr base (buddy p k)" and "buddy p k < 2 ^ 52"
proof -
  define off :: u64 where "off = of_nat (p * 4096)"
  have off: "unat off = p * 4096" using assms(1) unat_of_nat_u64 [of "p * 4096"] by (simp add: off_def)
  have bytes: "pages_in k * PAGE_SIZE = 2 ^ (12 + k)"
    by (simp add: pages_in_def PAGE_SIZE_def push_bit_eq_mult power_add)
  have "unat (off XOR 2 ^ (12 + k)) = p * 4096 XOR 2 ^ (12 + k)"
    using assms(2) by (simp only: unsigned_xor_eq off unat_power2_u64 MAX_ORDER_def)
  then have x: "unat (off XOR 2 ^ (12 + k)) = buddy p k * 4096" by (simp only: buddy_scaled)
  then show "buddy p k < 2 ^ 52" using unat_u64_less [of "off XOR 2 ^ (12 + k)"] by simp
  have "off XOR 2 ^ (12 + k) = of_nat (unat (off XOR 2 ^ (12 + k)))" by simp
  then have "off XOR 2 ^ (12 + k) = of_nat (buddy p k * 4096)" by (simp only: x)
  then show "buddy_of base (page_addr base p) k = page_addr base (buddy p k)"
    by (simp add: buddy_of_def bytes page_addr_def off_def)
qed

section \<open>The invariant\<close>

definition blocks_at :: "phys_addr \<Rightarrow> nat \<Rightarrow> phys_addr list \<Rightarrow> block multiset" where
  "blocks_at base k l = image_mset (\<lambda>a. (page_no base a, k)) (mset l)"

definition free_blocks :: "phys_addr \<Rightarrow> phys_addr list list \<Rightarrow> block multiset" where
  "free_blocks base fls = (\<Sum>k<length fls. blocks_at base k (fls ! k))"

definition live_mset :: "phys_addr \<Rightarrow> (phys_addr, nat) btree_map \<Rightarrow> block multiset" where
  "live_mset base m = image_mset (\<lambda>(a, k). (page_no base a, k)) (mset (entries m))"

text \<open>The arena \<open>base\<close>, \<open>n\<close> pages, tiled by the free lists and the other blocks \<open>L\<close>.\<close>

definition arena :: "phys_addr \<Rightarrow> nat \<Rightarrow> phys_addr list list \<Rightarrow> block multiset \<Rightarrow> bool" where
  "arena base n fls L \<longleftrightarrow>
     length fls = Suc MAX_ORDER \<and> unat base + n * 4096 \<le> 2 ^ 64
     \<and> (\<forall>k<length fls. \<forall>a\<in>set (fls ! k). on_page base a)
     \<and> tiles n (free_blocks base fls + L)"

definition phys_inv :: "physical_allocator \<Rightarrow> bool" where
  "phys_inv s \<longleftrightarrow>
     arena (pa_base s) (unat (pa_total_pages s)) (pa_free_lists s) (live_mset (pa_base s) (pa_live_blocks s))
     \<and> (\<forall>a\<in>set (bt_keys (pa_live_blocks s)). on_page (pa_base s) a)
     \<and> coalesced (free_blocks (pa_base s) (pa_free_lists s))"

lemma blocks_at_simps [simp]:
  "blocks_at base k [] = {#}"
  "blocks_at base k (l @ [a]) = add_mset (page_no base a, k) (blocks_at base k l)"
  by (simp_all add: blocks_at_def)

lemma in_blocks_at: "(p, j) \<in># blocks_at base k l \<longleftrightarrow> j = k \<and> (\<exists>a\<in>set l. p = page_no base a)"
  by (auto simp: blocks_at_def)

lemma in_free_blocks:
  "(p, k) \<in># free_blocks base fls \<longleftrightarrow> k < length fls \<and> (\<exists>a\<in>set (fls ! k). p = page_no base a)"
  by (auto simp: free_blocks_def set_mset_sum in_blocks_at)

lemma free_blocks_update:
  assumes "k < length fls"
  shows "free_blocks base (fls[k := l]) + blocks_at base k (fls ! k) = free_blocks base fls + blocks_at base k l"
proof -
  let ?S = "\<lambda>fls. \<Sum>j\<in>{..<length fls} - {k}. blocks_at base j (fls ! j)"
  have "free_blocks base fls = blocks_at base k (fls ! k) + ?S fls"
    using assms by (simp add: free_blocks_def sum.remove)
  moreover have "free_blocks base (fls[k := l]) = blocks_at base k l + ?S fls"
    using assms by (simp add: free_blocks_def sum.remove [of "{..<length fls}" k])
  ultimately show ?thesis by (simp add: ac_simps)
qed

lemma length_push_pop [simp]:
  "length (push_block k a fls) = length fls"
  "length (pop_block k fls) = length fls"
  by (simp_all add: push_block_def pop_block_def)

lemma nth_push_pop [simp]:
  "k < length fls \<Longrightarrow> push_block k a fls ! j = (if j = k then fls ! k @ [a] else fls ! j)"
  "k < length fls \<Longrightarrow> pop_block k fls ! j = (if j = k then butlast (fls ! k) else fls ! j)"
  by (simp_all add: push_block_def pop_block_def nth_list_update)

lemma pop_push [simp]: "k < length fls \<Longrightarrow> pop_block k (push_block k a fls) = fls"
  by (simp add: pop_block_def push_block_def)

lemma free_blocks_push [simp]:
  "k < length fls \<Longrightarrow> free_blocks base (push_block k a fls) = add_mset (page_no base a, k) (free_blocks base fls)"
  using free_blocks_update [of k fls base "fls ! k @ [a]"] by (simp add: push_block_def)

lemma free_blocks_pop:
  assumes "k < length fls" and "fls ! k \<noteq> []"
  shows "free_blocks base fls = add_mset (page_no base (last (fls ! k)), k) (free_blocks base (pop_block k fls))"
proof -
  have "fls ! k = butlast (fls ! k) @ [last (fls ! k)]" using assms(2) by simp
  then have "blocks_at base k (fls ! k)
      = add_mset (page_no base (last (fls ! k)), k) (blocks_at base k (butlast (fls ! k)))"
    by (metis blocks_at_simps(2))
  then show ?thesis
    using free_blocks_update [OF assms(1), of base "butlast (fls ! k)"] by (simp add: pop_block_def)
qed

lemma free_blocks_remove1:
  assumes "k < length fls" and "a \<in> set (fls ! k)"
  shows "free_blocks base fls = add_mset (page_no base a, k) (free_blocks base (fls[k := remove1 a (fls ! k)]))"
proof -
  have "mset (fls ! k) = add_mset a (mset (remove1 a (fls ! k)))" using assms(2) by simp
  then have "blocks_at base k (fls ! k) = add_mset (page_no base a, k) (blocks_at base k (remove1 a (fls ! k)))"
    unfolding blocks_at_def by (metis image_mset_add_mset)
  then show ?thesis
    using free_blocks_update [OF assms(1), of base "remove1 a (fls ! k)"] by simp
qed

section \<open>Splitting\<close>

lemma arena_length: "arena base n fls L \<Longrightarrow> length fls = Suc MAX_ORDER"
  by (simp add: arena_def)

lemma arena_on_page: "arena base n fls L \<Longrightarrow> k < Suc MAX_ORDER \<Longrightarrow> a \<in> set (fls ! k) \<Longrightarrow> on_page base a"
  by (simp add: arena_def)

lemma arena_pages_bound: "arena base n fls L \<Longrightarrow> n \<le> 2 ^ 52"
  by (simp add: arena_def)

lemma arena_tiles: "arena base n fls L \<Longrightarrow> tiles n (free_blocks base fls + L)"
  by (simp add: arena_def)

lemma arena_block:
  assumes "arena base n fls L" and "(p, k) \<in># free_blocks base fls + L"
  shows "p + 2 ^ k \<le> n" and "2 ^ k dvd p" and "k \<le> MAX_ORDER" and "p < 2 ^ 52"
proof -
  have t: "tiles n (free_blocks base fls + L)" by (rule arena_tiles [OF assms(1)])
  show b: "p + 2 ^ k \<le> n" by (rule tiles_bound [OF t assms(2)])
  show "2 ^ k dvd p" "k \<le> MAX_ORDER" using tiles_aligned [OF t assms(2)] by (simp_all add: aligned_def)
  have "0 < (2::nat) ^ k" by simp
  then show "p < 2 ^ 52" using b arena_pages_bound [OF assms(1)] by linarith
qed

lemma unat_page_addr:
  assumes "unat base + n * 4096 \<le> 2 ^ 64" and "p < n"
  shows "unat (page_addr base p) = unat base + p * 4096"
proof -
  have small: "unat base + p * 4096 < 2 ^ 64" using assms by linarith
  have "page_addr base p = of_nat (unat base + p * 4096)" by (simp add: page_addr_def)
  then show ?thesis using unat_of_nat_u64 [OF small] by simp
qed

lemma arena_push:
  assumes "arena base n fls (add_mset (page_no base a, k) L)" and "on_page base a"
  shows "arena base n (push_block k a fls) L"
proof -
  have k: "k < length fls"
    using arena_block(3) [OF assms(1), of "page_no base a" k] arena_length [OF assms(1)] by simp
  have "\<forall>j<length fls. \<forall>b\<in>set (push_block k a fls ! j). on_page base b"
    using assms k by (auto simp: arena_def)
  with assms(1) k show ?thesis by (simp add: arena_def)
qed

lemma arena_pop:
  assumes "arena base n fls L" and "k \<le> MAX_ORDER" and "fls ! k \<noteq> []"
  shows "arena base n (pop_block k fls) (add_mset (page_no base (last (fls ! k)), k) L)"
    and "on_page base (last (fls ! k))"
proof -
  have len: "length fls = Suc MAX_ORDER" by (rule arena_length [OF assms(1)])
  have k: "k < length fls" using len assms(2) by simp
  show "on_page base (last (fls ! k))" using arena_on_page [OF assms(1), of k] k len assms(3) by simp
  have "\<forall>j<length fls. \<forall>b\<in>set (pop_block k fls ! j). on_page base b"
    using assms(1) k by (auto simp: arena_def dest: in_set_butlastD)
  then show "arena base n (pop_block k fls) (add_mset (page_no base (last (fls ! k)), k) L)"
    using assms(1) free_blocks_pop [OF k assms(3), of base] by (simp add: arena_def)
qed

lemma arena_split:
  assumes "arena base n fls (add_mset (page_no base a, Suc k) L)" and "on_page base a"
  defines "b \<equiv> a + pages_in k * PAGE_SIZE"
  shows "arena base n (push_block k b (push_block k a fls)) L"
    and "page_no base b = page_no base a + 2 ^ k"
proof -
  let ?p = "page_no base a"
  note blk = arena_block [OF assms(1), of ?p "Suc k"]
  have "0 < (2::nat) ^ k" by simp
  moreover have "?p + 2 * 2 ^ k \<le> n" using blk(1) by simp
  ultimately have small: "?p + 2 ^ k < 2 ^ 52" using arena_pages_bound [OF assms(1)] by linarith
  have b: "b = page_addr base (?p + 2 ^ k)"
    unfolding b_def by (metis page_addr_add page_addr_page_no assms(2))
  show pb: "page_no base b = ?p + 2 ^ k" using b small by simp
  have "on_page base b" using b small by simp
  have "tiles n (add_mset (?p, k) (add_mset (?p + 2 ^ k, k) (free_blocks base fls + L)))"
    using tiles_split [of n ?p k "free_blocks base fls + L"] arena_tiles [OF assms(1)] by simp
  then have "arena base n fls (add_mset (?p, k) (add_mset (page_no base b, k) L))"
    using assms(1) pb by (simp add: arena_def add.commute)
  then show "arena base n (push_block k b (push_block k a fls)) L"
    using assms(2) \<open>on_page base b\<close> by (intro arena_push)
qed

text \<open>The splitting loop hands on a non-empty list whose other blocks are coalesced.\<close>

definition splittable :: "phys_addr \<Rightarrow> phys_addr list list \<Rightarrow> nat \<Rightarrow> nat \<Rightarrow> bool" where
  "splittable base fls order cur \<longleftrightarrow>
     fls ! cur \<noteq> [] \<and> coalesced (free_blocks base (pop_block cur fls))
     \<and> (\<forall>k. order \<le> k \<longrightarrow> k < cur \<longrightarrow> fls ! k = [])"

lemma split_down_ok:
  assumes "arena base n fls L" and "splittable base fls order cur" and "order \<le> cur" and "cur \<le> MAX_ORDER"
  shows "\<exists>fls'. split_down order cur fls = (fls', Ok ()) \<and> arena base n fls' L \<and> splittable base fls' order order"
  using assms
proof (induction cur arbitrary: fls)
  case 0
  moreover have "split_down order 0 fls = (fls, Ok ())" by (simp add: split_down.simps [of order 0])
  ultimately show ?case by simp
next
  case (Suc k)
  show ?case
  proof (cases "Suc k \<le> order")
    case True
    then have "split_down order (Suc k) fls = (fls, Ok ())" by (simp add: split_down.simps [of order "Suc k"])
    moreover have "order = Suc k" using True Suc.prems(3) by simp
    ultimately show ?thesis using Suc.prems by blast
  next
    case False
    define a where "a = last (fls ! Suc k)"
    define b where "b = a + pages_in k * PAGE_SIZE"
    define fls' where "fls' = push_block k b (push_block k a (pop_block (Suc k) fls))"
    have ne: "fls ! Suc k \<noteq> []" and em: "fls ! k = []" and co: "coalesced (free_blocks base (pop_block (Suc k) fls))"
      using Suc.prems(2) False by (auto simp: splittable_def)
    have len: "length fls = Suc MAX_ORDER" by (rule arena_length [OF Suc.prems(1)])
    have ar: "arena base n fls' L"
      using arena_split(1) arena_pop [OF Suc.prems(1,4) ne] by (simp add: fls'_def a_def b_def)
    have em': "pop_block (Suc k) fls ! k = []" using em len Suc.prems(4) by simp
    have pop': "pop_block k fls' = push_block k a (pop_block (Suc k) fls)"
      using len Suc.prems(4) by (simp add: fls'_def)
    have "coalesced (free_blocks base (pop_block k fls'))"
      using co len Suc.prems(4) em' by (auto simp: pop' in_free_blocks intro!: coalesced_add)
    then have "splittable base fls' order k"
      using Suc.prems(2,4) len by (auto simp: splittable_def fls'_def)
    then obtain fls2 where "split_down order k fls' = (fls2, Ok ())" "arena base n fls2 L" "splittable base fls2 order order"
      using Suc.IH [OF ar] False Suc.prems(4) by auto
    moreover have "split_down order (Suc k) fls = split_down order k fls'"
      using False ne by (simp add: split_down.simps [of order "Suc k"] fls'_def a_def b_def Let_def)
    ultimately show ?thesis by simp
  qed
qed

lemma find_source_spec:
  assumes "k \<le> Suc MAX_ORDER"
  shows "k \<le> find_source fls k" and "find_source fls k \<le> Suc MAX_ORDER"
    and "\<And>j. k \<le> j \<Longrightarrow> j < find_source fls k \<Longrightarrow> fls ! j = []"
    and "find_source fls k \<le> MAX_ORDER \<Longrightarrow> fls ! find_source fls k \<noteq> []"
proof -
  have "k \<le> find_source fls k \<and> find_source fls k \<le> Suc MAX_ORDER
      \<and> (\<forall>j. k \<le> j \<longrightarrow> j < find_source fls k \<longrightarrow> fls ! j = [])
      \<and> (find_source fls k \<le> MAX_ORDER \<longrightarrow> fls ! find_source fls k \<noteq> [])"
    using assms
  proof (induction fls k rule: find_source.induct)
    case (1 fls k)
    show ?case
    proof (cases "k \<le> MAX_ORDER \<and> fls ! k = []")
      case True
      with 1 have IH: "k + 1 \<le> find_source fls (k + 1)" "find_source fls (k + 1) \<le> Suc MAX_ORDER"
        "\<forall>j. k + 1 \<le> j \<longrightarrow> j < find_source fls (k + 1) \<longrightarrow> fls ! j = []"
        "find_source fls (k + 1) \<le> MAX_ORDER \<longrightarrow> fls ! find_source fls (k + 1) \<noteq> []"
        by auto
      have eq: "find_source fls k = find_source fls (k + 1)"
        using True by (simp add: find_source.simps [of fls k])
      have "\<forall>j. k \<le> j \<longrightarrow> j < find_source fls (k + 1) \<longrightarrow> fls ! j = []"
        using IH(3) True by (metis Suc_eq_plus1 le_antisym not_less_eq_eq)
      then show ?thesis unfolding eq using IH(1,2,4) by simp
    next
      case False
      then have "find_source fls k = k" by (subst find_source.simps) (rule if_not_P)
      then show ?thesis using False "1.prems" by auto
    qed
  qed
  then show "k \<le> find_source fls k" and "find_source fls k \<le> Suc MAX_ORDER"
    and "\<And>j. k \<le> j \<Longrightarrow> j < find_source fls k \<Longrightarrow> fls ! j = []"
    and "find_source fls k \<le> MAX_ORDER \<Longrightarrow> fls ! find_source fls k \<noteq> []"
    by blast+
qed

definition has_block_for :: "nat \<Rightarrow> phys_addr list list \<Rightarrow> bool" where
  "has_block_for order fls \<longleftrightarrow> (\<exists>k\<in>{order..MAX_ORDER}. fls ! k \<noteq> [])"

lemma ensure_free_block_cases:
  assumes ar: "arena (pa_base s) n (pa_free_lists s) L"
    and co: "coalesced (free_blocks (pa_base s) (pa_free_lists s))"
  shows "MAX_ORDER < order \<Longrightarrow> ensure_free_block order s = (s, Err InvalidOrder)"
    and "order \<le> MAX_ORDER \<Longrightarrow> \<not> has_block_for order (pa_free_lists s) \<Longrightarrow>
           ensure_free_block order s = (s, Err OutOfMemory)"
    and "order \<le> MAX_ORDER \<Longrightarrow> has_block_for order (pa_free_lists s) \<Longrightarrow>
           \<exists>fls. ensure_free_block order s = (s\<lparr>pa_free_lists := fls\<rparr>, Ok ())
             \<and> arena (pa_base s) n fls L \<and> splittable (pa_base s) fls order order"
proof -
  let ?fls = "pa_free_lists s" and ?b = "pa_base s"
  have len: "length ?fls = Suc MAX_ORDER" by (rule arena_length [OF ar])
  show "ensure_free_block order s = (s, Err InvalidOrder)" if "MAX_ORDER < order"
    using that len by (simp add: ensure_free_block_def)
  note fs = find_source_spec [of "order + 1", where fls = ?fls]
  show "ensure_free_block order s = (s, Err OutOfMemory)"
    if "order \<le> MAX_ORDER" "\<not> has_block_for order ?fls"
  proof -
    have "\<not> find_source ?fls (order + 1) \<le> MAX_ORDER"
      using fs(1,4) that by (auto simp: has_block_for_def)
    moreover have "?fls ! order = []" using that by (auto simp: has_block_for_def)
    ultimately show ?thesis using that len by (simp add: ensure_free_block_def Let_def)
  qed
  assume ord: "order \<le> MAX_ORDER" and has: "has_block_for order ?fls"
  have co': "coalesced (free_blocks ?b (pop_block k ?fls))" if "k \<le> MAX_ORDER" "?fls ! k \<noteq> []" for k
    using co free_blocks_pop [of k ?fls ?b] that len by (metis coalesced_mono le_imp_less_Suc)
  show "\<exists>fls. ensure_free_block order s = (s\<lparr>pa_free_lists := fls\<rparr>, Ok ())
             \<and> arena ?b n fls L \<and> splittable ?b fls order order"
  proof (cases "?fls ! order = []")
    case False
    then have "ensure_free_block order s = (s\<lparr>pa_free_lists := ?fls\<rparr>, Ok ())"
      using ord len by (simp add: ensure_free_block_def)
    moreover have "splittable ?b ?fls order order" using ord co' False by (simp add: splittable_def)
    ultimately show ?thesis using ar by blast
  next
    case True
    let ?k = "find_source ?fls (order + 1)"
    from has True obtain j where "order + 1 \<le> j" "j \<le> MAX_ORDER" "?fls ! j \<noteq> []"
      unfolding has_block_for_def by (metis Suc_eq_plus1 atLeastAtMost_iff le_neq_implies_less Suc_leI)
    then have k: "?k \<le> MAX_ORDER" "order + 1 \<le> ?k" "?fls ! ?k \<noteq> []"
      using fs ord by (metis Suc_eq_plus1 Suc_le_mono linorder_not_le order_trans)+
    have "splittable ?b ?fls order ?k"
      using k co' fs(3) True ord unfolding splittable_def
      by (metis Suc_eq_plus1 Suc_leI Suc_le_mono le_neq_implies_less)
    then obtain fls where "split_down order ?k ?fls = (fls, Ok ())" "arena ?b n fls L" "splittable ?b fls order order"
      using split_down_ok [OF ar _ _ k(1), of order] k(2) by auto
    then show ?thesis using True ord len k(1) by (auto simp: ensure_free_block_def Let_def)
  qed
qed

section \<open>Allocation\<close>

lemma live_mset_empty [simp]: "live_mset base bt_empty = {#}"
  by (simp add: live_mset_def)

lemma live_mset_insert:
  "bt_get m a = None \<Longrightarrow> live_mset base (bt_insert a k m) = add_mset (page_no base a, k) (live_mset base m)"
  by (simp add: live_mset_def mset_entries_insert_fresh del: bt_entries_simps)

lemma live_mset_remove:
  assumes "bt_get m a = Some k"
  shows "live_mset base m = add_mset (page_no base a, k) (live_mset base (bt_remove a m))"
proof -
  have "live_mset base m = image_mset (\<lambda>(a, k). (page_no base a, k)) (add_mset (a, k) (mset (entries (bt_remove a m))))"
    unfolding live_mset_def by (subst mset_entries_remove [OF assms]) simp
  then show ?thesis by (simp add: live_mset_def)
qed

lemma in_live_mset: "bt_get m a = Some k \<Longrightarrow> (page_no base a, k) \<in># live_mset base m"
  using live_mset_remove [of m a k base] by simp

lemma in_hand_not_live:
  assumes "arena base n fls (add_mset (page_no base a, k) (live_mset base m))"
  shows "bt_get m a = None"
proof (rule ccontr)
  assume "bt_get m a \<noteq> None"
  then obtain j where "bt_get m a = Some j" by auto
  then have "tiles n (add_mset (page_no base a, k) (add_mset (page_no base a, j)
      (free_blocks base fls + live_mset base (bt_remove a m))))"
    using arena_tiles [OF assms] live_mset_remove [of m a j base] by simp
  then show False using tiles_disjoint first_in_pages_of by blast
qed

lemma set_keys_insert: "set (bt_keys (bt_insert a k m)) = insert a (set (bt_keys m))"
  by (auto simp: set_bt_keys)

lemma set_keys_remove: "set (bt_keys (bt_remove a m)) \<subseteq> set (bt_keys m)"
  by (auto simp: set_bt_keys split: if_splits)

lemma phys_invD:
  assumes "phys_inv s"
  shows "arena (pa_base s) (unat (pa_total_pages s)) (pa_free_lists s) (live_mset (pa_base s) (pa_live_blocks s))"
    and "coalesced (free_blocks (pa_base s) (pa_free_lists s))"
    and "bt_get (pa_live_blocks s) a = Some k \<Longrightarrow> on_page (pa_base s) a"
  using assms by (auto simp: phys_inv_def set_bt_keys)

lemma allocate_cases:
  assumes "phys_inv s"
  obtains (invalid) "MAX_ORDER < order" "allocate order s = (s, Err InvalidOrder)"
  | (exhausted) "order \<le> MAX_ORDER" "\<not> has_block_for order (pa_free_lists s)"
      "allocate order s = (s, Err OutOfMemory)"
  | (ok) fls a where "order \<le> MAX_ORDER" "has_block_for order (pa_free_lists s)"
      "allocate order s =
         (s\<lparr>pa_free_lists := fls, pa_live_blocks := bt_insert a order (pa_live_blocks s)\<rparr>, Ok a)"
      "bt_get (pa_live_blocks s) a = None"
      "phys_inv (s\<lparr>pa_free_lists := fls, pa_live_blocks := bt_insert a order (pa_live_blocks s)\<rparr>)"
proof -
  let ?b = "pa_base s" and ?L = "live_mset (pa_base s) (pa_live_blocks s)"
  note inv = phys_invD [OF assms]
  note ens = ensure_free_block_cases [OF inv(1,2), of order]
  consider "MAX_ORDER < order" | "order \<le> MAX_ORDER" "\<not> has_block_for order (pa_free_lists s)"
    | "order \<le> MAX_ORDER" "has_block_for order (pa_free_lists s)" by linarith
  then show thesis
  proof cases
    case 1
    then show thesis using ens(1) by (intro invalid) (simp_all add: allocate_def)
  next
    case 2
    then show thesis using ens(2) by (intro exhausted) (simp_all add: allocate_def)
  next
    case 3
    then obtain fls where e: "ensure_free_block order s = (s\<lparr>pa_free_lists := fls\<rparr>, Ok ())"
      and ar: "arena ?b (unat (pa_total_pages s)) fls ?L" and sp: "splittable ?b fls order order"
      using ens(3) by blast
    let ?a = "last (fls ! order)"
    have ne: "fls ! order \<noteq> []" using sp by (simp add: splittable_def)
    note pop = arena_pop [OF ar 3(1) ne]
    have fresh: "bt_get (pa_live_blocks s) ?a = None" using pop(1) by (rule in_hand_not_live)
    have keys: "\<forall>a\<in>set (bt_keys (pa_live_blocks s)). on_page ?b a" using assms by (simp add: phys_inv_def)
    show thesis
    proof (rule ok [OF 3 _ fresh])
      show "allocate order s = (s\<lparr>pa_free_lists := pop_block order fls,
          pa_live_blocks := bt_insert ?a order (pa_live_blocks s)\<rparr>, Ok ?a)"
        using e ne by (simp add: allocate_def Let_def)
      show "phys_inv (s\<lparr>pa_free_lists := pop_block order fls,
          pa_live_blocks := bt_insert ?a order (pa_live_blocks s)\<rparr>)"
        using pop keys sp by (simp add: phys_inv_def live_mset_insert [OF fresh] set_keys_insert splittable_def)
    qed
  qed
qed

section \<open>Coalescing\<close>

lemma arena_take:
  assumes "arena base n fls L" and "k \<le> MAX_ORDER" and "a \<in> set (fls ! k)"
  shows "arena base n (fls[k := remove1 a (fls ! k)]) (add_mset (page_no base a, k) L)"
proof -
  have k: "k < length fls" using assms(2) arena_length [OF assms(1)] by simp
  have "\<forall>j<length fls. \<forall>b\<in>set (fls[k := remove1 a (fls ! k)] ! j). on_page base b"
    using assms(1) k set_remove1_subset [of a "fls ! k"] by (auto simp: arena_def nth_list_update)
  then show ?thesis
    using assms(1) free_blocks_remove1 [OF k assms(3), of base] by (simp add: arena_def)
qed

lemma min_page_addr:
  assumes "unat base + n * 4096 \<le> 2 ^ 64" and "p < n" and "q < n"
  shows "min (page_addr base p) (page_addr base q) = page_addr base (min p q)"
  using unat_page_addr [OF assms(1,2)] unat_page_addr [OF assms(1,3)]
  by (auto simp: min_def word_le_nat_alt)

lemma buddy_step:
  assumes ar: "arena base n fls (add_mset (page_no base a, k) L)" and pg: "on_page base a"
    and k: "k < MAX_ORDER" and b: "buddy_of base a k \<in> set (fls ! k)"
  defines "b \<equiv> buddy_of base a k" and "fls' \<equiv> fls[k := remove1 (buddy_of base a k) (fls ! k)]"
  shows "arena base n fls' (add_mset (page_no base (min a b), Suc k) L)"
    and "on_page base (min a b)"
proof -
  let ?p = "page_no base a"
  note blk = arena_block [OF ar, of ?p k]
  have a: "a = page_addr base ?p" using pg by (simp add: page_addr_page_no)
  have bud: "b = page_addr base (buddy ?p k)" "buddy ?p k < 2 ^ 52"
    using buddy_of_page_addr(1) [of ?p k base] buddy_of_page_addr(2) [of ?p k] blk(4) k a by (simp_all add: b_def)
  then have pb: "page_no base b = buddy ?p k" by simp
  have taken: "arena base n fls' (add_mset (?p, k) (add_mset (buddy ?p k, k) L))"
    using arena_take [OF ar _ b] k pb by (simp add: fls'_def b_def add_mset_commute)
  have lim: "unat base + n * 4096 \<le> 2 ^ 64" using ar by (simp add: arena_def)
  have bound: "?p + 2 ^ k \<le> n" "buddy ?p k + 2 ^ k \<le> n"
    using arena_block(1) [OF taken, of ?p k] arena_block(1) [OF taken, of "buddy ?p k" k] by simp_all
  have "0 < (2::nat) ^ k" by simp
  then have lt: "?p < n" "buddy ?p k < n" using bound by linarith+
  have mn: "min a b = page_addr base (min ?p (buddy ?p k))"
    by (subst a, subst bud(1)) (rule min_page_addr [OF lim lt])
  have small: "min ?p (buddy ?p k) < 2 ^ 52" using blk(4) by simp
  show "on_page base (min a b)" using mn small by simp
  have "tiles n (add_mset (min ?p (buddy ?p k), Suc k) (free_blocks base fls' + L))"
    using tiles_merge [OF _ k, of n ?p "free_blocks base fls' + L"] arena_tiles [OF taken] by simp
  then show "arena base n fls' (add_mset (page_no base (min a b), Suc k) L)"
    using taken mn small by (simp add: arena_def)
qed

lemma coalesce_loop_ok:
  assumes "arena base n fls (add_mset (page_no base a, k) L)" and "on_page base a"
    and "coalesced (free_blocks base fls)" and "coalesce_loop base a k fls = (fls', a', k')"
  shows "arena base n (push_block k' a' fls') L \<and> coalesced (free_blocks base (push_block k' a' fls'))"
  using assms
proof (induction base a k fls arbitrary: fls' a' k' rule: coalesce_loop.induct)
  case (1 base a k fls)
  have len: "length fls = Suc MAX_ORDER" and k: "k \<le> MAX_ORDER"
    using arena_length [OF "1.prems"(1)] arena_block(3) [OF "1.prems"(1), of "page_no base a" k] by auto
  show ?case
  proof (cases "k < MAX_ORDER \<and> buddy_of base a k \<in> set (fls ! k)")
    case True
    let ?fls = "fls[k := remove1 (buddy_of base a k) (fls ! k)]"
    note step = buddy_step [OF "1.prems"(1,2)]
    have "coalesced (free_blocks base ?fls)"
      using "1.prems"(3) free_blocks_remove1 [of k fls "buddy_of base a k" base] True len
      by (metis coalesced_mono less_Suc_eq)
    moreover have "coalesce_loop base (min a (buddy_of base a k)) (k + 1) ?fls = (fls', a', k')"
      using "1.prems"(4) True by (simp add: coalesce_loop.simps [of base a k fls] Let_def)
    ultimately show ?thesis using "1.IH" [OF _ refl, of fls' a' k'] True step by simp
  next
    case False
    then have eq: "fls' = fls" "a' = a" "k' = k"
      using "1.prems"(4) by (auto simp: coalesce_loop.simps [of base a k fls] Let_def split: if_splits)
    have "(buddy (page_no base a) k, k) \<notin># free_blocks base fls" if lt: "k < MAX_ORDER"
    proof
      assume "(buddy (page_no base a) k, k) \<in># free_blocks base fls"
      then obtain c where c: "c \<in> set (fls ! k)" "page_no base c = buddy (page_no base a) k"
        by (auto simp: in_free_blocks)
      have "on_page base c" using arena_on_page [OF "1.prems"(1) _ c(1)] k by simp
      then have "c = page_addr base (buddy (page_no base a) k)" using c(2) page_addr_page_no by metis
      also have "\<dots> = buddy_of base a k"
        using buddy_of_page_addr(1) [of "page_no base a" k base] page_no_bound [of base a] k
        by (simp add: page_addr_page_no [OF "1.prems"(2)])
      finally show False using False lt c(1) by simp
    qed
    then show ?thesis
      unfolding eq using arena_push [OF "1.prems"(1,2)] "1.prems"(3) len k by (simp add: coalesced_add)
  qed
qed

lemma deallocate_cases:
  assumes "phys_inv s"
  obtains (double) "bt_get (pa_live_blocks s) a = None" "deallocate a s = (s, Err DoubleFree)"
  | (ok) fls k where "bt_get (pa_live_blocks s) a = Some k"
      "deallocate a s = (s\<lparr>pa_live_blocks := bt_remove a (pa_live_blocks s), pa_free_lists := fls\<rparr>, Ok ())"
      "phys_inv (s\<lparr>pa_live_blocks := bt_remove a (pa_live_blocks s), pa_free_lists := fls\<rparr>)"
proof (cases "bt_get (pa_live_blocks s) a")
  case None
  then show thesis by (intro double) (simp_all add: deallocate_def)
next
  case (Some k)
  let ?L = "live_mset (pa_base s) (bt_remove a (pa_live_blocks s))"
  note inv = phys_invD [OF assms]
  obtain fls a' k' where c: "coalesce_loop (pa_base s) a k (pa_free_lists s) = (fls, a', k')"
    by (metis prod_cases3)
  have "arena (pa_base s) (unat (pa_total_pages s)) (pa_free_lists s) (add_mset (page_no (pa_base s) a, k) ?L)"
    using inv(1) live_mset_remove [OF Some] by simp
  from coalesce_loop_ok [OF this inv(3) [OF Some] inv(2) c] assms
  have "phys_inv (s\<lparr>pa_live_blocks := bt_remove a (pa_live_blocks s), pa_free_lists := push_block k' a' fls\<rparr>)"
    using set_keys_remove [of a "pa_live_blocks s"] by (auto simp: phys_inv_def)
  then show thesis using Some c by (intro ok) (simp_all add: deallocate_def)
qed

section \<open>Seeding and reachable states\<close>

lemma seed_loop_ok:
  assumes "length fls = Suc MAX_ORDER" and "\<forall>k<length fls. \<forall>a\<in>set (fls ! k). on_page base a"
    and "tiles p (free_blocks base fls)" and "coalesced (free_blocks base fls)"
    and "seedable p (unat remaining)" and "unat base + (p + unat remaining) * 4096 \<le> 2 ^ 64"
  shows "arena base (p + unat remaining) (seed_loop base (page_addr base p) remaining fls) {#}
    \<and> coalesced (free_blocks base (seed_loop base (page_addr base p) remaining fls))"
  using assms
proof (induction "unat remaining" arbitrary: remaining p fls rule: less_induct)
  case less
  show ?case
  proof (cases "remaining = 0")
    case True
    then show ?thesis using less.prems by (simp add: seed_loop.simps arena_def)
  next
    case False
    let ?r = "unat remaining" and ?k = "seed_order (unat remaining)"
    have r: "0 < ?r" using False by (simp add: unat_gt_0)
    have p: "p < 2 ^ 52" using less.prems(6) r by simp
    have idx: "unat ((page_addr base p - base) div PAGE_SIZE) = p"
      using p by (simp add: unat_div_distrib unat_page_offset)
    have ord: "(if (page_addr base p - base) div PAGE_SIZE \<noteq> 0
        then min ?k (trailing_zeros (unat ((page_addr base p - base) div PAGE_SIZE))) else ?k) = ?k"
      using seed_order_trailing [OF less.prems(5) r] idx by (auto simp: min_def simp flip: unat_eq_zero)
    have kb: "?k \<le> MAX_ORDER" "?k \<le> ilog2 ?r" by (simp_all add: seed_order_def)
    note bp = block_pages_bounds [OF False kb(2,1)]
    have rem: "unat (remaining - pages_in ?k) = ?r - 2 ^ ?k"
      using bp kb by (simp add: unat_sub word_le_nat_alt unat_pages_in MAX_ORDER_def)
    have le: "2 ^ ?k \<le> ?r" by (rule seed_order_le [OF r])
    have step: "seed_loop base (page_addr base p) remaining fls
        = seed_loop base (page_addr base (p + 2 ^ ?k)) (remaining - pages_in ?k) (push_block ?k (page_addr base p) fls)"
      by (subst seed_loop.simps) (simp only: Let_def False if_False ord page_addr_add flip: seed_order_def)
    have on: "\<forall>k<length fls. \<forall>a\<in>set (push_block ?k (page_addr base p) fls ! k). on_page base a"
      using less.prems(1,2) p kb by (auto simp: less_Suc_eq_le)
    let ?fls = "push_block ?k (page_addr base p) fls"
    have fb: "free_blocks base ?fls = add_mset (p, ?k) (free_blocks base fls)"
      using less.prems(1) kb p by simp
    have tot: "p + 2 ^ ?k + unat (remaining - pages_in ?k) = p + ?r" using rem le by simp
    note tl = seed_step_tiles [OF less.prems(3,4,5) r]
    have "unat (remaining - pages_in ?k) < ?r" using rem r by simp
    from less.hyps [OF this, of ?fls "p + 2 ^ ?k"] show ?thesis
      unfolding step using less.prems(1,6) on fb tl seedable_step [OF less.prems(5) r] tot rem by simp
  qed
qed

lemma free_blocks_replicate [simp]: "free_blocks base (replicate m []) = {#}"
  by (simp add: free_blocks_def)

lemma tiles_empty [simp]: "tiles 0 {#}"
  by (simp add: tiles_def)

lemma new_allocator_fields [simp]:
  "pa_base (new_allocator base n) = base"
  "pa_total_pages (new_allocator base n) = n"
  "pa_live_blocks (new_allocator base n) = bt_empty"
  by (simp_all add: new_allocator_def seed_free_lists_def)

lemma new_allocator_inv:
  assumes "unat base + unat n * 4096 \<le> 2 ^ 64"
  shows "phys_inv (new_allocator base n)"
proof -
  have "page_addr base 0 = base" by (simp add: page_addr_def)
  then show ?thesis
    using assms seed_loop_ok [of "replicate (Suc MAX_ORDER) []" base 0 n]
    by (simp add: phys_inv_def new_allocator_def seed_free_lists_def bt_keys_def del: replicate_Suc)
qed

lemma alloc_step_inv:
  assumes "phys_inv s"
  shows "phys_inv (alloc_step x s)"
proof (cases x)
  case (Allocate k)
  show ?thesis by (rule allocate_cases [OF assms, of k]) (use Allocate assms in simp_all)
next
  case (Deallocate a)
  show ?thesis by (rule deallocate_cases [OF assms, of a]) (use Deallocate assms in simp_all)
qed

lemma alloc_run_inv: "phys_inv s \<Longrightarrow> phys_inv (alloc_run xs s)"
  by (induction xs arbitrary: s) (simp_all add: alloc_step_inv)

lemma alloc_step_arena:
  assumes "phys_inv s"
  shows "pa_base (alloc_step x s) = pa_base s" and "pa_total_pages (alloc_step x s) = pa_total_pages s"
proof -
  have "pa_base (alloc_step x s) = pa_base s \<and> pa_total_pages (alloc_step x s) = pa_total_pages s"
  proof (cases x)
    case (Allocate k)
    show ?thesis by (rule allocate_cases [OF assms, of k]) (use Allocate in simp_all)
  next
    case (Deallocate a)
    show ?thesis by (rule deallocate_cases [OF assms, of a]) (use Deallocate in simp_all)
  qed
  then show "pa_base (alloc_step x s) = pa_base s" "pa_total_pages (alloc_step x s) = pa_total_pages s" by simp_all
qed

lemma alloc_run_arena:
  "phys_inv s \<Longrightarrow> pa_base (alloc_run xs s) = pa_base s \<and> pa_total_pages (alloc_run xs s) = pa_total_pages s"
  by (induction xs arbitrary: s) (simp_all add: alloc_step_arena alloc_step_inv)

section \<open>Page accounting\<close>

definition live_pages :: "physical_allocator \<Rightarrow> nat" where
  "live_pages s = (\<Sum>e\<leftarrow>entries (pa_live_blocks s). 2 ^ snd e)"

lemma free_block_pages:
  "(\<Sum>blk\<in>#free_blocks base fls. 2 ^ snd blk) = (\<Sum>k<length fls. length (fls ! k) * 2 ^ k)"
proof -
  have "(\<Sum>blk\<in>#blocks_at base k l. 2 ^ snd blk) = length l * (2::nat) ^ k" for k l
    by (induction l) (simp_all add: blocks_at_def)
  moreover have "(\<Sum>blk\<in>#(\<Sum>k<m. f k). g blk) = (\<Sum>k<m. \<Sum>blk\<in>#f k. g blk)" for m :: nat and f :: "nat \<Rightarrow> block multiset" and g :: "block \<Rightarrow> nat"
    by (induction m) simp_all
  ultimately show ?thesis by (simp add: free_blocks_def)
qed

lemma live_block_pages: "(\<Sum>blk\<in>#live_mset base (pa_live_blocks s). 2 ^ snd blk) = live_pages s"
  by (simp add: live_mset_def live_pages_def image_mset.compositionality comp_def case_prod_beta
      flip: sum_mset_sum_list mset_map)

lemma free_page_count_nat:
  "free_page_count s = of_nat (\<Sum>k<length (pa_free_lists s). length (pa_free_lists s ! k) * 2 ^ k)"
proof -
  have "sum_list (map (\<lambda>(k, l). of_nat (length l) * pages_in k) (enumerate 0 fls)) =
      (of_nat (\<Sum>k<length fls. length (fls ! k) * 2 ^ k) :: u64)" for fls :: "phys_addr list list"
    by (induction fls rule: rev_induct)
      (simp_all add: enumerate_append_eq pages_in_def push_bit_eq_mult nth_append)
  then show ?thesis by (simp add: free_page_count_def)
qed

lemma page_accounting:
  assumes "phys_inv s"
  shows "unat (free_page_count s) + live_pages s = unat (pa_total_pages s)"
proof -
  let ?f = "\<Sum>k<length (pa_free_lists s). length (pa_free_lists s ! k) * 2 ^ k"
  have sum: "?f + live_pages s = unat (pa_total_pages s)"
    using tiles_total [OF arena_tiles [OF phys_invD(1) [OF assms]]]
    by (simp add: free_block_pages live_block_pages)
  then have "?f < 2 ^ 64" using unat_u64_less [of "pa_total_pages s"] by linarith
  then have "unat (free_page_count s) = ?f" unfolding free_page_count_nat by (rule unat_of_nat_u64)
  with sum show ?thesis by simp
qed

section \<open>The contract of a frame source\<close>

text \<open>
  Whoever maps pages needs only this of an allocator: a frame it hands out was not in use, and is in use
  afterwards. \<open>take_frames\<close> is the client that asks for \<open>n\<close> frames in a row and stops
  at the first failure.
\<close>

fun take_frames :: "('s \<Rightarrow> 's \<times> 'a option) \<Rightarrow> nat \<Rightarrow> 's \<Rightarrow> 's \<times> 'a list" where
  "take_frames tk 0 s = (s, [])"
| "take_frames tk (Suc n) s =
     (case tk s of
        (s1, None) \<Rightarrow> (s1, [])
      | (s1, Some a) \<Rightarrow> (case take_frames tk n s1 of (s2, l) \<Rightarrow> (s2, a # l)))"

locale frame_source =
  fixes inv :: "'s \<Rightarrow> bool" and take :: "'s \<Rightarrow> 's \<times> 'a option" and used :: "'s \<Rightarrow> 'a set"
  assumes take_Some: "inv s \<Longrightarrow> take s = (s', Some a) \<Longrightarrow> inv s' \<and> a \<notin> used s \<and> used s' = insert a (used s)"
    and take_None: "inv s \<Longrightarrow> take s = (s', None) \<Longrightarrow> inv s' \<and> used s' = used s"
begin

lemma take_frames_distinct:
  "inv s \<Longrightarrow> take_frames take n s = (s', l) \<Longrightarrow>
     distinct l \<and> set l \<inter> used s = {} \<and> used s' = used s \<union> set l \<and> inv s'"
proof (induction n arbitrary: s s' l)
  case (Suc n)
  obtain s1 r where t: "take s = (s1, r)" by (cases "take s")
  show ?case
  proof (cases r)
    case None
    then show ?thesis using Suc.prems t take_None [of s s1] by simp
  next
    case (Some a)
    obtain s2 m where m: "take_frames take n s1 = (s2, m)" by fastforce
    have "s' = s2" "l = a # m" using Suc.prems(2) t Some m by simp_all
    with Suc.IH [OF _ m] take_Some [OF Suc.prems(1), of s1 a] t Some show ?thesis by auto
  qed
qed simp

end

definition live_addrs :: "physical_allocator \<Rightarrow> phys_addr set" where
  "live_addrs s = set (bt_keys (pa_live_blocks s))"

definition take_order :: "nat \<Rightarrow> physical_allocator \<Rightarrow> physical_allocator \<times> phys_addr option" where
  "take_order k s = (case allocate k s of (s1, Inl e) \<Rightarrow> (s1, None) | (s1, Inr a) \<Rightarrow> (s1, Some a))"

interpretation phys: frame_source phys_inv "take_order k" live_addrs
proof
  fix s s' a
  assume inv: "phys_inv s" and t: "take_order k s = (s', Some a)"
  show "phys_inv s' \<and> a \<notin> live_addrs s \<and> live_addrs s' = insert a (live_addrs s)"
    by (rule allocate_cases [OF inv, of k])
      (use t in \<open>auto simp: take_order_def live_addrs_def set_bt_keys\<close>)
next
  fix s s'
  assume inv: "phys_inv s" and t: "take_order k s = (s', None)"
  show "phys_inv s' \<and> live_addrs s' = live_addrs s"
    by (rule allocate_cases [OF inv, of k]) (use inv t in \<open>auto simp: take_order_def\<close>)
qed

section \<open>Properties\<close>

definition byte_range :: "phys_addr \<Rightarrow> nat \<Rightarrow> nat set" where
  "byte_range a k = {unat a ..< unat a + 2 ^ k * 4096}"

lemma live_block_place:
  assumes "phys_inv s" and "bt_get (pa_live_blocks s) a = Some k"
  shows "unat a = unat (pa_base s) + page_no (pa_base s) a * 4096"
    and "page_no (pa_base s) a + 2 ^ k \<le> unat (pa_total_pages s)"
    and "2 ^ k dvd page_no (pa_base s) a"
    and "k \<le> MAX_ORDER"
proof -
  let ?p = "page_no (pa_base s) a"
  note inv = phys_invD [OF assms(1)]
  note blk = arena_block [OF inv(1), of ?p k]
  have m: "(?p, k) \<in># free_blocks (pa_base s) (pa_free_lists s) + live_mset (pa_base s) (pa_live_blocks s)"
    using in_live_mset [OF assms(2)] by simp
  show b: "?p + 2 ^ k \<le> unat (pa_total_pages s)" "2 ^ k dvd ?p" "k \<le> MAX_ORDER" using blk(1-3) [OF m] by simp_all
  have "0 < (2::nat) ^ k" by simp
  then have "?p < unat (pa_total_pages s)" using b(1) by linarith
  moreover have "unat (pa_base s) + unat (pa_total_pages s) * 4096 \<le> 2 ^ 64" using inv(1) by (simp add: arena_def)
  ultimately show "unat a = unat (pa_base s) + ?p * 4096"
    using unat_page_addr [of "pa_base s" _ ?p] page_addr_page_no [OF inv(3) [OF assms(2)]] by simp
qed

lemma scaled_disjoint:
  assumes "pages_of (p, k) \<inter> pages_of (q, j) = {}"
  shows "{b + p * 4096 ..< b + p * 4096 + 2 ^ k * 4096} \<inter> {b + q * 4096 ..< b + q * 4096 + 2 ^ j * (4096::nat)} = {}"
proof -
  have "0 < (2::nat) ^ k" "0 < (2::nat) ^ j" by simp_all
  then have "p + 2 ^ k \<le> q \<or> q + 2 ^ j \<le> p"
    using assms unfolding pages_of_def
    by (metis (no_types, lifting) atLeastLessThan_iff disjoint_iff fst_conv snd_conv le_refl less_add_same_cancel1 linorder_not_le nat_le_linear)
  then show ?thesis by auto
qed

lemma live_blocks_pages_disjoint:
  assumes "phys_inv s" "bt_get (pa_live_blocks s) a = Some k" "bt_get (pa_live_blocks s) b = Some j" "a \<noteq> b"
  shows "pages_of (page_no (pa_base s) a, k) \<inter> pages_of (page_no (pa_base s) b, j) = {}"
proof -
  note inv = phys_invD [OF assms(1)]
  have b: "bt_get (bt_remove a (pa_live_blocks s)) b = Some j" using assms(3,4) by simp
  have "live_mset (pa_base s) (pa_live_blocks s) = add_mset (page_no (pa_base s) a, k)
      (add_mset (page_no (pa_base s) b, j) (live_mset (pa_base s) (bt_remove b (bt_remove a (pa_live_blocks s)))))"
    using live_mset_remove [OF assms(2)] live_mset_remove [OF b] by simp
  then show ?thesis using arena_tiles [OF inv(1)] tiles_disjoint by simp
qed

lemma live_pages_insert:
  "bt_get (pa_live_blocks s) a = None \<Longrightarrow>
     live_pages (s\<lparr>pa_free_lists := fls, pa_live_blocks := bt_insert a k (pa_live_blocks s)\<rparr>) = 2 ^ k + live_pages s"
  using live_mset_insert [of "pa_live_blocks s" a 0 k]
  by (simp flip: live_block_pages [of 0])

lemma live_pages_remove:
  "bt_get (pa_live_blocks s) a = Some k \<Longrightarrow>
     live_pages s = 2 ^ k + live_pages (s\<lparr>pa_live_blocks := bt_remove a (pa_live_blocks s), pa_free_lists := fls\<rparr>)"
  using live_mset_remove [of "pa_live_blocks s" a k 0]
  by (simp flip: live_block_pages [of 0])

lemma reachable_inv:
  assumes "unat base + unat n * 4096 \<le> 2 ^ 64" and "s = alloc_run xs (new_allocator base n)"
  shows "phys_inv s" and "pa_base s = base" and "pa_total_pages s = n"
  using new_allocator_inv [OF assms(1)] alloc_run_arena [of "new_allocator base n" xs] assms(2)
  by (simp_all add: alloc_run_inv)

text \<open>What the caller may rely on when the allocator says no: every aligned region is touched by a live block.\<close>

lemma exhausted_regions_touched:
  assumes "phys_inv s" and "order \<le> MAX_ORDER" and "\<not> has_block_for order (pa_free_lists s)"
    and "2 ^ order dvd p" and "p + 2 ^ order \<le> unat (pa_total_pages s)"
  shows "\<exists>a k. bt_get (pa_live_blocks s) a = Some k \<and> pages_of (page_no (pa_base s) a, k) \<inter> pages_of (p, order) \<noteq> {}"
proof (rule ccontr)
  let ?F = "free_blocks (pa_base s) (pa_free_lists s)" and ?L = "live_mset (pa_base s) (pa_live_blocks s)"
  assume no: "\<not> ?thesis"
  note inv = phys_invD [OF assms(1)]
  have "\<forall>b\<in>#?L. pages_of b \<inter> pages_of (p, order) = {}"
    using no by (force simp: live_mset_def simp flip: bt_get_iff_entry)
  then obtain q k where f: "(q, k) \<in># ?F" "pages_of (p, order) \<subseteq> pages_of (q, k)"
    using coalesced_region [OF arena_tiles [OF inv(1)] inv(2) assms(4,5,2)] by auto
  then have "order \<le> k" "k \<le> MAX_ORDER" "pa_free_lists s ! k \<noteq> []"
    using pages_of_subset_order [OF f(2)] arena_length [OF inv(1)] by (auto simp: in_free_blocks)
  then show False using assms(3) by (auto simp: has_block_for_def)
qed

text \<open>The free lists can be read back from the blocks they stand for.\<close>

lemma blocks_at_filter:
  "filter_mset (\<lambda>b. snd b = k) (blocks_at base j l) = (if j = k then blocks_at base j l else {#})"
  by (auto simp: blocks_at_def filter_mset_image_mset)

lemma free_list_of_blocks:
  assumes "k < length fls" and "\<forall>a\<in>set (fls ! k). on_page base a"
  shows "mset (fls ! k) =
    image_mset (\<lambda>b. page_addr base (fst b)) (filter_mset (\<lambda>b. snd b = k) (free_blocks base fls))"
proof -
  have "filter_mset (\<lambda>b. snd b = k) (\<Sum>j<m. f j) = (\<Sum>j<m. filter_mset (\<lambda>b. snd b = k) (f j))"
    for m :: nat and f :: "nat \<Rightarrow> block multiset"
    by (induction m) simp_all
  then have "filter_mset (\<lambda>b. snd b = k) (free_blocks base fls) =
      (\<Sum>j<length fls. if j = k then blocks_at base j (fls ! j) else {#})"
    by (simp add: free_blocks_def blocks_at_filter)
  also have "\<dots> = blocks_at base k (fls ! k)" using assms(1) by simp
  finally have "image_mset (\<lambda>b. page_addr base (fst b)) (filter_mset (\<lambda>b. snd b = k) (free_blocks base fls))
      = image_mset (\<lambda>a. page_addr base (page_no base a)) (mset (fls ! k))"
    by (simp add: blocks_at_def image_mset.compositionality comp_def)
  also have "\<dots> = image_mset (\<lambda>a. a) (mset (fls ! k))"
    by (rule image_mset_cong) (use assms(2) in \<open>simp add: page_addr_page_no\<close>)
  finally show ?thesis by simp
qed

text \<open>
  C5: The blocks that are live after any sequence of calls are pairwise disjoint byte ranges, each
  inside the arena and aligned, relative to the base of the arena, to its own size. An address is a multiple of
  the size of its block when the base is one, and need not be otherwise.
\<close>

theorem live_blocks_disjoint:
  assumes "unat base + unat n * 4096 \<le> 2 ^ 64"
    and "s = alloc_run xs (new_allocator base n)"
    and "bt_get (pa_live_blocks s) a = Some k" and "bt_get (pa_live_blocks s) b = Some j"
  shows "(a \<noteq> b \<longrightarrow> byte_range a k \<inter> byte_range b j = {})
    \<and> byte_range a k \<subseteq> {unat base ..< unat base + unat n * 4096}
    \<and> 2 ^ k * 4096 dvd unat a - unat base
    \<and> (2 ^ k * 4096 dvd unat a \<longleftrightarrow> 2 ^ k * 4096 dvd unat base)"
proof (intro conjI impI)
  note inv = reachable_inv [OF assms(1,2)]
  note a = live_block_place [OF inv(1) assms(3), unfolded inv]
  note b = live_block_place [OF inv(1) assms(4), unfolded inv]
  show "byte_range a k \<inter> byte_range b j = {}" if "a \<noteq> b"
    using scaled_disjoint [OF live_blocks_pages_disjoint [OF inv(1) assms(3,4) that, unfolded inv], of "unat base"]
    by (simp add: byte_range_def a(1) b(1))
  show "byte_range a k \<subseteq> {unat base ..< unat base + unat n * 4096}" using a(1,2) by (auto simp: byte_range_def)
  show off: "2 ^ k * 4096 dvd unat a - unat base" using a(1,3) by (simp add: mult_dvd_mono)
  have "unat a = unat base + (unat a - unat base)" using a(1) by simp
  then show "2 ^ k * 4096 dvd unat a \<longleftrightarrow> 2 ^ k * 4096 dvd unat base" using off by (metis dvd_add_left_iff)
qed

theorem live_blocks_disjoint_witness:
  "let s = alloc_run [Allocate 0, Allocate 1] (new_allocator 0x1000 8)
   in bt_get (pa_live_blocks s) 0x8000 = Some 0 \<and> bt_get (pa_live_blocks s) 0x5000 = Some 1
      \<and> byte_range 0x8000 0 \<inter> byte_range 0x5000 1 = {} \<and> \<not> 2 ^ 1 * 4096 dvd unat (0x5000 :: u64)"
proof -
  let ?s = "alloc_run [Allocate 0, Allocate 1] (new_allocator 0x1000 8)"
  have l: "bt_get (pa_live_blocks ?s) 0x8000 = Some 0" "bt_get (pa_live_blocks ?s) 0x5000 = Some 1"
    by code_simp+
  have b: "unat (0x1000::u64) + unat (8::u64) * 4096 \<le> 2 ^ 64" by simp
  show ?thesis using l live_blocks_disjoint [OF b refl l] by (simp add: Let_def)
qed

text \<open>
  C6: Allocation on every branch, in any reachable state. An order above \<open>MAX_ORDER\<close> is
  refused with \<open>InvalidOrder\<close>. \<open>OutOfMemory\<close> is returned only if every
  aligned region of that size in the arena is touched by a live block, so that no allocator could
  have served the request. Neither error changes the state. Otherwise the returned block was not live, it is now recorded
  with its order, and the free-page count went down by exactly its size.
\<close>

theorem allocate_outcome:
  assumes "unat base + unat n * 4096 \<le> 2 ^ 64" and "s = alloc_run xs (new_allocator base n)"
  shows "case allocate order s of
     (s', Inl e) \<Rightarrow> s' = s \<and>
       (if MAX_ORDER < order then e = InvalidOrder
        else e = OutOfMemory \<and>
          (\<forall>p. 2 ^ order dvd p \<longrightarrow> p + 2 ^ order \<le> unat n \<longrightarrow>
             (\<exists>a k. bt_get (pa_live_blocks s) a = Some k \<and> pages_of (page_no base a, k) \<inter> pages_of (p, order) \<noteq> {})))
   | (s', Inr a) \<Rightarrow> order \<le> MAX_ORDER \<and> bt_get (pa_live_blocks s) a = None
       \<and> pa_live_blocks s' = bt_insert a order (pa_live_blocks s)
       \<and> unat (free_page_count s') + 2 ^ order = unat (free_page_count s)"
proof -
  note inv = reachable_inv [OF assms]
  show ?thesis
  proof (rule allocate_cases [OF inv(1), of order])
    fix fls a
    let ?s = "s\<lparr>pa_free_lists := fls, pa_live_blocks := bt_insert a order (pa_live_blocks s)\<rparr>"
    assume a: "order \<le> MAX_ORDER" "allocate order s = (?s, Ok a)" "bt_get (pa_live_blocks s) a = None" "phys_inv ?s"
    show ?thesis
      using a page_accounting [OF inv(1)] page_accounting [OF a(4)] live_pages_insert [OF a(3), where fls = fls and k = order] by simp
  next
    assume e: "order \<le> MAX_ORDER" "\<not> has_block_for order (pa_free_lists s)" "allocate order s = (s, Err OutOfMemory)"
    show ?thesis using e exhausted_regions_touched [OF inv(1) e(1,2)] by (simp add: inv(2,3))
  qed simp
qed

theorem allocate_outcome_witness:
  "let s = alloc_run [Allocate 1] (new_allocator 0x1000 8)
   in unat (0x1000::u64) + unat (8::u64) * 4096 \<le> 2 ^ 64 \<and>
      (case allocate 0 s of (s', Inr a) \<Rightarrow> bt_get (pa_live_blocks s) a = None
          \<and> unat (free_page_count s') + 1 = unat (free_page_count s) | _ \<Rightarrow> False)"
proof -
  let ?s = "alloc_run [Allocate 1] (new_allocator 0x1000 8)"
  have ok: "is_ok (snd (allocate 0 ?s))" by code_simp
  have b: "unat (0x1000::u64) + unat (8::u64) * 4096 \<le> 2 ^ 64" by simp
  show ?thesis using ok b allocate_outcome [OF b refl, of "[Allocate 1]" 0]
    by (auto simp: Let_def is_ok_iff split: prod.splits sum.splits)
qed

text \<open>
  C7: Deallocation on every branch, in any reachable state. An address that is not that of a live block, in
  particular one already freed, is refused with \<open>DoubleFree\<close> and nothing changes. Otherwise
  exactly that block stops being live and the free-page count grows by its size.
\<close>

theorem deallocate_outcome:
  assumes "unat base + unat n * 4096 \<le> 2 ^ 64" and "s = alloc_run xs (new_allocator base n)"
  shows "case bt_get (pa_live_blocks s) a of
     None \<Rightarrow> deallocate a s = (s, Err DoubleFree)
   | Some k \<Rightarrow> \<exists>s'. deallocate a s = (s', Ok ())
       \<and> pa_live_blocks s' = bt_remove a (pa_live_blocks s)
       \<and> unat (free_page_count s') = unat (free_page_count s) + 2 ^ k
       \<and> deallocate a s' = (s', Err DoubleFree)"
proof -
  note inv = reachable_inv [OF assms]
  show ?thesis
  proof (rule deallocate_cases [OF inv(1), of a])
    fix fls k
    let ?s = "s\<lparr>pa_live_blocks := bt_remove a (pa_live_blocks s), pa_free_lists := fls\<rparr>"
    assume a: "bt_get (pa_live_blocks s) a = Some k" "deallocate a s = (?s, Ok ())" "phys_inv ?s"
    have "deallocate a ?s = (?s, Err DoubleFree)" by (simp add: deallocate_def)
    then show ?thesis
      using a page_accounting [OF inv(1)] page_accounting [OF a(3)] live_pages_remove [OF a(1), of fls] by simp
  qed simp
qed

theorem deallocate_outcome_witness:
  "let s = alloc_run [Allocate 1, Allocate 0] (new_allocator 0x1000 8)
   in bt_get (pa_live_blocks s) 0x7000 = Some 1
      \<and> (\<exists>s'. deallocate 0x7000 s = (s', Ok ()) \<and> unat (free_page_count s') = unat (free_page_count s) + 2
           \<and> deallocate 0x7000 s' = (s', Err DoubleFree))"
proof -
  let ?s = "alloc_run [Allocate 1, Allocate 0] (new_allocator 0x1000 8)"
  have l: "bt_get (pa_live_blocks ?s) 0x7000 = Some 1" by code_simp
  have b: "unat (0x1000::u64) + unat (8::u64) * 4096 \<le> 2 ^ 64" by simp
  show ?thesis using l deallocate_outcome [OF b refl, of "0x7000" "[Allocate 1, Allocate 0]"] by (auto simp: Let_def)
qed

text \<open>
  C8: No leak and no lasting fragmentation. At every moment the free pages and the pages of live blocks
  add up to the arena; and whenever everything has been freed again, whatever the sequence of
  calls was, each free list holds the same blocks as the freshly seeded allocator, so that the
  largest blocks are available again.
\<close>

theorem no_lasting_fragmentation:
  assumes "unat base + unat n * 4096 \<le> 2 ^ 64" and "s = alloc_run xs (new_allocator base n)"
  shows "unat (free_page_count s) + live_pages s = unat n
    \<and> (pa_live_blocks s = bt_empty \<longrightarrow> free_page_count s = n \<and>
        (\<forall>k\<le>MAX_ORDER. mset (pa_free_lists s ! k) = mset (pa_free_lists (new_allocator base n) ! k)))"
proof (intro conjI impI allI)
  note inv = reachable_inv [OF assms]
  let ?s0 = "new_allocator base n"
  show acc: "unat (free_page_count s) + live_pages s = unat n" using page_accounting [OF inv(1)] by (simp add: inv)
  assume em: "pa_live_blocks s = bt_empty"
  then show "free_page_count s = n" using acc by (simp add: live_pages_def word_unat_eq_iff)
  note ar = phys_invD(1) [OF inv(1), unfolded inv em live_mset_empty]
  note ar0 = phys_invD(1) [OF new_allocator_inv [OF assms(1)], unfolded new_allocator_fields live_mset_empty]
  have eq: "free_blocks base (pa_free_lists s) = free_blocks base (pa_free_lists ?s0)"
    using coalesced_tiling_unique arena_tiles [OF ar] arena_tiles [OF ar0]
      phys_invD(2) [OF inv(1)] phys_invD(2) [OF new_allocator_inv [OF assms(1)]] by (simp add: inv)
  fix k assume "k \<le> MAX_ORDER"
  then show "mset (pa_free_lists s ! k) = mset (pa_free_lists ?s0 ! k)"
    using free_list_of_blocks [of k "pa_free_lists s" base] free_list_of_blocks [of k "pa_free_lists ?s0" base]
      arena_length [OF ar] arena_length [OF ar0] arena_on_page [OF ar, of k] arena_on_page [OF ar0, of k]
    by (simp add: eq)
qed

theorem no_lasting_fragmentation_witness:
  "let s = alloc_run [Allocate 0, Allocate 0, Allocate 1, Deallocate 0xb000, Deallocate 0xa000, Deallocate 0x7000] (new_allocator 0x1000 11)
   in pa_live_blocks s = bt_empty
      \<and> (\<forall>k\<le>MAX_ORDER. mset (pa_free_lists s ! k) = mset (pa_free_lists (new_allocator 0x1000 11) ! k))"
proof -
  let ?xs = "[Allocate 0, Allocate 0, Allocate 1, Deallocate 0xb000, Deallocate 0xa000, Deallocate 0x7000]"
  have l: "pa_live_blocks (alloc_run ?xs (new_allocator 0x1000 11)) = bt_empty" by code_simp
  have b: "unat (0x1000::u64) + unat (11::u64) * 4096 \<le> 2 ^ 64" by simp
  show ?thesis using l no_lasting_fragmentation [OF b refl, of ?xs] by (simp add: Let_def)
qed

end
