(* ===== verification/Virtual_Memory.thy ===== *)
theory Virtual_Memory
  imports Capability Phys_Alloc
begin

text \<open>
  The page table and the process memory context of \<open>memory.rs\<close>: \<open>map_page\<close>,
  \<open>unmap_page\<close>, \<open>translate\<close>, and on top of them virtual allocation gated by a capability
  check, deallocation, and the lazy page-fault handler. Operations thread the context, the physical
  allocator and, where the code does, the capability broker, and return them with the result: what a
  failed call leaves behind is part of the model.
\<close>

section \<open>The code\<close>

record memory_access =
  ma_read :: bool
  ma_write :: bool
  ma_execute :: bool
  ma_user_accessible :: bool

record page_mapping =
  map_phys :: phys_addr
  map_access :: memory_access

record page_table =
  pt_mappings :: "(virt_addr, page_mapping) btree_map"

definition new_page_table :: page_table where
  "new_page_table = \<lparr>pt_mappings = bt_empty\<rparr>"

definition map_page :: "virt_addr \<Rightarrow> phys_addr \<Rightarrow> memory_access \<Rightarrow> page_table \<Rightarrow> page_table" where
  "map_page vaddr paddr access pt =
     pt\<lparr>pt_mappings := bt_insert vaddr \<lparr>map_phys = paddr, map_access = access\<rparr> (pt_mappings pt)\<rparr>"

definition unmap_page :: "virt_addr \<Rightarrow> page_table \<Rightarrow> page_table \<times> (memory_error, phys_addr) result" where
  "unmap_page vaddr pt =
     (pt\<lparr>pt_mappings := bt_remove vaddr (pt_mappings pt)\<rparr>,
      ok_or Unmapped (map_option map_phys (bt_get (pt_mappings pt) vaddr)))"

definition translate :: "virt_addr \<Rightarrow> memory_access \<Rightarrow> page_table \<Rightarrow> (memory_error, phys_addr) result" where
  "translate vaddr want pt =
     (case bt_get (pt_mappings pt) vaddr of
        None \<Rightarrow> Err Unmapped
      | Some mapping \<Rightarrow>
          let ok = (\<not> ma_read want \<or> ma_read (map_access mapping))
                 \<and> (\<not> ma_write want \<or> ma_write (map_access mapping))
                 \<and> (\<not> ma_execute want \<or> ma_execute (map_access mapping))
          in if ok then Ok (map_phys mapping) else Err AccessViolation)"

record vmem_region =
  reg_start :: virt_addr
  reg_end :: virt_addr
  reg_access :: memory_access

record process_memory_context =
  pmc_pid :: u64
  pmc_page_table :: page_table
  pmc_regions :: "vmem_region list"
  pmc_next_addr :: virt_addr

definition new_context :: "u64 \<Rightarrow> virt_addr \<Rightarrow> process_memory_context" where
  "new_context pid heap_start =
     \<lparr>pmc_pid = pid, pmc_page_table = new_page_table, pmc_regions = [], pmc_next_addr = heap_start\<rparr>"

definition needed_permissions :: "memory_access \<Rightarrow> permissions" where
  "needed_permissions access =
     NONE\<lparr>perm_read := True, perm_write := ma_write access, perm_execute := ma_execute access, perm_create := True\<rparr>"

fun map_loop ::
    "virt_addr \<Rightarrow> memory_access \<Rightarrow> nat list \<Rightarrow> page_table \<Rightarrow> physical_allocator
     \<Rightarrow> page_table \<times> physical_allocator \<times> (memory_error, unit) result" where
  "map_loop vaddr access [] pt phys = (pt, phys, Ok ())"
| "map_loop vaddr access (i # js) pt phys =
     (case allocate 0 phys of
        (phys1, Inl e) \<Rightarrow> (pt, phys1, Err e)
      | (phys1, Inr paddr) \<Rightarrow>
          map_loop vaddr access js (map_page (vaddr + of_nat i * PAGE_SIZE) paddr access pt) phys1)"

definition allocate_virtual ::
    "u64 \<Rightarrow> memory_access \<Rightarrow> timestamp \<Rightarrow> process_memory_context \<Rightarrow> physical_allocator \<Rightarrow> capability_broker
     \<Rightarrow> process_memory_context \<times> physical_allocator \<times> capability_broker \<times> (memory_error, virt_addr) result" where
  "allocate_virtual sz access now ctx phys caps =
     (case check_access (pmc_pid ctx) Memory ''heap'' (needed_permissions access) now caps of
        (caps1, decision) \<Rightarrow>
          if decision \<noteq> Allowed then (ctx, phys, caps1, Err CapabilityDenied)
          else
            let page_count = div_ceil sz PAGE_SIZE; vaddr = pmc_next_addr ctx
            in (case map_loop vaddr access [0..<unat page_count] (pmc_page_table ctx) phys of
                 (pt, phys1, Inl e) \<Rightarrow> (ctx\<lparr>pmc_page_table := pt\<rparr>, phys1, caps1, Err e)
               | (pt, phys1, Inr _) \<Rightarrow>
                   (ctx\<lparr>pmc_page_table := pt,
                        pmc_next_addr := pmc_next_addr ctx + page_count * PAGE_SIZE,
                        pmc_regions := pmc_regions ctx @
                          [\<lparr>reg_start = vaddr, reg_end = vaddr + sz, reg_access = access\<rparr>]\<rparr>,
                    phys1, caps1, Ok vaddr)))"

fun unmap_loop ::
    "virt_addr \<Rightarrow> nat list \<Rightarrow> page_table \<Rightarrow> physical_allocator
     \<Rightarrow> page_table \<times> physical_allocator \<times> (memory_error, unit) result" where
  "unmap_loop start [] pt phys = (pt, phys, Ok ())"
| "unmap_loop start (i # js) pt phys =
     (case unmap_page (start + of_nat i * PAGE_SIZE) pt of
        (pt1, Inl e) \<Rightarrow> (pt1, phys, Err e)
      | (pt1, Inr paddr) \<Rightarrow>
          (case deallocate paddr phys of
             (phys1, Inl e) \<Rightarrow> (pt1, phys1, Err e)
           | (phys1, Inr _) \<Rightarrow> unmap_loop start js pt1 phys1))"

text \<open>\<open>iter().position\<close> followed by \<open>Vec::remove\<close>: take the first match out of a list.\<close>

fun take_first :: "('a \<Rightarrow> bool) \<Rightarrow> 'a list \<Rightarrow> ('a \<times> 'a list) option" where
  "take_first P [] = None"
| "take_first P (x # xs) =
     (if P x then Some (x, xs) else map_option (\<lambda>(y, ys). (y, x # ys)) (take_first P xs))"

definition deallocate_virtual ::
    "virt_addr \<Rightarrow> process_memory_context \<Rightarrow> physical_allocator
     \<Rightarrow> process_memory_context \<times> physical_allocator \<times> (memory_error, unit) result" where
  "deallocate_virtual vaddr ctx phys =
     (case take_first (\<lambda>r. reg_start r = vaddr) (pmc_regions ctx) of
        None \<Rightarrow> (ctx, phys, Err RegionNotFound)
      | Some (region, rest) \<Rightarrow>
          let page_count = div_ceil (reg_end region - reg_start region) PAGE_SIZE
          in (case unmap_loop (reg_start region) [0..<unat page_count] (pmc_page_table ctx) phys of
               (pt, phys1, r) \<Rightarrow> (ctx\<lparr>pmc_regions := rest, pmc_page_table := pt\<rparr>, phys1, r)))"

definition handle_page_fault ::
    "virt_addr \<Rightarrow> bool \<Rightarrow> process_memory_context \<Rightarrow> physical_allocator
     \<Rightarrow> process_memory_context \<times> physical_allocator \<times> (memory_error, unit) result" where
  "handle_page_fault vaddr is_write ctx phys =
     (case find (\<lambda>r. reg_start r \<le> vaddr \<and> vaddr < reg_end r) (pmc_regions ctx) of
        None \<Rightarrow> (ctx, phys, Err Unmapped)
      | Some region \<Rightarrow>
          if is_write \<and> \<not> ma_write (reg_access region) then (ctx, phys, Err AccessViolation)
          else
            let page_vaddr = vaddr - vaddr mod PAGE_SIZE
            in (case allocate 0 phys of
                 (phys1, Inl e) \<Rightarrow> (ctx, phys1, Err e)
               | (phys1, Inr paddr) \<Rightarrow>
                   (ctx\<lparr>pmc_page_table := map_page page_vaddr paddr (reg_access region) (pmc_page_table ctx)\<rparr>,
                    phys1, Ok ())))"

section \<open>The page table as a partial map\<close>

lemma map_page_get [simp]:
  "bt_get (pt_mappings (map_page v p acc pt)) k =
     (if k = v then Some \<lparr>map_phys = p, map_access = acc\<rparr> else bt_get (pt_mappings pt) k)"
  by (simp add: map_page_def)

lemma unmap_page_Some:
  "bt_get (pt_mappings pt) v = Some m \<Longrightarrow>
     unmap_page v pt = (pt\<lparr>pt_mappings := bt_remove v (pt_mappings pt)\<rparr>, Ok (map_phys m))"
  by (simp add: unmap_page_def)

lemma page_table_eqI: "(\<And>k. bt_get (pt_mappings a) k = bt_get (pt_mappings b) k) \<Longrightarrow> a = b" for a b :: page_table
  by (cases a, cases b) (simp add: bt_eq_iff)

section \<open>Mapping a run of pages\<close>

definition page_at :: "virt_addr \<Rightarrow> nat \<Rightarrow> virt_addr" where
  "page_at vaddr i = vaddr + of_nat i * PAGE_SIZE"

lemma page_at_inject: "i < 2 ^ 52 \<Longrightarrow> j < 2 ^ 52 \<Longrightarrow> page_at v i = page_at v j \<longleftrightarrow> i = j"
proof -
  assume ij: "i < 2 ^ 52" "j < 2 ^ 52"
  have "unat (of_nat k * PAGE_SIZE) = k * 4096" if "k < 2 ^ 52" for k
    using that unat_of_nat_u64 [of "k * 4096"] by (simp add: PAGE_SIZE_def)
  then show ?thesis using ij unfolding page_at_def by (metis add_left_cancel mult_cancel_right zero_neq_numeral)
qed

lemma page_count_bound: "unat (div_ceil sz PAGE_SIZE) \<le> 2 ^ 52"
proof -
  have "1 < PAGE_SIZE" by (simp add: PAGE_SIZE_def)
  then have "unat (div_ceil sz PAGE_SIZE) = (unat sz + 4096 - 1) div 4096" by (simp add: unat_div_ceil)
  also have "\<dots> \<le> 2 ^ 52" using unat_u64_less [of sz] by simp
  finally show ?thesis .
qed

text \<open>Page \<open>js ! n\<close> of the run at \<open>v\<close> is mapped to \<open>frames ! n\<close>, a live single page.\<close>

definition backed ::
    "virt_addr \<Rightarrow> memory_access \<Rightarrow> nat list \<Rightarrow> phys_addr list \<Rightarrow> page_table \<Rightarrow> physical_allocator \<Rightarrow> bool" where
  "backed v acc js frames pt phys \<longleftrightarrow>
     distinct frames \<and>
     list_all2 (\<lambda>j f. bt_get (pt_mappings pt) (page_at v j) = Some \<lparr>map_phys = f, map_access = acc\<rparr>
       \<and> bt_get (pa_live_blocks phys) f = Some 0) js frames"

lemma map_loop_ok:
  assumes "map_loop v acc js pt phys = (pt', phys', Ok ())" and "phys_inv phys"
    and "distinct js" and "\<forall>j\<in>set js. j < 2 ^ 52"
  shows "\<exists>frames. backed v acc js frames pt' phys' \<and> (\<forall>f\<in>set frames. bt_get (pa_live_blocks phys) f = None)
     \<and> (\<forall>a. a \<notin> set frames \<longrightarrow> bt_get (pa_live_blocks phys') a = bt_get (pa_live_blocks phys) a)
     \<and> (\<forall>k. k \<notin> page_at v ` set js \<longrightarrow> bt_get (pt_mappings pt') k = bt_get (pt_mappings pt) k)
     \<and> phys_inv phys'"
  using assms
proof (induction js arbitrary: pt phys)
  case Nil
  then show ?case by (auto simp: backed_def)
next
  case (Cons j js)
  show ?case
  proof (rule allocate_cases [OF Cons.prems(2), of 0])
    fix fls a
    let ?phys = "phys\<lparr>pa_free_lists := fls, pa_live_blocks := bt_insert a 0 (pa_live_blocks phys)\<rparr>"
    let ?pt = "map_page (page_at v j) a acc pt"
    assume a: "allocate 0 phys = (?phys, Ok a)" "bt_get (pa_live_blocks phys) a = None" "phys_inv ?phys"
    have "map_loop v acc js ?pt ?phys = (pt', phys', Ok ())"
      using Cons.prems(1) a(1) by (simp add: page_at_def)
    from Cons.IH [OF this a(3)] Cons.prems(3,4) obtain frames where
      f: "backed v acc js frames pt' phys'" "\<forall>f\<in>set frames. bt_get (pa_live_blocks ?phys) f = None"
        "\<forall>b. b \<notin> set frames \<longrightarrow> bt_get (pa_live_blocks phys') b = bt_get (pa_live_blocks ?phys) b"
        "\<forall>k. k \<notin> page_at v ` set js \<longrightarrow> bt_get (pt_mappings pt') k = bt_get (pt_mappings ?pt) k"
        "phys_inv phys'" by auto
    have na: "a \<notin> set frames" using f(2) by auto
    have nj: "page_at v j \<notin> page_at v ` set js" using Cons.prems(3,4) by (auto simp: page_at_inject)
    have "backed v acc (j # js) (a # frames) pt' phys'" using f(1,3,4) na nj by (simp add: backed_def)
    moreover have "\<forall>f\<in>set (a # frames). bt_get (pa_live_blocks phys) f = None"
      using f(2) a(2) by (auto split: if_splits)
    moreover have "\<forall>b. b \<notin> set (a # frames) \<longrightarrow> bt_get (pa_live_blocks phys') b = bt_get (pa_live_blocks phys) b"
      using f(3) by simp
    moreover have "\<forall>k. k \<notin> page_at v ` set (j # js) \<longrightarrow> bt_get (pt_mappings pt') k = bt_get (pt_mappings pt) k"
      using f(4) by simp
    ultimately show ?thesis using f(5) by blast
  qed (use Cons.prems(1) in simp_all)
qed

lemma map_loop_err:
  assumes "map_loop v acc js pt phys = (pt', phys', Err e)" and "phys_inv phys"
  shows "e = OutOfMemory \<and> phys_inv phys' \<and> \<not> has_block_for 0 (pa_free_lists phys')
     \<and> (\<forall>k. k \<notin> page_at v ` set js \<longrightarrow> bt_get (pt_mappings pt') k = bt_get (pt_mappings pt) k)"
  using assms
proof (induction js arbitrary: pt phys)
  case (Cons j js)
  show ?case
  proof (rule allocate_cases [OF Cons.prems(2), of 0])
    fix fls a
    let ?phys = "phys\<lparr>pa_free_lists := fls, pa_live_blocks := bt_insert a 0 (pa_live_blocks phys)\<rparr>"
    assume a: "allocate 0 phys = (?phys, Ok a)" "phys_inv ?phys"
    then have "map_loop v acc js (map_page (page_at v j) a acc pt) ?phys = (pt', phys', Err e)"
      using Cons.prems(1) by (simp add: page_at_def)
    from Cons.IH [OF this a(2)] show ?thesis by auto
  qed (use Cons.prems in simp_all)
qed simp

lemma unmap_loop_ok:
  assumes "backed v acc js frames pt phys" and "phys_inv phys" and "distinct js" and "\<forall>j\<in>set js. j < 2 ^ 52"
  shows "\<exists>pt' phys'. unmap_loop v js pt phys = (pt', phys', Ok ())
     \<and> (\<forall>a. bt_get (pa_live_blocks phys') a = (if a \<in> set frames then None else bt_get (pa_live_blocks phys) a))
     \<and> (\<forall>k. bt_get (pt_mappings pt') k = (if k \<in> page_at v ` set js then None else bt_get (pt_mappings pt) k))
     \<and> phys_inv phys'"
  using assms
proof (induction js arbitrary: frames pt phys)
  case Nil
  then show ?case by (simp add: backed_def)
next
  case (Cons j js)
  then obtain f fs where fr: "frames = f # fs" by (auto simp: backed_def list_all2_Cons1)
  have jf: "bt_get (pt_mappings pt) (page_at v j) = Some \<lparr>map_phys = f, map_access = acc\<rparr>"
    "bt_get (pa_live_blocks phys) f = Some 0" "f \<notin> set fs" "distinct fs"
    using Cons.prems(1) fr by (auto simp: backed_def)
  let ?pt = "pt\<lparr>pt_mappings := bt_remove (page_at v j) (pt_mappings pt)\<rparr>"
  have nj: "page_at v j \<notin> page_at v ` set js" using Cons.prems(3,4) by (auto simp: page_at_inject)
  have nz: "page_at v z \<noteq> page_at v j" if "z \<in> set js" for z using nj that by (metis imageI)
  show ?case
  proof (rule deallocate_cases [OF Cons.prems(2), of f])
    fix fls k
    let ?phys = "phys\<lparr>pa_live_blocks := bt_remove f (pa_live_blocks phys), pa_free_lists := fls\<rparr>"
    assume d: "deallocate f phys = (?phys, Ok ())" "phys_inv ?phys"
    have la: "list_all2 (\<lambda>j g. bt_get (pt_mappings pt) (page_at v j) = Some \<lparr>map_phys = g, map_access = acc\<rparr>
       \<and> bt_get (pa_live_blocks phys) g = Some 0) js fs"
      using Cons.prems(1) fr by (simp add: backed_def)
    have "list_all2 (\<lambda>j g. bt_get (pt_mappings ?pt) (page_at v j) = Some \<lparr>map_phys = g, map_access = acc\<rparr>
       \<and> bt_get (pa_live_blocks ?phys) g = Some 0) js fs"
      by (rule list.rel_mono_strong [OF la]) (use nz jf(3) in auto)
    then have "backed v acc js fs ?pt ?phys" using jf(4) by (simp add: backed_def)
    from Cons.IH [OF this d(2)] Cons.prems(3,4) obtain pt' phys' where
      r: "unmap_loop v js ?pt ?phys = (pt', phys', Ok ())"
        "\<forall>a. bt_get (pa_live_blocks phys') a = (if a \<in> set fs then None else bt_get (pa_live_blocks ?phys) a)"
        "\<forall>k. bt_get (pt_mappings pt') k = (if k \<in> page_at v ` set js then None else bt_get (pt_mappings ?pt) k)"
        "phys_inv phys'" by auto
    have "unmap_loop v (j # js) pt phys = (pt', phys', Ok ())"
      using r(1) d(1) unmap_page_Some [OF jf(1)] by (simp add: page_at_def)
    moreover have "\<forall>a. bt_get (pa_live_blocks phys') a = (if a \<in> set frames then None else bt_get (pa_live_blocks phys) a)"
      using r(2) fr by simp
    moreover have "\<forall>k. bt_get (pt_mappings pt') k = (if k \<in> page_at v ` set (j # js) then None else bt_get (pt_mappings pt) k)"
      using r(3) by simp
    ultimately show ?thesis using r(4) by blast
  qed (use jf(2) in simp)
qed

text \<open>Both loops are clients of the allocator.\<close>

lemma map_loop_run: "map_loop v acc js pt phys = (pt', phys', r) \<Longrightarrow> \<exists>xs. phys' = alloc_run xs phys"
proof (induction js arbitrary: pt phys)
  case (Cons j js)
  have step: "\<exists>xs. phys' = alloc_run xs (fst (allocate 0 phys)) \<Longrightarrow> ?case"
    by (metis alloc_run.simps(2) alloc_step.simps(1))
  show ?case
  proof (cases "snd (allocate 0 phys)")
    case (Inl e)
    then have "phys' = alloc_run [] (fst (allocate 0 phys))" using Cons.prems by (simp add: case_prod_beta)
    then show ?thesis using step by blast
  next
    case (Inr a)
    then show ?thesis using Cons.prems by (intro step Cons.IH) (simp add: case_prod_beta)
  qed
qed (metis alloc_run.simps(1) map_loop.simps(1) prod.inject)

lemma unmap_loop_run: "unmap_loop v js pt phys = (pt', phys', r) \<Longrightarrow> \<exists>xs. phys' = alloc_run xs phys"
proof (induction js arbitrary: pt phys)
  case (Cons j js)
  show ?case
  proof (cases "snd (unmap_page (v + of_nat j * PAGE_SIZE) pt)")
    case (Inl e)
    then have "phys' = alloc_run [] phys" using Cons.prems by (simp add: case_prod_beta)
    then show ?thesis by blast
  next
    case (Inr a)
    have step: "\<exists>xs. phys' = alloc_run xs (fst (deallocate a phys)) \<Longrightarrow> ?thesis"
      by (metis alloc_run.simps(2) alloc_step.simps(2))
    show ?thesis
    proof (cases "snd (deallocate a phys)")
      case (Inl e)
      then have "phys' = alloc_run [] (fst (deallocate a phys))" using Cons.prems Inr by (simp add: case_prod_beta)
      then show ?thesis using step by blast
    next
      case (Inr u)
      then show ?thesis
        using Cons.prems \<open>snd (unmap_page _ _) = Ok a\<close> by (intro step Cons.IH) (simp add: case_prod_beta)
    qed
  qed
qed (metis alloc_run.simps(1) unmap_loop.simps(1) prod.inject)

lemma no_block_no_pages:
  assumes "phys_inv phys" and "\<not> has_block_for 0 (pa_free_lists phys)"
  shows "free_page_count phys = 0"
proof -
  have "\<forall>k\<le>MAX_ORDER. pa_free_lists phys ! k = []" using assms(2) by (auto simp: has_block_for_def)
  then show ?thesis using arena_length [OF phys_invD(1) [OF assms(1)]] by (simp add: free_page_count_nat)
qed

lemma run_indices: "distinct [0..<unat (div_ceil sz PAGE_SIZE)]" "\<forall>j\<in>set [0..<unat (div_ceil sz PAGE_SIZE)]. j < 2 ^ 52"
  using page_count_bound [of sz] by auto

lemma take_first_append:
  "\<forall>x\<in>set xs. \<not> P x \<Longrightarrow> P y \<Longrightarrow> take_first P (xs @ [y]) = Some (y, xs)"
  by (induction xs) auto

lemma allocate_virtual_denied:
  "snd (check_access (pmc_pid ctx) Memory ''heap'' (needed_permissions acc) now caps) \<noteq> Allowed \<Longrightarrow>
     allocate_virtual sz acc now ctx phys caps =
       (ctx, phys, fst (check_access (pmc_pid ctx) Memory ''heap'' (needed_permissions acc) now caps), Err CapabilityDenied)"
  by (simp add: allocate_virtual_def case_prod_beta)

lemma allocate_virtual_allowed:
  assumes "snd (check_access (pmc_pid ctx) Memory ''heap'' (needed_permissions acc) now caps) = Allowed"
    and "map_loop (pmc_next_addr ctx) acc [0..<unat (div_ceil sz PAGE_SIZE)] (pmc_page_table ctx) phys = (pt, phys', r)"
  shows "allocate_virtual sz acc now ctx phys caps =
    (case r of
       Inl e \<Rightarrow> (ctx\<lparr>pmc_page_table := pt\<rparr>, phys',
          fst (check_access (pmc_pid ctx) Memory ''heap'' (needed_permissions acc) now caps), Err e)
     | Inr u \<Rightarrow> (ctx\<lparr>pmc_page_table := pt, pmc_next_addr := pmc_next_addr ctx + div_ceil sz PAGE_SIZE * PAGE_SIZE,
          pmc_regions := pmc_regions ctx @ [\<lparr>reg_start = pmc_next_addr ctx, reg_end = pmc_next_addr ctx + sz, reg_access = acc\<rparr>]\<rparr>,
          phys', fst (check_access (pmc_pid ctx) Memory ''heap'' (needed_permissions acc) now caps), Ok (pmc_next_addr ctx)))"
  using assms by (cases r) (simp_all add: allocate_virtual_def case_prod_beta Let_def)

section \<open>Properties\<close>

text \<open>
  C9: Virtual allocation on every branch. Without a token that grants the process heap access in the requested mode the call is
  denied and neither the context nor the allocator changes. With one, the call either runs out of
  memory, and then no free page is left, the region list is unchanged, and the pages mapped before the failure stay
  allocated; or it returns the old heap end, and every page of the new region is mapped, with the requested
  access, to its own frame, a live single page that was not in use before.
\<close>

theorem allocate_virtual_outcome:
  assumes "phys_inv phys" and "allocate_virtual sz acc now ctx phys caps = (ctx', phys', caps', r)"
  shows "phys_inv phys' \<and> caps' = fst (check_access (pmc_pid ctx) Memory ''heap'' (needed_permissions acc) now caps) \<and>
    (if \<not> (\<exists>t\<in>held caps. grants t (pmc_pid ctx) Memory ''heap'' (needed_permissions acc) now)
     then r = Err CapabilityDenied \<and> ctx' = ctx \<and> phys' = phys
     else (r = Err OutOfMemory \<and> free_page_count phys' = 0
             \<and> pmc_regions ctx' = pmc_regions ctx \<and> pmc_next_addr ctx' = pmc_next_addr ctx)
        \<or> (r = Ok (pmc_next_addr ctx) \<and>
             pmc_regions ctx' = pmc_regions ctx @
               [\<lparr>reg_start = pmc_next_addr ctx, reg_end = pmc_next_addr ctx + sz, reg_access = acc\<rparr>] \<and>
             (\<exists>frames. backed (pmc_next_addr ctx) acc [0..<unat (div_ceil sz PAGE_SIZE)] frames (pmc_page_table ctx') phys'
                \<and> (\<forall>f\<in>set frames. bt_get (pa_live_blocks phys) f = None))))"
proof (cases "\<exists>t\<in>held caps. grants t (pmc_pid ctx) Memory ''heap'' (needed_permissions acc) now")
  case False
  then have "snd (check_access (pmc_pid ctx) Memory ''heap'' (needed_permissions acc) now caps) \<noteq> Allowed"
    by (simp add: decide_Allowed_iff)
  then show ?thesis using assms False by (auto simp: allocate_virtual_denied)
next
  case True
  then have al: "snd (check_access (pmc_pid ctx) Memory ''heap'' (needed_permissions acc) now caps) = Allowed"
    by (simp add: decide_Allowed_iff)
  obtain pt p1 r1 where m: "map_loop (pmc_next_addr ctx) acc [0..<unat (div_ceil sz PAGE_SIZE)] (pmc_page_table ctx) phys
      = (pt, p1, r1)" by (metis prod_cases3)
  note av = assms(2) [unfolded allocate_virtual_allowed [OF al m]]
  show ?thesis
  proof (cases r1)
    case (Inl e)
    then show ?thesis using av map_loop_err [OF m [unfolded Inl] assms(1)] no_block_no_pages True by auto
  next
    case (Inr u)
    then have "\<exists>frames. backed (pmc_next_addr ctx) acc [0..<unat (div_ceil sz PAGE_SIZE)] frames pt p1
        \<and> (\<forall>f\<in>set frames. bt_get (pa_live_blocks phys) f = None) \<and> phys_inv p1"
      using map_loop_ok [OF _ assms(1) run_indices] m by fastforce
    with Inr av True show ?thesis by auto
  qed
qed

theorem allocate_virtual_outcome_witness:
  "let rw = \<lparr>ma_read = True, ma_write = True, ma_execute = False, ma_user_accessible = True\<rparr>;
       caps = fst (issue 0 7 Memory ''heap'' (needed_permissions rw) 0 1000 new_broker);
       phys = new_allocator 0x1000 8; ctx = new_context 7 0x10000
   in case allocate_virtual 5000 rw 5 ctx phys caps of (ctx', phys', caps', r) \<Rightarrow>
        r = Ok 0x10000 \<and> (\<exists>frames. backed 0x10000 rw [0, 1] frames (pmc_page_table ctx') phys')"
proof -
  let ?rw = "\<lparr>ma_read = True, ma_write = True, ma_execute = False, ma_user_accessible = True\<rparr>"
  let ?caps = "fst (issue 0 7 Memory ''heap'' (needed_permissions ?rw) 0 1000 new_broker)"
  let ?av = "allocate_virtual 5000 ?rw 5 (new_context 7 0x10000) (new_allocator 0x1000 8) ?caps"
  obtain ctx' phys' caps' r where e: "?av = (ctx', phys', caps', r)" by (metis prod_cases4)
  have "snd (snd (snd ?av)) = Ok 0x10000" by code_simp
  then have ok: "r = Ok 0x10000" using e by simp
  have inv: "phys_inv (new_allocator 0x1000 8)" by (rule new_allocator_inv) simp
  have pages: "[0..<unat (div_ceil (5000::u64) PAGE_SIZE)] = [0, 1]" by code_simp
  show ?thesis
    using e ok allocate_virtual_outcome [OF inv e, unfolded pages]
    by (auto simp: new_context_def Let_def split: if_splits)
qed

text \<open>
  C10: Allocating a region and freeing it again is a round trip: if no region starts at the heap
  end and no page of the new range is mapped, then after a successful \<open>allocate_virtual\<close>
  the call \<open>deallocate_virtual\<close> on the returned address succeeds and restores the page table, the region
  list, the live blocks and the free-page count.
\<close>

theorem virtual_roundtrip:
  assumes "phys_inv phys" and "allocate_virtual sz acc now ctx phys caps = (ctx1, phys1, caps1, Ok v)"
    and "\<forall>rg\<in>set (pmc_regions ctx). reg_start rg \<noteq> pmc_next_addr ctx"
    and "\<forall>i<unat (div_ceil sz PAGE_SIZE). bt_get (pt_mappings (pmc_page_table ctx)) (page_at (pmc_next_addr ctx) i) = None"
  shows "\<exists>ctx2 phys2. deallocate_virtual v ctx1 phys1 = (ctx2, phys2, Ok ())
    \<and> pmc_page_table ctx2 = pmc_page_table ctx \<and> pmc_regions ctx2 = pmc_regions ctx
    \<and> pa_live_blocks phys2 = pa_live_blocks phys \<and> free_page_count phys2 = free_page_count phys"
proof -
  let ?v = "pmc_next_addr ctx" and ?js = "[0..<unat (div_ceil sz PAGE_SIZE)]"
  have al: "snd (check_access (pmc_pid ctx) Memory ''heap'' (needed_permissions acc) now caps) = Allowed"
    using assms(2) allocate_virtual_denied [of ctx acc now caps sz phys] by fastforce
  obtain pt p1 r1 where m: "map_loop ?v acc ?js (pmc_page_table ctx) phys = (pt, p1, r1)" by (metis prod_cases3)
  note av = assms(2) [unfolded allocate_virtual_allowed [OF al m]]
  then have r1: "r1 = Ok ()" and v: "v = ?v" and p1: "phys1 = p1" and pt1: "pmc_page_table ctx1 = pt"
    and rg: "pmc_regions ctx1 = pmc_regions ctx @ [\<lparr>reg_start = ?v, reg_end = ?v + sz, reg_access = acc\<rparr>]"
    by (auto split: sum.splits)
  obtain frames where f: "backed ?v acc ?js frames pt p1" "\<forall>f\<in>set frames. bt_get (pa_live_blocks phys) f = None"
    "\<forall>a. a \<notin> set frames \<longrightarrow> bt_get (pa_live_blocks p1) a = bt_get (pa_live_blocks phys) a"
    "\<forall>k. k \<notin> page_at ?v ` set ?js \<longrightarrow> bt_get (pt_mappings pt) k = bt_get (pt_mappings (pmc_page_table ctx)) k" "phys_inv p1"
    using map_loop_ok [OF m [unfolded r1] assms(1) run_indices] by blast
  obtain pt2 p2 where u: "unmap_loop ?v ?js pt p1 = (pt2, p2, Ok ())"
    "\<forall>a. bt_get (pa_live_blocks p2) a = (if a \<in> set frames then None else bt_get (pa_live_blocks p1) a)"
    "\<forall>k. bt_get (pt_mappings pt2) k = (if k \<in> page_at ?v ` set ?js then None else bt_get (pt_mappings pt) k)" "phys_inv p2"
    using unmap_loop_ok [OF f(1,5) run_indices] by blast
  have "take_first (\<lambda>r. reg_start r = v) (pmc_regions ctx1) =
      Some (\<lparr>reg_start = ?v, reg_end = ?v + sz, reg_access = acc\<rparr>, pmc_regions ctx)"
    unfolding rg v by (rule take_first_append) (use assms(3) in auto)
  then have d: "deallocate_virtual v ctx1 phys1 = (ctx1\<lparr>pmc_regions := pmc_regions ctx, pmc_page_table := pt2\<rparr>, p2, Ok ())"
    using u(1) by (simp add: deallocate_virtual_def p1 pt1 Let_def)
  have live: "pa_live_blocks p2 = pa_live_blocks phys" using u(2) f(2,3) by (simp add: bt_eq_iff)
  have "pt2 = pmc_page_table ctx"
    by (rule page_table_eqI) (use u(3) f(4) assms(4) in \<open>auto simp: image_iff\<close>)
  moreover have "free_page_count p2 = free_page_count phys"
  proof -
    have "pa_total_pages p2 = pa_total_pages phys"
      using map_loop_run [OF m] unmap_loop_run [OF u(1)] alloc_run_arena f(5) assms(1) by metis
    then show ?thesis
      using page_accounting [OF u(4)] page_accounting [OF assms(1)] live
      by (simp add: live_pages_def word_unat_eq_iff)
  qed
  ultimately show ?thesis using d live by auto
qed

theorem virtual_roundtrip_witness:
  "let rw = \<lparr>ma_read = True, ma_write = True, ma_execute = False, ma_user_accessible = True\<rparr>;
       caps = fst (issue 0 7 Memory ''heap'' (needed_permissions rw) 0 1000 new_broker);
       phys = new_allocator 0x1000 8; ctx = new_context 7 0x10000
   in case allocate_virtual 5000 rw 5 ctx phys caps of (ctx1, phys1, caps1, r) \<Rightarrow>
        \<exists>ctx2 phys2. deallocate_virtual 0x10000 ctx1 phys1 = (ctx2, phys2, Ok ())
          \<and> free_page_count phys2 = free_page_count phys \<and> pa_live_blocks phys2 = pa_live_blocks phys"
proof -
  let ?rw = "\<lparr>ma_read = True, ma_write = True, ma_execute = False, ma_user_accessible = True\<rparr>"
  let ?caps = "fst (issue 0 7 Memory ''heap'' (needed_permissions ?rw) 0 1000 new_broker)"
  let ?av = "allocate_virtual 5000 ?rw 5 (new_context 7 0x10000) (new_allocator 0x1000 8) ?caps"
  obtain ctx1 phys1 caps1 r where e: "?av = (ctx1, phys1, caps1, r)" by (metis prod_cases4)
  have "snd (snd (snd ?av)) = Ok 0x10000" by code_simp
  then have ok: "?av = (ctx1, phys1, caps1, Ok 0x10000)" using e by simp
  have inv: "phys_inv (new_allocator 0x1000 8)" by (rule new_allocator_inv) simp
  show ?thesis
    using ok virtual_roundtrip [OF inv ok] by (auto simp: new_context_def new_page_table_def Let_def)
qed

text \<open>
  C11: The page-fault handler on every branch. A fault outside every region is \<open>Unmapped\<close>, a
  write to a region without write access an \<open>AccessViolation\<close>, and neither changes anything. Any other
  fault either finds the allocator exhausted, or maps the faulting page, with the access of the first
  region that contains the address, to a frame that was not in use, and leaves every other page alone; read
  faults are served whatever access the region grants, although the comment on the function promises otherwise.
\<close>

theorem page_fault_outcome:
  assumes "phys_inv phys" and "handle_page_fault vaddr is_write ctx phys = (ctx', phys', r)"
  shows "phys_inv phys' \<and>
    (case find (\<lambda>rg. reg_start rg \<le> vaddr \<and> vaddr < reg_end rg) (pmc_regions ctx) of
       None \<Rightarrow> r = Err Unmapped \<and> ctx' = ctx \<and> phys' = phys
     | Some rg \<Rightarrow>
         if is_write \<and> \<not> ma_write (reg_access rg) then r = Err AccessViolation \<and> ctx' = ctx \<and> phys' = phys
         else (r = Err OutOfMemory \<and> ctx' = ctx \<and> phys' = phys \<and> free_page_count phys = 0)
            \<or> (r = Ok () \<and>
                 (\<exists>f. bt_get (pa_live_blocks phys) f = None \<and> bt_get (pa_live_blocks phys') f = Some 0
                    \<and> translate (vaddr - vaddr mod PAGE_SIZE) (reg_access rg) (pmc_page_table ctx') = Ok f
                    \<and> (\<forall>k. k \<noteq> vaddr - vaddr mod PAGE_SIZE \<longrightarrow>
                         bt_get (pt_mappings (pmc_page_table ctx')) k = bt_get (pt_mappings (pmc_page_table ctx)) k))))"
proof (cases "find (\<lambda>rg. reg_start rg \<le> vaddr \<and> vaddr < reg_end rg) (pmc_regions ctx)")
  case None
  then show ?thesis using assms by (auto simp: handle_page_fault_def)
next
  case (Some rg)
  show ?thesis
  proof (cases "is_write \<and> \<not> ma_write (reg_access rg)")
    case True
    then show ?thesis using assms Some by (auto simp: handle_page_fault_def)
  next
    case False
    show ?thesis
      by (rule allocate_cases [OF assms(1), of 0])
        (use assms Some False no_block_no_pages [OF assms(1)] in
          \<open>auto simp: handle_page_fault_def Let_def translate_def\<close>)
  qed
qed

theorem page_fault_outcome_witness:
  "let ro = \<lparr>ma_read = True, ma_write = False, ma_execute = False, ma_user_accessible = True\<rparr>;
       ctx = (new_context 7 0x10000)\<lparr>pmc_regions := [\<lparr>reg_start = 0x10000, reg_end = 0x12000, reg_access = ro\<rparr>]\<rparr>;
       phys = new_allocator 0x1000 8
   in case handle_page_fault 0x11234 False ctx phys of (ctx', phys', r) \<Rightarrow>
        r = Ok () \<and> (\<exists>f. bt_get (pa_live_blocks phys) f = None \<and> translate 0x11000 ro (pmc_page_table ctx') = Ok f)"
proof -
  let ?ro = "\<lparr>ma_read = True, ma_write = False, ma_execute = False, ma_user_accessible = True\<rparr>"
  let ?ctx = "(new_context 7 0x10000)\<lparr>pmc_regions := [\<lparr>reg_start = 0x10000, reg_end = 0x12000, reg_access = ?ro\<rparr>]\<rparr>"
  let ?pf = "handle_page_fault 0x11234 False ?ctx (new_allocator 0x1000 8)"
  obtain ctx' phys' r where e: "?pf = (ctx', phys', r)" by (metis prod_cases3)
  have "snd (snd ?pf) = Ok ()" by code_simp
  then have ok: "r = Ok ()" using e by simp
  have inv: "phys_inv (new_allocator 0x1000 8)" by (rule new_allocator_inv) simp
  have page: "(0x11234::u64) - 0x11234 mod PAGE_SIZE = 0x11000" by code_simp
  show ?thesis
    using e ok page_fault_outcome [OF inv e] by (auto simp: page Let_def)
qed

end
