(* ===== verification/Paging.thy ===== *)
theory Paging
  imports Virtual_Memory
begin

text \<open>
  The kernel's hardware page tables (\<open>paging.rs\<close>), the processor features that decide the flags of
  a mapping (\<open>cpu_features.rs\<close>), and the page fault handler (\<open>interrupts.rs\<close>).

  The mapper itself, \<open>OffsetPageTable\<close>, is a type of the \<open>x86_64\<close> crate: its
  \<open>map_to\<close> and \<open>unmap\<close> are arguments of the definitions here. What the kernel relies on is the
  locale \<open>hw_mapper\<close>: the documented effect of the two calls on the page-to-frame translation, and
  that \<open>map_to\<close> uses the frame allocator it is given only to draw frames, at most one for each of the three
  table levels above a 4 KiB page. A page and a frame are
  named by their first address. The interpretation \<open>walk\<close> shows that the laws are those of a real
  radix tree: translation tables for three levels, drawn from the allocator on demand, above the leaves
  of the \<open>PageTable\<close> of \<open>memory.rs\<close>.

  Console output, the flush of the translation cache and the locks around the two globals are not
  modelled: every function here runs to its end while it holds them.
\<close>

section \<open>Flags and processor features\<close>

record page_flags =
  fl_present :: bool
  fl_writable :: bool
  fl_user_accessible :: bool
  fl_no_execute :: bool

definition flags_empty :: page_flags where
  "flags_empty = \<lparr>fl_present = False, fl_writable = False, fl_user_accessible = False, fl_no_execute = False\<rparr>"

definition flags_or :: "page_flags \<Rightarrow> page_flags \<Rightarrow> page_flags" where
  "flags_or a b =
     \<lparr>fl_present = (fl_present a \<or> fl_present b), fl_writable = (fl_writable a \<or> fl_writable b),
      fl_user_accessible = (fl_user_accessible a \<or> fl_user_accessible b),
      fl_no_execute = (fl_no_execute a \<or> fl_no_execute b)\<rparr>"

definition present_writable :: page_flags where
  "present_writable = flags_empty\<lparr>fl_present := True, fl_writable := True\<rparr>"

text \<open>
  \<open>cpu_features::init\<close> reads two \<open>CPUID\<close> leaves and changes \<open>EFER\<close> and \<open>CR4\<close>; the three bits it
  manages are \<open>EFER.NXE\<close> (11), \<open>CR4.SMEP\<close> (20) and \<open>CR4.SMAP\<close> (21).
\<close>

record cpu_security_features =
  cf_nx :: bool
  cf_smep :: bool
  cf_smap :: bool

record cpu_control =
  cpu_efer :: u64
  cpu_cr4 :: u64
  NX_ENABLED :: bool

definition set_flag :: "nat \<Rightarrow> bool \<Rightarrow> u64 \<Rightarrow> u64" where
  "set_flag n b w = (if b then w OR push_bit n 1 else w AND NOT (push_bit n 1))"

definition cpu_features_init :: "u32 \<Rightarrow> u32 \<Rightarrow> cpu_control \<Rightarrow> cpu_control \<times> cpu_security_features" where
  "cpu_features_init edx_80000001 ebx_7 c =
     (let nx = edx_80000001 AND push_bit 20 1 \<noteq> 0;
          c = (if nx then c\<lparr>cpu_efer := set_flag 11 True (cpu_efer c)\<rparr> else c);
          c = c\<lparr>NX_ENABLED := nx\<rparr>;
          smep = ebx_7 AND push_bit 7 1 \<noteq> 0;
          smap = ebx_7 AND push_bit 20 1 \<noteq> 0;
          c = c\<lparr>cpu_cr4 := set_flag 21 smap (set_flag 20 smep (cpu_cr4 c))\<rparr>
      in (c, \<lparr>cf_nx = nx, cf_smep = smep, cf_smap = smap\<rparr>))"

definition nx_flag :: "cpu_control \<Rightarrow> page_flags" where
  "nx_flag c = (if NX_ENABLED c then flags_empty\<lparr>fl_no_execute := True\<rparr> else flags_empty)"

section \<open>Frame sources\<close>

text \<open>\<open>PhysFrame::containing_address\<close> and \<open>Page::containing_address\<close> round down to 4 KiB.\<close>

definition containing_address :: "u64 \<Rightarrow> u64" where
  "containing_address a = a AND NOT 0xFFF"

definition adapter_allocate_frame :: "physical_allocator \<Rightarrow> physical_allocator \<times> u64 option" where
  "adapter_allocate_frame phys =
     (case allocate 0 phys of
        (phys', Inl e) \<Rightarrow> (phys', None)
      | (phys', Inr addr) \<Rightarrow> (phys', Some (containing_address addr)))"

record bump_frame_allocator =
  bump_next :: u64

definition new_bump :: "u64 \<Rightarrow> bump_frame_allocator" where
  "new_bump start = \<lparr>bump_next = start\<rparr>"

definition bump_allocate_frame :: "bump_frame_allocator \<Rightarrow> bump_frame_allocator \<times> u64 option" where
  "bump_allocate_frame b =
     (let frame = containing_address (bump_next b)
      in (b\<lparr>bump_next := bump_next b + PAGE_SIZE\<rparr>, Some frame))"

section \<open>Mapping and unmapping\<close>

datatype map_to_error = FrameAllocationFailed | ParentEntryHugePage | PageAlreadyMapped
datatype unmap_error = UnmapParentEntryHugePage | PageNotMapped | InvalidFrameAddress

type_synonym 'fa allocate_frame = "'fa \<Rightarrow> 'fa \<times> u64 option"
type_synonym ('m, 'fa) map_to = "'fa allocate_frame \<Rightarrow> u64 \<Rightarrow> u64 \<Rightarrow> page_flags \<Rightarrow> 'm \<Rightarrow> 'fa \<Rightarrow> 'm \<times> 'fa \<times> (map_to_error, unit) result"
type_synonym 'm unmap = "u64 \<Rightarrow> 'm \<Rightarrow> 'm \<times> (unmap_error, u64) result"

definition map_page_with ::
    "('m, 'fa) map_to \<Rightarrow> 'fa allocate_frame \<Rightarrow> u64 \<Rightarrow> page_flags \<Rightarrow> 'm \<Rightarrow> 'fa
     \<Rightarrow> 'm \<times> 'fa \<times> (memory_error, u64) result" where
  "map_page_with map_to alloc vaddr flags mapper fa =
     (let page = containing_address vaddr
      in (case alloc fa of
            (fa1, None) \<Rightarrow> (mapper, fa1, Err OutOfMemory)
          | (fa1, Some frame) \<Rightarrow>
              (case map_to alloc page frame flags mapper fa1 of
                 (mapper1, fa2, Inr _) \<Rightarrow> (mapper1, fa2, Ok frame)
               | (mapper1, fa2, Inl _) \<Rightarrow> (mapper1, fa2, Err AccessViolation))))"

definition paging_map_page ::
    "('m, physical_allocator) map_to \<Rightarrow> u64 \<Rightarrow> page_flags \<Rightarrow> 'm \<Rightarrow> physical_allocator
     \<Rightarrow> 'm \<times> physical_allocator \<times> (memory_error, u64) result" where
  "paging_map_page map_to vaddr flags mapper phys =
     map_page_with map_to adapter_allocate_frame vaddr flags mapper phys"

definition map_page_to_frame ::
    "('m, 'fa) map_to \<Rightarrow> 'fa allocate_frame \<Rightarrow> u64 \<Rightarrow> u64 \<Rightarrow> page_flags \<Rightarrow> 'm \<Rightarrow> 'fa
     \<Rightarrow> 'm \<times> 'fa \<times> (memory_error, unit) result" where
  "map_page_to_frame map_to alloc vaddr frame flags mapper fa =
     (let page = containing_address vaddr
      in (case map_to alloc page frame flags mapper fa of
            (mapper1, fa1, Inr _) \<Rightarrow> (mapper1, fa1, Ok ())
          | (mapper1, fa1, Inl _) \<Rightarrow> (mapper1, fa1, Err AccessViolation)))"

definition paging_unmap_page ::
    "'m unmap \<Rightarrow> u64 \<Rightarrow> 'm \<Rightarrow> physical_allocator \<Rightarrow> 'm \<times> physical_allocator \<times> (memory_error, unit) result" where
  "paging_unmap_page unmap vaddr mapper phys =
     (let page = containing_address vaddr
      in (case unmap page mapper of
            (mapper1, Inr frame) \<Rightarrow> (case deallocate frame phys of (phys1, r) \<Rightarrow> (mapper1, phys1, r))
          | (mapper1, Inl _) \<Rightarrow> (mapper1, phys, Err AccessViolation)))"

section \<open>The globals\<close>

record 'm paging_globals =
  MAPPER :: "'m option"
  PHYS :: "physical_allocator option"
  PHYS_MEM_OFFSET :: "u64 option"
  PAGE_FAULTS_DEMAND_PAGED :: u64

definition phys_mem_offset :: "'m paging_globals \<Rightarrow> u64 option" where
  "phys_mem_offset g = PHYS_MEM_OFFSET g"

definition store_globals :: "'m \<Rightarrow> u64 \<Rightarrow> u64 \<Rightarrow> 'm paging_globals \<Rightarrow> 'm paging_globals" where
  "store_globals mapper region_start total_pages g =
     (let phys = new_allocator region_start total_pages
      in g\<lparr>MAPPER := Some mapper, PHYS := Some phys\<rparr>)"

definition with_phys ::
    "(physical_allocator \<Rightarrow> physical_allocator \<times> 'r) \<Rightarrow> 'm paging_globals \<Rightarrow> 'm paging_globals \<times> 'r option" where
  "with_phys f g =
     (case PHYS g of
        None \<Rightarrow> (g, None)
      | Some phys \<Rightarrow> (case f phys of (phys', r) \<Rightarrow> (g\<lparr>PHYS := Some phys'\<rparr>, Some r)))"

definition with_mapper_and_phys ::
    "('m \<Rightarrow> physical_allocator \<Rightarrow> 'm \<times> physical_allocator \<times> 'r) \<Rightarrow> 'm paging_globals
     \<Rightarrow> 'm paging_globals \<times> 'r option" where
  "with_mapper_and_phys f g =
     (case (MAPPER g, PHYS g) of
        (Some m, Some p) \<Rightarrow>
          (case f m p of (m', p', r) \<Rightarrow> (g\<lparr>MAPPER := Some m', PHYS := Some p'\<rparr>, Some r))
      | _ \<Rightarrow> (g, None))"

text \<open>
  The loop that the kernel heap and the task stacks share: one \<open>map_page\<close> for each address in turn, with the
  two \<open>expect\<close> calls (no globals yet, mapping failed) as \<open>None\<close>.
\<close>

fun map_pages ::
    "('m, physical_allocator) map_to \<Rightarrow> page_flags \<Rightarrow> u64 list \<Rightarrow> 'm paging_globals \<Rightarrow> 'm paging_globals option" where
  "map_pages map_to flags [] g = Some g"
| "map_pages map_to flags (vaddr # rest) g =
     (case with_mapper_and_phys (paging_map_page map_to vaddr flags) g of
        (g1, Some (Inr _)) \<Rightarrow> map_pages map_to flags rest g1
      | _ \<Rightarrow> None)"

section \<open>Demand paging\<close>

definition DEMAND_PAGE_REGION_START :: u64 where
  "DEMAND_PAGE_REGION_START = 0x555555550000"

definition DEMAND_PAGE_REGION_END :: u64 where
  "DEMAND_PAGE_REGION_END = DEMAND_PAGE_REGION_START + 4096"

datatype fault_outcome = Resumed | Panicked

definition page_fault_handler ::
    "('m, physical_allocator) map_to \<Rightarrow> cpu_control \<Rightarrow> u64 \<Rightarrow> 'm paging_globals \<Rightarrow> 'm paging_globals \<times> fault_outcome" where
  "page_fault_handler map_to cpu cr2 g =
     (let faulting_addr = cr2
      in if DEMAND_PAGE_REGION_START \<le> faulting_addr \<and> faulting_addr < DEMAND_PAGE_REGION_END then
           let page_vaddr = faulting_addr AND NOT 0xFFF;
               flags = flags_or present_writable (nx_flag cpu)
           in (case with_mapper_and_phys
                      (\<lambda>mapper phys. case paging_map_page map_to page_vaddr flags mapper phys of
                         (mapper', phys', r) \<Rightarrow> (mapper', phys', is_ok r)) g of
                 (g', mapped) \<Rightarrow>
                   if mapped = Some True
                   then (g'\<lparr>PAGE_FAULTS_DEMAND_PAGED := PAGE_FAULTS_DEMAND_PAGED g' + 1\<rparr>, Resumed)
                   else (g', Panicked))
         else (g, Panicked))"


section \<open>What the mapper promises\<close>

locale hw_mapper =
  fixes lookup :: "'m \<Rightarrow> u64 \<Rightarrow> (u64 \<times> page_flags) option"
    and map_to :: "('m, 'fa) map_to"
    and unmap :: "'m unmap"
  assumes map_to_ok: "map_to alloc page frame flags m fa = (m', fa', Ok ()) \<Longrightarrow>
      lookup m page = None \<and> lookup m' = (lookup m)(page \<mapsto> (frame, flags))"
    and map_to_err: "map_to alloc page frame flags m fa = (m', fa', Err e) \<Longrightarrow> lookup m' = lookup m"
    and map_to_draws: "map_to alloc page frame flags m fa = (m', fa', r) \<Longrightarrow> \<exists>n\<le>3. fa' = ((\<lambda>s. fst (alloc s)) ^^ n) fa"
    and unmap_mapped: "lookup m page = Some (frame, flags) \<Longrightarrow>
      \<exists>m'. unmap page m = (m', Ok frame) \<and> lookup m' = (lookup m)(page := None)"
    and unmap_unmapped: "lookup m page = None \<Longrightarrow> \<exists>m' e. unmap page m = (m', Err e) \<and> lookup m' = lookup m"
begin

lemma map_page_with_ok:
  assumes "map_page_with map_to alloc vaddr flags m fa = (m', fa', Ok frame)"
  shows "\<exists>fa1. \<exists>n\<le>3. alloc fa = (fa1, Some frame) \<and> fa' = ((\<lambda>s. fst (alloc s)) ^^ n) fa1"
    and "lookup m (containing_address vaddr) = None"
    and "lookup m' = (lookup m)(containing_address vaddr \<mapsto> (frame, flags))"
proof -
  from assms obtain fa1 where a: "alloc fa = (fa1, Some frame)"
    and t: "map_to alloc (containing_address vaddr) frame flags m fa1 = (m', fa', Ok ())"
    by (auto simp: map_page_with_def Let_def split: prod.splits option.splits sum.splits)
  show "\<exists>fa1. \<exists>n\<le>3. alloc fa = (fa1, Some frame) \<and> fa' = ((\<lambda>s. fst (alloc s)) ^^ n) fa1"
    using a map_to_draws [OF t] by blast
  show "lookup m (containing_address vaddr) = None"
    and "lookup m' = (lookup m)(containing_address vaddr \<mapsto> (frame, flags))"
    using map_to_ok [OF t] by blast+
qed

lemma map_page_with_err:
  assumes "map_page_with map_to alloc vaddr flags m fa = (m', fa', Err e)"
  shows "lookup m' = lookup m" and "\<exists>n. fa' = ((\<lambda>s. fst (alloc s)) ^^ n) fa"
    and "e = OutOfMemory \<or> e = AccessViolation"
proof -
  consider (none) fa1 where "alloc fa = (fa1, None)"
    | (fails) fa1 frame m1 fa2 e1 where "alloc fa = (fa1, Some frame)"
        "map_to alloc (containing_address vaddr) frame flags m fa1 = (m1, fa2, Err e1)"
    using assms by (auto simp: map_page_with_def Let_def split: prod.splits option.splits sum.splits)
  then have "lookup m' = lookup m \<and> (\<exists>n. fa' = ((\<lambda>s. fst (alloc s)) ^^ n) fa) \<and> (e = OutOfMemory \<or> e = AccessViolation)"
  proof cases
    case none
    then have "fa' = ((\<lambda>s. fst (alloc s)) ^^ 1) fa" "m' = m" "e = OutOfMemory"
      using assms by (auto simp: map_page_with_def Let_def)
    then show ?thesis by blast
  next
    case fails
    obtain n where n: "fa2 = ((\<lambda>s. fst (alloc s)) ^^ n) fa1" using map_to_draws [OF fails(2)] by blast
    have eqs: "m' = m1" "fa' = fa2" "e = AccessViolation"
      using assms by (auto simp: map_page_with_def Let_def fails)
    have "fa' = ((\<lambda>s. fst (alloc s)) ^^ Suc n) fa"
      using n eqs by (simp add: fails(1) funpow_Suc_right del: funpow.simps)
    then show ?thesis using map_to_err [OF fails(2)] eqs by blast
  qed
  then show "lookup m' = lookup m" and "\<exists>n. fa' = ((\<lambda>s. fst (alloc s)) ^^ n) fa"
    and "e = OutOfMemory \<or> e = AccessViolation" by blast+
qed

end

section \<open>An instance of the mapper\<close>

text \<open>
  Tables are identified by level and address prefix; a table that is missing on the path to a page is
  drawn from the allocator first. The leaves are those of the \<open>PageTable\<close> of \<open>memory.rs\<close>.
\<close>

record walk_mapper =
  wm_tables :: "(nat \<times> u64) list"
  wm_leaves :: page_table

definition access_of_flags :: "page_flags \<Rightarrow> memory_access" where
  "access_of_flags f = \<lparr>ma_read = fl_present f, ma_write = fl_writable f, ma_execute = (\<not> fl_no_execute f),
     ma_user_accessible = fl_user_accessible f\<rparr>"

definition flags_of_access :: "memory_access \<Rightarrow> page_flags" where
  "flags_of_access a = \<lparr>fl_present = ma_read a, fl_writable = ma_write a, fl_user_accessible = ma_user_accessible a,
     fl_no_execute = (\<not> ma_execute a)\<rparr>"

definition walk_lookup :: "walk_mapper \<Rightarrow> u64 \<Rightarrow> (u64 \<times> page_flags) option" where
  "walk_lookup m page =
     map_option (\<lambda>e. (map_phys e, flags_of_access (map_access e))) (bt_get (pt_mappings (wm_leaves m)) page)"

definition tables_of :: "u64 \<Rightarrow> (nat \<times> u64) list" where
  "tables_of page = [(3, page div 0x8000000000), (2, page div 0x40000000), (1, page div 0x200000)]"

fun draw_tables :: "'fa allocate_frame \<Rightarrow> (nat \<times> u64) list \<Rightarrow> (nat \<times> u64) list \<Rightarrow> 'fa \<Rightarrow> (nat \<times> u64) list \<times> 'fa \<times> bool" where
  "draw_tables alloc [] tables fa = (tables, fa, True)"
| "draw_tables alloc (i # is) tables fa =
     (if i \<in> set tables then draw_tables alloc is tables fa
      else (case alloc fa of
              (fa1, None) \<Rightarrow> (tables, fa1, False)
            | (fa1, Some _) \<Rightarrow> draw_tables alloc is (i # tables) fa1))"

definition walk_map_to :: "(walk_mapper, 'fa) map_to" where
  "walk_map_to alloc page frame flags m fa =
     (case draw_tables alloc (tables_of page) (wm_tables m) fa of
        (tables, fa1, False) \<Rightarrow> (m\<lparr>wm_tables := tables\<rparr>, fa1, Err FrameAllocationFailed)
      | (tables, fa1, True) \<Rightarrow>
          if bt_get (pt_mappings (wm_leaves m)) page \<noteq> None
          then (m\<lparr>wm_tables := tables\<rparr>, fa1, Err PageAlreadyMapped)
          else (m\<lparr>wm_tables := tables, wm_leaves := map_page page frame (access_of_flags flags) (wm_leaves m)\<rparr>, fa1, Ok ()))"

definition walk_unmap :: "walk_mapper unmap" where
  "walk_unmap page m =
     (case unmap_page page (wm_leaves m) of
        (_, Inl _) \<Rightarrow> (m, Err PageNotMapped)
      | (leaves, Inr frame) \<Rightarrow> (m\<lparr>wm_leaves := leaves\<rparr>, Ok frame))"

definition walk_new :: walk_mapper where
  "walk_new = \<lparr>wm_tables = [], wm_leaves = new_page_table\<rparr>"

lemma flags_access_roundtrip [simp]: "flags_of_access (access_of_flags f) = f"
  by (cases f) (simp add: flags_of_access_def access_of_flags_def)

lemma draw_tables_draws:
  "draw_tables alloc is tables fa = (tables', fa', b) \<Longrightarrow> \<exists>n\<le>length is. fa' = ((\<lambda>s. fst (alloc s)) ^^ n) fa"
proof (induction alloc "is" tables fa arbitrary: tables' fa' b rule: draw_tables.induct)
  case (1 alloc tables fa)
  then show ?case by (auto intro: exI [of _ 0])
next
  case (2 alloc i "is" tables fa)
  show ?case
  proof (cases "i \<in> set tables")
    case True
    then show ?thesis using 2 by (simp, metis le_SucI)
  next
    case False
    obtain fa1 r where a: "alloc fa = (fa1, r)" by (cases "alloc fa")
    have step: "\<exists>n\<le>length (i # is). fa' = ((\<lambda>s. fst (alloc s)) ^^ n) fa"
      if "fa' = ((\<lambda>s. fst (alloc s)) ^^ n) fa1" "n \<le> length is" for n
      using that a by (intro exI [of _ "Suc n"]) (simp add: funpow_Suc_right del: funpow.simps)
    show ?thesis
    proof (cases r)
      case None
      then show ?thesis using 2(3) False a step [of 0] by simp
    next
      case (Some f)
      then show ?thesis using 2(2) [OF False a [symmetric, unfolded Some]] 2(3) False a step by auto
    qed
  qed
qed

lemma length_tables_of: "length (tables_of page) = 3"
  by (simp add: tables_of_def)

interpretation walk: hw_mapper walk_lookup walk_map_to walk_unmap
proof
  fix alloc :: "'fa allocate_frame" and page frame flags m and fa :: 'fa and m' fa'
  show "walk_map_to alloc page frame flags m fa = (m', fa', Ok ()) \<Longrightarrow>
      walk_lookup m page = None \<and> walk_lookup m' = (walk_lookup m)(page \<mapsto> (frame, flags))"
    by (auto simp: walk_map_to_def walk_lookup_def fun_eq_iff split: prod.splits bool.splits if_splits)
  show "walk_map_to alloc page frame flags m fa = (m', fa', Err e) \<Longrightarrow> walk_lookup m' = walk_lookup m" for e
    by (auto simp: walk_map_to_def walk_lookup_def fun_eq_iff split: prod.splits bool.splits if_splits)
  show "walk_map_to alloc page frame flags m fa = (m', fa', r) \<Longrightarrow> \<exists>n\<le>3. fa' = ((\<lambda>s. fst (alloc s)) ^^ n) fa" for r
    by (auto simp: walk_map_to_def simp flip: length_tables_of [of page]
      split: prod.splits bool.splits if_splits dest!: draw_tables_draws)
  show "walk_lookup m page = Some (frame, flags) \<Longrightarrow>
      \<exists>m'. walk_unmap page m = (m', Ok frame) \<and> walk_lookup m' = (walk_lookup m)(page := None)"
    by (auto simp: walk_unmap_def unmap_page_def walk_lookup_def fun_eq_iff)
  show "walk_lookup m page = None \<Longrightarrow> \<exists>m' e. walk_unmap page m = (m', Err e) \<and> walk_lookup m' = walk_lookup m"
    by (auto simp: walk_unmap_def unmap_page_def walk_lookup_def)
qed

text \<open>Pages of the same 2 MiB share their tables, and a walk whose tables exist draws no frame.\<close>

lemma tables_of_same:
  assumes "unat a div 0x200000 = unat b div 0x200000"
  shows "tables_of a = tables_of b"
proof -
  have nest: "n div 0x40000000 = n div 0x200000 div 0x200" "n div 0x8000000000 = n div 0x200000 div 0x40000" for n :: nat
    by (simp_all add: div_mult2_eq [symmetric])
  show ?thesis by (simp add: tables_of_def word_unat_eq_iff unat_div nest assms)
qed

lemma draw_tables_present: "set is \<subseteq> set tables \<Longrightarrow> draw_tables alloc is tables fa = (tables, fa, True)"
  by (induction "is") simp_all

section \<open>Frames from the physical allocator\<close>

lemma unat_containing_address: "unat (containing_address a) = unat a div 4096 * 4096"
  using unat_align [of 12 a] by (simp add: containing_address_def mask_eq_exp_minus_1)

lemma containing_address_aligned: "4096 dvd unat a \<Longrightarrow> containing_address a = a"
  by (simp add: word_unat_eq_iff unat_containing_address)

lemma live_block_aligned:
  assumes "phys_inv s" and "4096 dvd unat (pa_base s)" and "bt_get (pa_live_blocks s) a = Some k"
  shows "containing_address a = a"
  using live_block_place(1) [OF assms(1,3)] assms(2) by (intro containing_address_aligned) simp

lemma adapter_fst: "fst (adapter_allocate_frame s) = alloc_step (Allocate 0) s"
  by (simp add: adapter_allocate_frame_def split: prod.splits sum.splits)

lemma adapter_Some:
  assumes "phys_inv s" and "4096 dvd unat (pa_base s)" and "adapter_allocate_frame s = (s', Some f)"
  shows "bt_get (pa_live_blocks s) f = None" and "bt_get (pa_live_blocks s') f = Some 0"
    and "phys_inv s'" and "pa_base s' = pa_base s"
    and "bt_get (pa_live_blocks s) a = Some k \<Longrightarrow> bt_get (pa_live_blocks s') a = Some k"
proof -
  show inv: "phys_inv s'" and base: "pa_base s' = pa_base s"
    using alloc_step_inv [OF assms(1), of "Allocate 0"] alloc_step_arena(1) [OF assms(1), of "Allocate 0"]
      adapter_fst [of s] assms(3) by simp_all
  from assms(3) obtain b where b: "allocate 0 s = (s', Ok b)" "f = containing_address b"
    by (auto simp: adapter_allocate_frame_def split: prod.splits sum.splits)
  have live: "bt_get (pa_live_blocks s) b = None" "pa_live_blocks s' = bt_insert b 0 (pa_live_blocks s)"
    by (rule allocate_cases [OF assms(1), of 0]; use b(1) in auto)+
  have "f = b" using live_block_aligned [OF inv, of b 0] base assms(2) live(2) b(2) by simp
  then show "bt_get (pa_live_blocks s) f = None" "bt_get (pa_live_blocks s') f = Some 0"
    and "bt_get (pa_live_blocks s) a = Some k \<Longrightarrow> bt_get (pa_live_blocks s') a = Some k"
    using live by auto
qed

lemma adapter_draws:
  assumes "phys_inv s" and "s' = ((\<lambda>s. fst (adapter_allocate_frame s)) ^^ n) s"
  shows "phys_inv s' \<and> pa_base s' = pa_base s \<and> pa_total_pages s' = pa_total_pages s
    \<and> (\<forall>a k. bt_get (pa_live_blocks s) a = Some k \<longrightarrow> bt_get (pa_live_blocks s') a = Some k)"
  using assms(2)
proof (induction n arbitrary: s')
  case 0
  then show ?case using assms(1) by simp
next
  case (Suc n)
  let ?s = "((\<lambda>s. fst (adapter_allocate_frame s)) ^^ n) s"
  note ih = Suc.IH [OF refl]
  have s': "s' = alloc_step (Allocate 0) ?s" using Suc.prems by (simp add: adapter_fst)
  have "bt_get (pa_live_blocks s') a = Some k" if "bt_get (pa_live_blocks ?s) a = Some k" for a k
    by (rule allocate_cases [OF ih [THEN conjunct1], of 0]) (use that s' in auto)
  moreover have "phys_inv ?s" using ih by blast
  ultimately show ?case using ih s' by (simp add: alloc_step_inv alloc_step_arena del: alloc_step.simps)
qed

lemma map_page_ok:
  assumes "hw_mapper lookup map_to unmap" and "phys_inv phys" and "4096 dvd unat (pa_base phys)"
    and "paging_map_page map_to vaddr flags m phys = (m1, phys1, Ok frame)"
  shows "lookup m (containing_address vaddr) = None"
    and "lookup m1 = (lookup m)(containing_address vaddr \<mapsto> (frame, flags))"
    and "bt_get (pa_live_blocks phys) frame = None" and "bt_get (pa_live_blocks phys1) frame = Some 0"
    and "phys_inv phys1" and "pa_base phys1 = pa_base phys" and "pa_total_pages phys1 = pa_total_pages phys"
    and "bt_get (pa_live_blocks phys) a = Some k \<Longrightarrow> bt_get (pa_live_blocks phys1) a = Some k"
proof -
  note ok = hw_mapper.map_page_with_ok [OF assms(1) assms(4) [unfolded paging_map_page_def]]
  show "lookup m (containing_address vaddr) = None"
    and "lookup m1 = (lookup m)(containing_address vaddr \<mapsto> (frame, flags))" by (rule ok(2,3))+
  obtain p n where p: "adapter_allocate_frame phys = (p, Some frame)"
    and n: "phys1 = ((\<lambda>s. fst (adapter_allocate_frame s)) ^^ n) p" using ok(1) by blast
  note a = adapter_Some [OF assms(2,3) p]
  note d = adapter_draws [OF a(3) n]
  show "bt_get (pa_live_blocks phys) frame = None" by (rule a(1))
  show "bt_get (pa_live_blocks phys1) frame = Some 0" using d a(2) by blast
  show "phys_inv phys1" "pa_base phys1 = pa_base phys" using d a(4) by simp_all
  show "pa_total_pages phys1 = pa_total_pages phys"
    using d alloc_step_arena(2) [OF assms(2), of "Allocate 0"] adapter_fst [of phys] p by simp
  show "bt_get (pa_live_blocks phys) a = Some k \<Longrightarrow> bt_get (pa_live_blocks phys1) a = Some k"
    using d a(5) by blast
qed

definition paging_ready :: "'m \<Rightarrow> physical_allocator \<Rightarrow> 'm paging_globals \<Rightarrow> bool" where
  "paging_ready m phys g \<longleftrightarrow>
     MAPPER g = Some m \<and> PHYS g = Some phys \<and> phys_inv phys \<and> 4096 dvd unat (pa_base phys)"

lemma map_pages_ok:
  assumes "hw_mapper lookup map_to unmap" and "map_pages map_to flags vs g = Some g'"
    and "paging_ready m phys g" and "\<forall>v \<in> set vs. 4096 dvd unat v"
  shows "\<exists>m' phys' frames. paging_ready m' phys' g' \<and> length frames = length vs \<and> distinct vs \<and> distinct frames
    \<and> lookup m' = lookup m ++ map_of (zip vs (map (\<lambda>f. (f, flags)) frames))
    \<and> (\<forall>v \<in> set vs. lookup m v = None)
    \<and> (\<forall>f \<in> set frames. bt_get (pa_live_blocks phys) f = None \<and> bt_get (pa_live_blocks phys') f = Some 0)
    \<and> (\<forall>a k. bt_get (pa_live_blocks phys) a = Some k \<longrightarrow> bt_get (pa_live_blocks phys') a = Some k)"
  using assms(2-)
proof (induction vs arbitrary: g m phys)
  case Nil
  then show ?case by (intro exI [of _ m] exI [of _ phys] exI [of _ "[]"]) simp
next
  case (Cons v vs)
  obtain m1 phys1 r where r: "paging_map_page map_to v flags m phys = (m1, phys1, r)" by (metis prod_cases3)
  let ?g1 = "g\<lparr>MAPPER := Some m1, PHYS := Some phys1\<rparr>"
  obtain frame where ro: "r = Ok frame" and rest: "map_pages map_to flags vs ?g1 = Some g'"
    using Cons.prems(1,2) r by (auto simp: with_mapper_and_phys_def paging_ready_def split: sum.splits)
  have pr: "phys_inv phys" "4096 dvd unat (pa_base phys)" using Cons.prems(2) by (simp_all add: paging_ready_def)
  have v: "containing_address v = v" using Cons.prems(3) by (simp add: containing_address_aligned)
  note ok = map_page_ok [OF assms(1) pr r [unfolded ro], unfolded v]
  have ready: "paging_ready m1 phys1 ?g1" using ok(5,6) pr(2) by (simp add: paging_ready_def)
  obtain m' phys' frames where ih: "paging_ready m' phys' g'" "length frames = length vs" "distinct vs" "distinct frames"
      "lookup m' = lookup m1 ++ map_of (zip vs (map (\<lambda>f. (f, flags)) frames))" "\<forall>v \<in> set vs. lookup m1 v = None"
      "\<forall>f \<in> set frames. bt_get (pa_live_blocks phys1) f = None \<and> bt_get (pa_live_blocks phys') f = Some 0"
      "\<forall>a k. bt_get (pa_live_blocks phys1) a = Some k \<longrightarrow> bt_get (pa_live_blocks phys') a = Some k"
    using Cons.IH [OF rest ready] Cons.prems(3) by auto
  have new: "v \<notin> set vs" "frame \<notin> set frames" using ih(6,7) ok(2,4) by auto
  have zip_v: "map_of (zip vs (map (\<lambda>f. (f, flags)) frames)) v = None"
    using new(1) by (auto simp: map_of_eq_None_iff dest: set_zip_leftD)
  have "lookup m' = lookup m ++ map_of (zip (v # vs) (map (\<lambda>f. (f, flags)) (frame # frames)))"
    using ih(5) ok(2) zip_v by (auto simp: fun_eq_iff map_add_def split: option.splits)
  moreover have "\<forall>w \<in> set (v # vs). lookup m w = None"
  proof
    fix w assume "w \<in> set (v # vs)"
    then show "lookup m w = None" using ok(1) ih(6) fun_cong [OF ok(2), of w] by (cases "w = v") simp_all
  qed
  moreover have "\<forall>f \<in> set (frame # frames). bt_get (pa_live_blocks phys) f = None \<and> bt_get (pa_live_blocks phys') f = Some 0"
  proof
    fix f assume "f \<in> set (frame # frames)"
    then consider "f = frame" | "f \<in> set frames" by auto
    then show "bt_get (pa_live_blocks phys) f = None \<and> bt_get (pa_live_blocks phys') f = Some 0"
    proof cases
      case 1
      then show ?thesis using ok(3,4) ih(8) by simp
    next
      case 2
      then show ?thesis using ih(7) ok(8) [of f] by (cases "bt_get (pa_live_blocks phys) f") auto
    qed
  qed
  moreover have "\<forall>a k. bt_get (pa_live_blocks phys) a = Some k \<longrightarrow> bt_get (pa_live_blocks phys') a = Some k"
    using ih(8) ok(8) by blast
  moreover have "length (frame # frames) = length (v # vs)" "distinct (v # vs)" "distinct (frame # frames)"
    using ih(2-4) new by simp_all
  ultimately show ?case using ih(1) by blast
qed

lemma map_add_zip:
  assumes "distinct vs" and "length frames = length vs"
  shows "i < length vs \<Longrightarrow> (f ++ map_of (zip vs (map (\<lambda>f. (f, flags)) frames))) (vs ! i) = Some (frames ! i, flags)"
    and "a \<notin> set vs \<Longrightarrow> (f ++ map_of (zip vs (map (\<lambda>f. (f, flags)) frames))) a = f a"
proof -
  have "map_of (zip vs (map (\<lambda>f. (f, flags)) frames)) (vs ! i) = Some (frames ! i, flags)" if "i < length vs"
    using assms that by (subst map_of_zip_nth) simp_all
  then show "i < length vs \<Longrightarrow> (f ++ map_of (zip vs (map (\<lambda>f. (f, flags)) frames))) (vs ! i) = Some (frames ! i, flags)"
    by (simp add: map_add_def)
  assume "a \<notin> set vs"
  then have "map_of (zip vs (map (\<lambda>f. (f, flags)) frames)) a = None"
    by (auto simp: map_of_eq_None_iff dest: set_zip_leftD)
  then show "(f ++ map_of (zip vs (map (\<lambda>f. (f, flags)) frames))) a = f a" by (simp add: map_add_def)
qed

text \<open>On the walk, a run of pages succeeds when the tables exist and the allocator has the frames.\<close>

fun frames_available :: "nat \<Rightarrow> physical_allocator \<Rightarrow> bool" where
  "frames_available 0 phys = True"
| "frames_available (Suc n) phys =
     (case adapter_allocate_frame phys of (phys', None) \<Rightarrow> False | (phys', Some _) \<Rightarrow> frames_available n phys')"

lemma walk_map_pages:
  assumes "MAPPER g = Some m" and "PHYS g = Some phys" and "distinct vs" and "frames_available (length vs) phys"
    and "\<forall>v \<in> set vs. containing_address v = v \<and> set (tables_of v) \<subseteq> set (wm_tables m) \<and> walk_lookup m v = None"
  shows "map_pages walk_map_to flags vs g \<noteq> None"
  using assms
proof (induction vs arbitrary: g m phys)
  case Nil
  then show ?case by simp
next
  case (Cons v vs)
  obtain phys' f where f: "adapter_allocate_frame phys = (phys', Some f)" and rest: "frames_available (length vs) phys'"
    using Cons.prems(4) by (auto split: prod.splits option.splits)
  let ?m = "m\<lparr>wm_leaves := map_page v f (access_of_flags flags) (wm_leaves m)\<rparr>"
  let ?g = "g\<lparr>MAPPER := Some ?m, PHYS := Some phys'\<rparr>"
  have "paging_map_page walk_map_to v flags m phys = (?m, phys', Ok f)"
    using Cons.prems(5) f
    by (simp add: paging_map_page_def map_page_with_def walk_map_to_def draw_tables_present walk_lookup_def Let_def)
  then have "with_mapper_and_phys (paging_map_page walk_map_to v flags) g = (?g, Some (Ok f))"
    using Cons.prems(1,2) by (simp add: with_mapper_and_phys_def)
  moreover have "\<forall>w \<in> set vs. containing_address w = w \<and> set (tables_of w) \<subseteq> set (wm_tables ?m) \<and> walk_lookup ?m w = None"
    using Cons.prems(3,5) by (auto simp: walk_lookup_def)
  then have "map_pages walk_map_to flags vs ?g \<noteq> None" using Cons.IH [of ?g ?m phys'] Cons.prems(3) rest by simp
  ultimately show ?case by simp
qed

lemma demand_page_base:
  assumes "DEMAND_PAGE_REGION_START \<le> a \<and> a < DEMAND_PAGE_REGION_END"
  shows "a AND NOT 0xFFF = DEMAND_PAGE_REGION_START"
proof -
  have "unat a div 4096 = 0x555555550"
    using assms by (intro div_nat_eqI)
      (simp_all add: DEMAND_PAGE_REGION_START_def DEMAND_PAGE_REGION_END_def word_le_nat_alt word_less_nat_alt)
  then have "unat (containing_address a) = unat DEMAND_PAGE_REGION_START"
    by (simp add: unat_containing_address DEMAND_PAGE_REGION_START_def)
  then show ?thesis by (simp add: containing_address_def word_unat_eq_iff)
qed

abbreviation data_flags :: "cpu_control \<Rightarrow> page_flags" where
  "data_flags cpu \<equiv> flags_or present_writable (nx_flag cpu)"

lemma data_flags_fields:
  "fl_present (data_flags cpu)" "fl_writable (data_flags cpu)" "\<not> fl_user_accessible (data_flags cpu)"
  "fl_no_execute (data_flags cpu) = NX_ENABLED cpu"
  by (simp_all add: flags_or_def present_writable_def nx_flag_def flags_empty_def)

lemma page_fault_unready:
  assumes "DEMAND_PAGE_REGION_START \<le> a \<and> a < DEMAND_PAGE_REGION_END"
    and "\<not> (\<exists>m phys. MAPPER g = Some m \<and> PHYS g = Some phys)"
  shows "page_fault_handler map_to cpu a g = (g, Panicked)"
  using assms by (auto simp: page_fault_handler_def with_mapper_and_phys_def split: option.splits)

lemma page_fault_ready:
  assumes "DEMAND_PAGE_REGION_START \<le> a \<and> a < DEMAND_PAGE_REGION_END"
    and "MAPPER g = Some m" and "PHYS g = Some phys"
    and "paging_map_page map_to DEMAND_PAGE_REGION_START (data_flags cpu) m phys = (m', phys', r)"
  shows "page_fault_handler map_to cpu a g =
    (let h = g\<lparr>MAPPER := Some m', PHYS := Some phys'\<rparr>
     in if is_ok r then (h\<lparr>PAGE_FAULTS_DEMAND_PAGED := PAGE_FAULTS_DEMAND_PAGED g + 1\<rparr>, Resumed) else (h, Panicked))"
proof -
  have "a AND NOT 0xFFF = DEMAND_PAGE_REGION_START" using assms(1) by (rule demand_page_base)
  then show ?thesis using assms by (auto simp: page_fault_handler_def with_mapper_and_phys_def Let_def)
qed

section \<open>Properties\<close>

text \<open>
  C22: \<open>map_page\<close> and \<open>unmap_page\<close> of the kernel are inverse. A page that \<open>map_page\<close> maps was
  unmapped, its frame was not in use and is in use afterwards, and the translation changes at that page
  only; \<open>unmap_page\<close> then succeeds, restores the translation, and returns exactly that frame to the physical
  allocator. (The mapper obeys its documented laws, and the allocator's region starts on a page boundary.)
\<close>
theorem map_unmap_roundtrip:
  assumes "hw_mapper lookup map_to unmap" and "phys_inv phys" and "4096 dvd unat (pa_base phys)"
    and "paging_map_page map_to vaddr flags m phys = (m1, phys1, Ok frame)"
  shows "lookup m1 = (lookup m)(containing_address vaddr \<mapsto> (frame, flags))
    \<and> bt_get (pa_live_blocks phys) frame = None \<and> bt_get (pa_live_blocks phys1) frame = Some 0
    \<and> (\<exists>m2 phys2. paging_unmap_page unmap vaddr m1 phys1 = (m2, phys2, Ok ()) \<and> lookup m2 = lookup m
         \<and> phys_inv phys2 \<and> (\<forall>a. bt_get (pa_live_blocks phys2) a =
              (if a = frame then None else bt_get (pa_live_blocks phys1) a)))"
proof -
  note ok = map_page_ok [OF assms]
  obtain m2 where u: "unmap (containing_address vaddr) m1 = (m2, Ok frame)"
    and l: "lookup m2 = (lookup m1)(containing_address vaddr := None)"
    using hw_mapper.unmap_mapped [OF assms(1)] ok(2) by (metis fun_upd_same)
  have "lookup m2 = lookup m" using l ok(1,2) by (auto simp: fun_eq_iff)
  moreover have "\<exists>phys2. deallocate frame phys1 = (phys2, Ok ()) \<and> phys_inv phys2
      \<and> (\<forall>a. bt_get (pa_live_blocks phys2) a = (if a = frame then None else bt_get (pa_live_blocks phys1) a))"
    by (rule deallocate_cases [OF ok(5), of frame]) (use ok(4) in auto)
  ultimately show ?thesis using ok(2-4) u by (auto simp: paging_unmap_page_def)
qed

definition sample_phys :: physical_allocator where
  "sample_phys = new_allocator 0x1000 8"

theorem map_unmap_roundtrip_witness:
  "case paging_map_page walk_map_to 0x555555550123 present_writable walk_new sample_phys of
     (m1, phys1, Inr frame) \<Rightarrow>
       walk_lookup m1 0x555555550000 = Some (frame, present_writable)
       \<and> (\<exists>m2 phys2. paging_unmap_page walk_unmap 0x555555550123 m1 phys1 = (m2, phys2, Ok ()))
   | _ \<Rightarrow> False"
proof -
  let ?r = "paging_map_page walk_map_to 0x555555550123 present_writable walk_new sample_phys"
  have ok: "is_ok (snd (snd ?r))" by code_simp
  then obtain m1 phys1 frame where r: "?r = (m1, phys1, Ok frame)" by (metis is_ok_iff prod.collapse)
  have "phys_inv sample_phys" unfolding sample_phys_def by (rule new_allocator_inv) simp
  moreover have "containing_address 0x555555550123 = 0x555555550000" by (simp add: containing_address_def)
  ultimately show ?thesis
    using map_unmap_roundtrip [OF walk.hw_mapper_axioms _ _ r] r by (auto simp: sample_phys_def)
qed


text \<open>
  C23: Demand paging. The handler resumes the faulting instruction only for an address of the demand-page
  region; then the page was unmapped, exactly that page is now mapped, to a frame nobody else
  uses, present and writable and never executable when the processor supports it, and the
  count of demand-paged faults has grown by one. In every other case it panics with the translation and the
  count unchanged, and outside the region nothing at all has changed.
\<close>
theorem demand_paging_outcome:
  assumes "hw_mapper lookup map_to unmap" and "page_fault_handler map_to cpu cr2 g = (g', out)"
    and "\<forall>phys. PHYS g = Some phys \<longrightarrow> phys_inv phys \<and> 4096 dvd unat (pa_base phys)"
  shows "(out = Resumed \<longrightarrow>
       DEMAND_PAGE_REGION_START \<le> cr2 \<and> cr2 < DEMAND_PAGE_REGION_END
       \<and> PAGE_FAULTS_DEMAND_PAGED g' = PAGE_FAULTS_DEMAND_PAGED g + 1
       \<and> (\<exists>m m' phys phys' frame flags. MAPPER g = Some m \<and> PHYS g = Some phys \<and> MAPPER g' = Some m' \<and> PHYS g' = Some phys'
            \<and> lookup m DEMAND_PAGE_REGION_START = None
            \<and> lookup m' = (lookup m)(DEMAND_PAGE_REGION_START \<mapsto> (frame, flags))
            \<and> fl_present flags \<and> fl_writable flags \<and> \<not> fl_user_accessible flags \<and> fl_no_execute flags = NX_ENABLED cpu
            \<and> bt_get (pa_live_blocks phys) frame = None \<and> bt_get (pa_live_blocks phys') frame = Some 0))
    \<and> (out = Panicked \<longrightarrow>
         PAGE_FAULTS_DEMAND_PAGED g' = PAGE_FAULTS_DEMAND_PAGED g
         \<and> map_option lookup (MAPPER g') = map_option lookup (MAPPER g)
         \<and> (\<not> (DEMAND_PAGE_REGION_START \<le> cr2 \<and> cr2 < DEMAND_PAGE_REGION_END) \<longrightarrow> g' = g))"
proof (cases "DEMAND_PAGE_REGION_START \<le> cr2 \<and> cr2 < DEMAND_PAGE_REGION_END")
  case False
  then show ?thesis using assms(2) by (auto simp: page_fault_handler_def)
next
  case True
  show ?thesis
  proof (cases "\<exists>m phys. MAPPER g = Some m \<and> PHYS g = Some phys")
    case False
    have "g' = g \<and> out = Panicked" using page_fault_unready [OF True False, of map_to cpu] assms(2) by simp
    then show ?thesis by simp
  next
    case ready: True
    then obtain m phys where mp: "MAPPER g = Some m" "PHYS g = Some phys" by blast
    obtain m' phys' r where r: "paging_map_page map_to DEMAND_PAGE_REGION_START (data_flags cpu) m phys = (m', phys', r)"
      by (metis prod_cases3)
    note g' = page_fault_ready [OF True mp r] assms(2)
    show ?thesis
    proof (cases r)
      case (Inl e)
      have "lookup m' = lookup m"
        by (rule hw_mapper.map_page_with_err(1) [OF assms(1) r [unfolded paging_map_page_def Inl]])
      then show ?thesis using g' Inl mp True by auto
    next
      case (Inr frame)
      have "containing_address DEMAND_PAGE_REGION_START = DEMAND_PAGE_REGION_START"
        by (simp add: containing_address_def DEMAND_PAGE_REGION_START_def)
      note ok = map_page_ok(1-4) [OF assms(1) _ _ r [unfolded Inr], unfolded this]
      have p: "phys_inv phys" "4096 dvd unat (pa_base phys)" using assms(3) mp(2) by auto
      have "MAPPER g' = Some m'" "PHYS g' = Some phys'" "out = Resumed"
        "PAGE_FAULTS_DEMAND_PAGED g' = PAGE_FAULTS_DEMAND_PAGED g + 1" using g' Inr by auto
      then show ?thesis using mp True data_flags_fields [of cpu] ok [OF p]
        by simp (rule exI [of _ frame], rule exI [of _ "data_flags cpu"], simp)
    qed
  qed
qed

theorem demand_paging_outcome_witness:
  "case page_fault_handler walk_map_to \<lparr>cpu_efer = 0, cpu_cr4 = 0, NX_ENABLED = True\<rparr> 0x555555550123
      \<lparr>MAPPER = Some walk_new, PHYS = Some sample_phys, PHYS_MEM_OFFSET = None, PAGE_FAULTS_DEMAND_PAGED = 0\<rparr> of
     (g', out) \<Rightarrow> out = Resumed \<and> PAGE_FAULTS_DEMAND_PAGED g' = 1"
proof -
  let ?r = "page_fault_handler walk_map_to \<lparr>cpu_efer = 0, cpu_cr4 = 0, NX_ENABLED = True\<rparr> 0x555555550123
      \<lparr>MAPPER = Some walk_new, PHYS = Some sample_phys, PHYS_MEM_OFFSET = None, PAGE_FAULTS_DEMAND_PAGED = 0\<rparr>"
  have "snd ?r = Resumed" by code_simp
  moreover have "phys_inv sample_phys" unfolding sample_phys_def by (rule new_allocator_inv) simp
  moreover obtain g' out where "?r = (g', out)" by (cases ?r)
  ultimately show ?thesis
    using demand_paging_outcome [OF walk.hw_mapper_axioms, of _ _ _ g' out] by (auto simp: sample_phys_def)
qed

end
