(* ===== verification/Kernel_Heap.thy ===== *)
theory Kernel_Heap
  imports Paging
begin

text \<open>
  Memory bring-up: the two phases of the kernel heap (\<open>allocator.rs\<close>) and the part of
  \<open>kernel_main\<close> that chooses the physical region, maps the bootstrap heap from a bump allocator and
  hands the rest of the region to the physical allocator (\<open>main.rs\<close>). The heap data structure is the
  \<open>linked_list_allocator\<close> crate; its \<open>init\<close>, \<open>top\<close> and \<open>extend\<close> are arguments. A failed
  \<open>expect\<close> is \<open>None\<close>.
\<close>

section \<open>The two phases\<close>

definition HEAP_BASE :: u64 where
  "HEAP_BASE = 0x444444440000"

definition BOOTSTRAP_HEAP_SIZE :: u64 where
  "BOOTSTRAP_HEAP_SIZE = 64 * 4096"

definition REAL_HEAP_SIZE :: u64 where
  "REAL_HEAP_SIZE = 256 * 4096"

fun bootstrap_loop ::
    "('m, bump_frame_allocator) map_to \<Rightarrow> page_flags \<Rightarrow> nat list \<Rightarrow> 'm \<Rightarrow> bump_frame_allocator
     \<Rightarrow> ('m \<times> bump_frame_allocator) option" where
  "bootstrap_loop map_to flags [] mapper b = Some (mapper, b)"
| "bootstrap_loop map_to flags (i # is) mapper b =
     (let vaddr = HEAP_BASE + of_nat i * PAGE_SIZE
      in (case map_page_with map_to bump_allocate_frame vaddr flags mapper b of
            (mapper1, b1, Inr _) \<Rightarrow> bootstrap_loop map_to flags is mapper1 b1
          | _ \<Rightarrow> None))"

definition init_bootstrap ::
    "('m, bump_frame_allocator) map_to \<Rightarrow> (u64 \<Rightarrow> u64 \<Rightarrow> 'h) \<Rightarrow> cpu_control \<Rightarrow> 'm \<Rightarrow> bump_frame_allocator
     \<Rightarrow> ('m \<times> bump_frame_allocator \<times> 'h) option" where
  "init_bootstrap map_to heap_init cpu mapper frame_allocator =
     (let flags = flags_or present_writable (nx_flag cpu);
          page_count = BOOTSTRAP_HEAP_SIZE div PAGE_SIZE
      in (case bootstrap_loop map_to flags [0..<unat page_count] mapper frame_allocator of
            None \<Rightarrow> None
          | Some (mapper1, b1) \<Rightarrow> Some (mapper1, b1, heap_init HEAP_BASE BOOTSTRAP_HEAP_SIZE)))"

definition extend_with_real_pages ::
    "('m, physical_allocator) map_to \<Rightarrow> ('h \<Rightarrow> u64) \<Rightarrow> (u64 \<Rightarrow> 'h \<Rightarrow> 'h) \<Rightarrow> cpu_control \<Rightarrow> 'h \<Rightarrow> 'm paging_globals
     \<Rightarrow> ('m paging_globals \<times> 'h) option" where
  "extend_with_real_pages map_to heap_top heap_extend cpu heap g =
     (let extend_start = heap_top heap;
          flags = flags_or present_writable (nx_flag cpu);
          page_count = REAL_HEAP_SIZE div PAGE_SIZE
      in (case map_pages map_to flags (map (\<lambda>i. extend_start + of_nat i * PAGE_SIZE) [0..<unat page_count]) g of
            None \<Rightarrow> None
          | Some g1 \<Rightarrow> Some (g1, heap_extend REAL_HEAP_SIZE heap)))"

section \<open>Choosing the region\<close>

record memory_region =
  mr_start :: u64
  mr_end :: u64
  mr_usable :: bool

text \<open>\<open>Iterator::max_by_key\<close> keeps the last of several maximal elements.\<close>

fun max_by_size :: "memory_region \<Rightarrow> memory_region list \<Rightarrow> memory_region" where
  "max_by_size best [] = best"
| "max_by_size best (r # rs) =
     max_by_size (if mr_end best - mr_start best \<le> mr_end r - mr_start r then r else best) rs"

definition largest_usable :: "memory_region list \<Rightarrow> memory_region option" where
  "largest_usable regions =
     (case filter mr_usable regions of [] \<Rightarrow> None | r # rs \<Rightarrow> Some (max_by_size r rs))"

definition total_pages_of :: "memory_region \<Rightarrow> u64" where
  "total_pages_of r = min ((mr_end r - mr_start r) div PAGE_SIZE) (push_bit 20 1)"

definition memory_bring_up ::
    "('m, bump_frame_allocator) map_to \<Rightarrow> ('m, physical_allocator) map_to
     \<Rightarrow> (u64 \<Rightarrow> u64 \<Rightarrow> 'h) \<Rightarrow> ('h \<Rightarrow> u64) \<Rightarrow> (u64 \<Rightarrow> 'h \<Rightarrow> 'h)
     \<Rightarrow> cpu_control \<Rightarrow> memory_region list \<Rightarrow> 'm \<Rightarrow> 'm paging_globals \<Rightarrow> ('m paging_globals \<times> 'h) option" where
  "memory_bring_up map_to_b map_to_p heap_init heap_top heap_extend cpu regions mapper g =
     (case largest_usable regions of
        None \<Rightarrow> None
      | Some r \<Rightarrow>
          let region_start = mr_start r;
              total_pages = total_pages_of r;
              bootstrap_pages = BOOTSTRAP_HEAP_SIZE div PAGE_SIZE;
              bump = new_bump region_start
          in (case init_bootstrap map_to_b heap_init cpu mapper bump of
                None \<Rightarrow> None
              | Some (mapper1, bump1, heap) \<Rightarrow>
                  let g1 = store_globals mapper1 (region_start + bootstrap_pages * PAGE_SIZE) (total_pages - bootstrap_pages) g
                  in extend_with_real_pages map_to_p heap_top heap_extend cpu heap g1))"

section \<open>Frames of the bump allocator\<close>

lemma bump_draws:
  "((\<lambda>s. fst (bump_allocate_frame s)) ^^ n) b = b\<lparr>bump_next := bump_next b + of_nat n * PAGE_SIZE\<rparr>"
  by (induction n) (simp_all add: bump_allocate_frame_def Let_def algebra_simps)

lemma bump_map_page:
  assumes "hw_mapper lookup map_to unmap"
    and "map_page_with map_to bump_allocate_frame vaddr flags m b = (m1, b1, Ok frame)"
    and "bump_next b = page_addr start n"
  shows "\<exists>k\<le>3. bump_next b1 = page_addr start (Suc n + k)"
    and "lookup m1 = (lookup m)(containing_address vaddr \<mapsto> (containing_address (page_addr start n), flags))"
proof -
  note ok = hw_mapper.map_page_with_ok [OF assms(1,2)]
  obtain b0 k where b0: "bump_allocate_frame b = (b0, Some frame)" and k: "k \<le> 3"
    and b1: "b1 = ((\<lambda>s. fst (bump_allocate_frame s)) ^^ k) b0" using ok(1) by blast
  have frame: "frame = containing_address (page_addr start n)"
    using b0 assms(3) by (auto simp: bump_allocate_frame_def)
  have "bump_next b0 = page_addr start (Suc n)"
    using b0 assms(3) by (auto simp: bump_allocate_frame_def page_addr_def PAGE_SIZE_def algebra_simps)
  then have "bump_next b1 = page_addr start (Suc n + k)"
    by (simp add: b1 bump_draws page_addr_def PAGE_SIZE_def algebra_simps)
  then show "\<exists>k\<le>3. bump_next b1 = page_addr start (Suc n + k)" using k by blast
  show "lookup m1 = (lookup m)(containing_address vaddr \<mapsto> (containing_address (page_addr start n), flags))"
    using ok(3) frame by simp
qed

lemma unat_heap_page: "i < 2 ^ 20 \<Longrightarrow> unat (page_at HEAP_BASE i) = 0x444444440000 + i * 4096"
  using unat_of_nat_u64 [of "i * 4096"]
  by (simp add: page_at_def HEAP_BASE_def PAGE_SIZE_def unat_add_u64)

lemma heap_page: "i < 2 ^ 20 \<Longrightarrow> containing_address (page_at HEAP_BASE i) = page_at HEAP_BASE i"
  by (intro containing_address_aligned) (simp add: unat_heap_page)

lemma bootstrap_loop_frames:
  assumes "hw_mapper lookup map_to unmap" and "bootstrap_loop map_to flags js m b = Some (m', b')"
    and "bump_next b = page_addr start n" and "distinct js" and "\<forall>j \<in> set js. j < 2 ^ 20"
  shows "\<exists>ns n'. length ns = length js \<and> bump_next b' = page_addr start n' \<and> n + length js \<le> n' \<and> n' \<le> n + 4 * length js
    \<and> (\<forall>k < length js. n + k \<le> ns ! k \<and> ns ! k + (length js - k) \<le> n'
         \<and> lookup m' (page_at HEAP_BASE (js ! k)) = Some (containing_address (page_addr start (ns ! k)), flags))
    \<and> (\<forall>a. a \<notin> page_at HEAP_BASE ` set js \<longrightarrow> lookup m' a = lookup m a)"
  using assms(2-)
proof (induction js arbitrary: m b n)
  case Nil
  then show ?case by (auto intro: exI [of _ n])
next
  case (Cons j js)
  obtain m1 b1 frame where s: "map_page_with map_to bump_allocate_frame (page_at HEAP_BASE j) flags m b = (m1, b1, Ok frame)"
    and rest: "bootstrap_loop map_to flags js m1 b1 = Some (m', b')"
    using Cons.prems(1) by (auto simp: page_at_def Let_def split: prod.splits sum.splits)
  note step = bump_map_page [OF assms(1) s Cons.prems(2)]
  obtain k where k: "k \<le> 3" "bump_next b1 = page_addr start (Suc n + k)" using step(1) by blast
  obtain ns n' where ih: "length ns = length js" "bump_next b' = page_addr start n'" "Suc n + k + length js \<le> n'" "n' \<le> Suc n + k + 4 * length js"
      "\<forall>i < length js. Suc n + k + i \<le> ns ! i \<and> ns ! i + (length js - i) \<le> n'
         \<and> lookup m' (page_at HEAP_BASE (js ! i)) = Some (containing_address (page_addr start (ns ! i)), flags)"
      "\<forall>a. a \<notin> page_at HEAP_BASE ` set js \<longrightarrow> lookup m' a = lookup m1 a"
    using Cons.IH [OF rest k(2)] Cons.prems(3,4) by auto
  have j: "containing_address (page_at HEAP_BASE j) = page_at HEAP_BASE j" using Cons.prems(4) by (simp add: heap_page)
  have fresh: "page_at HEAP_BASE j \<notin> page_at HEAP_BASE ` set js"
  proof
    assume "page_at HEAP_BASE j \<in> page_at HEAP_BASE ` set js"
    then obtain i where i: "i \<in> set js" "page_at HEAP_BASE j = page_at HEAP_BASE i" by blast
    have "j < 2 ^ 52" "i < 2 ^ 52" using Cons.prems(4) i(1) by (auto intro: less_trans)
    then have "j = i" using i(2) by (simp only: page_at_inject)
    then show False using i(1) Cons.prems(3) by simp
  qed
  have "lookup m' (page_at HEAP_BASE j) = Some (containing_address (page_addr start n), flags)"
    using ih(6) fresh step(2) j by simp
  moreover have "lookup m' a = lookup m a" if "a \<notin> page_at HEAP_BASE ` set (j # js)" for a
    using ih(6) that step(2) j by simp
  ultimately show ?case
    using ih(1-5) k(1) less_Suc_eq_0_disj
    by (intro exI [of _ "n # ns"] exI [of _ n']) (auto simp: nth_Cons split: nat.splits)
qed

text \<open>The frames of the bootstrap heap when all tables are drawn for its first page.\<close>

lemma init_bootstrap_frames:
  assumes "hw_mapper lookup map_to unmap" and "init_bootstrap map_to heap_init cpu m (new_bump start) = Some (m', b', heap)"
    and "map_page_with map_to bump_allocate_frame HEAP_BASE (data_flags cpu) m (new_bump start) = (m1, b1, Ok f)"
    and "bump_next b1 = page_addr start (1 + t)" and "bump_next b' = page_addr start (64 + t)" and "t \<le> 3" and "i < 64"
  shows "lookup m' (page_at HEAP_BASE i) = Some (containing_address (page_addr start (if i = 0 then 0 else i + t)), data_flags cpu)"
proof -
  let ?fl = "data_flags cpu"
  have n: "unat (BOOTSTRAP_HEAP_SIZE div PAGE_SIZE) = 64" by (simp add: BOOTSTRAP_HEAP_SIZE_def PAGE_SIZE_def)
  have l: "[0..<64::nat] = 0 # [1..<64]" by (simp add: upt_rec)
  have b0: "bump_next (new_bump start) = page_addr start 0" by (simp add: new_bump_def page_addr_def)
  have rest: "bootstrap_loop map_to ?fl [1..<64] m1 b1 = Some (m', b')"
    using assms(2,3) by (auto simp: init_bootstrap_def n l Let_def split: option.splits)
  note first = bump_map_page(2) [OF assms(1,3) b0]
  obtain ns n' where ns: "length ns = 63" "bump_next b' = page_addr start n'" "n' \<le> 1 + t + 4 * 63"
      "\<forall>k < 63. 1 + t + k \<le> ns ! k \<and> ns ! k + (63 - k) \<le> n'
         \<and> lookup m' (page_at HEAP_BASE ([1..<64] ! k)) = Some (containing_address (page_addr start (ns ! k)), ?fl)"
      "\<forall>a. a \<notin> page_at HEAP_BASE ` set [1..<64] \<longrightarrow> lookup m' a = lookup m1 a"
    using bootstrap_loop_frames [OF assms(1) rest assms(4)] by auto
  have "n' = 64 + t"
  proof -
    have "page_no start (page_addr start n') = page_no start (page_addr start (64 + t))" using ns(2) assms(5) by simp
    then show ?thesis using ns(3) assms(6) by (simp add: page_no_page_addr)
  qed
  show ?thesis
  proof (cases i)
    case 0
    have "page_at HEAP_BASE 0 \<notin> page_at HEAP_BASE ` set [1..<64]" by (auto simp: page_at_inject)
    moreover have "page_at HEAP_BASE 0 = HEAP_BASE" by (simp add: page_at_def)
    moreover have "containing_address HEAP_BASE = HEAP_BASE" using heap_page [of 0] by (simp add: page_at_def)
    ultimately show ?thesis using ns(5) first 0 by simp
  next
    case (Suc k)
    then have "ns ! k = i + t" "[1..<64] ! k = i" using ns(4) assms(7) \<open>n' = 64 + t\<close> by (auto dest: spec [of _ k])
    then show ?thesis using ns(4) Suc assms(7) by auto
  qed
qed

section \<open>Properties\<close>

text \<open>
  C24: Which frames the bootstrap heap is backed by, and which of them the kernel gives away. When
  \<open>init_bootstrap\<close> succeeds and \<open>map_to\<close> drew \<open>t\<close> frames for page tables (all for the
  first page), heap page \<open>i\<close> is mapped to frame \<open>i + t\<close> of the region (page 0 to frame 0). The
  physical allocator that \<open>kernel_main\<close> builds next skips only 64 frames, so exactly the heap pages
  \<open>i\<close> with \<open>64 \<le> i + t\<close> have their frame inside the allocator's region, where it is
  free to be handed out a second time; with no table drawn there are none.
\<close>
theorem bootstrap_frames_in_allocator:
  assumes "hw_mapper lookup map_to unmap" and "init_bootstrap map_to heap_init cpu m (new_bump start) = Some (m', b', heap)"
    and "map_page_with map_to bump_allocate_frame HEAP_BASE (data_flags cpu) m (new_bump start) = (m1, b1, Ok f)"
    and "bump_next b1 = page_addr start (1 + t)" and "bump_next b' = page_addr start (64 + t)" and "t \<le> 3"
    and "4096 dvd unat start" and "64 + t \<le> unat total_pages" and "unat start + unat total_pages * 4096 \<le> 2 ^ 64"
    and "PHYS (store_globals m' (start + BOOTSTRAP_HEAP_SIZE div PAGE_SIZE * PAGE_SIZE)
           (total_pages - BOOTSTRAP_HEAP_SIZE div PAGE_SIZE) g) = Some phys"
  shows "\<forall>i<64. \<exists>frame. lookup m' (page_at HEAP_BASE i) = Some (frame, data_flags cpu)
    \<and> unat frame = unat start + (if i = 0 then 0 else i + t) * 4096
    \<and> ((\<exists>p < unat (pa_total_pages phys). frame = page_addr (pa_base phys) p \<and> bt_get (pa_live_blocks phys) frame = None)
        \<longleftrightarrow> 0 < i \<and> 64 \<le> i + t)"
proof (intro allI impI)
  fix i :: nat assume i: "i < 64"
  let ?n = "if i = 0 then 0 else i + t"
  let ?f = "page_addr start ?n"
  have phys: "pa_base phys = page_addr start 64" "unat (pa_total_pages phys) = unat total_pages - 64" "pa_live_blocks phys = bt_empty"
    using assms(10) assms(8)
    by (auto simp: store_globals_def BOOTSTRAP_HEAP_SIZE_def PAGE_SIZE_def page_addr_def unat_sub word_le_nat_alt)
  have addr: "unat (page_addr start p) = unat start + p * 4096" if "p < unat total_pages" for p
    using unat_page_addr [OF assms(9) that] .
  have n: "?n < unat total_pages" using assms(8) i by auto
  have f: "unat ?f = unat start + ?n * 4096" by (rule addr [OF n])
  have "containing_address ?f = ?f" using f assms(7) by (intro containing_address_aligned) simp
  then have l: "lookup m' (page_at HEAP_BASE i) = Some (?f, data_flags cpu)"
    using init_bootstrap_frames [OF assms(1-6) i] by simp
  have sum: "page_addr (pa_base phys) p = page_addr start (64 + p)" for p
    by (simp add: phys(1) page_addr_def algebra_simps)
  have same: "?f = page_addr (pa_base phys) p \<longleftrightarrow> ?n = 64 + p" if "p < unat total_pages - 64" for p
  proof -
    have "unat (page_addr (pa_base phys) p) = unat start + (64 + p) * 4096"
      using addr [of "64 + p"] that by (simp add: sum)
    then show ?thesis by (simp only: word_unat_eq_iff f add_left_cancel mult_cancel2) simp
  qed
  have "(\<exists>p < unat (pa_total_pages phys). ?f = page_addr (pa_base phys) p \<and> bt_get (pa_live_blocks phys) ?f = None)
      \<longleftrightarrow> (\<exists>p < unat total_pages - 64. ?n = 64 + p)"
    by (simp only: phys(2,3) bt_get_empty simp_thms) (metis same)
  also have "\<dots> \<longleftrightarrow> 0 < i \<and> 64 \<le> i + t"
    using i n assms(8) by (auto simp: le_iff_add)
  finally show "\<exists>frame. lookup m' (page_at HEAP_BASE i) = Some (frame, data_flags cpu)
    \<and> unat frame = unat start + ?n * 4096
    \<and> ((\<exists>p < unat (pa_total_pages phys). frame = page_addr (pa_base phys) p \<and> bt_get (pa_live_blocks phys) frame = None)
        \<longleftrightarrow> 0 < i \<and> 64 \<le> i + t)"
    using l f by blast
qed


definition sample_cpu :: cpu_control where
  "sample_cpu = \<lparr>cpu_efer = 0, cpu_cr4 = 0, NX_ENABLED = True\<rparr>"

text \<open>The tables of the bootstrap heap are those of its first page, so that the walk draws no others.\<close>

lemma tables_of_heap:
  assumes "i < 64"
  shows "tables_of (page_at HEAP_BASE i) = tables_of HEAP_BASE"
proof (rule tables_of_same)
  have "(0x444444440000 + i * 4096) div 0x200000 = 0x2222222" using assms by (intro div_nat_eqI) simp_all
  moreover have "unat (page_at HEAP_BASE i) = 0x444444440000 + i * 4096" using assms by (simp add: unat_heap_page)
  moreover have "unat HEAP_BASE div 0x200000 = 0x2222222" by (simp add: HEAP_BASE_def)
  ultimately show "unat (page_at HEAP_BASE i) div 0x200000 = unat HEAP_BASE div 0x200000" by (simp only:)
qed

lemma walk_bootstrap:
  assumes "set (tables_of HEAP_BASE) \<subseteq> set (wm_tables m)" and "distinct js" and "\<forall>j \<in> set js. j < 64"
    and "\<forall>j \<in> set js. walk_lookup m (page_at HEAP_BASE j) = None"
  shows "\<exists>m'. bootstrap_loop walk_map_to flags js m b = Some (m', b\<lparr>bump_next := bump_next b + of_nat (length js) * PAGE_SIZE\<rparr>)"
  using assms
proof (induction js arbitrary: m b)
  case Nil
  then show ?case by simp
next
  case (Cons j js)
  let ?v = "page_at HEAP_BASE j" and ?b = "b\<lparr>bump_next := bump_next b + PAGE_SIZE\<rparr>"
  let ?m = "m\<lparr>wm_leaves := map_page ?v (containing_address (bump_next b)) (access_of_flags flags) (wm_leaves m)\<rparr>"
  have v: "containing_address ?v = ?v" "tables_of ?v = tables_of HEAP_BASE"
    using Cons.prems(3) by (simp_all add: heap_page tables_of_heap)
  have step: "map_page_with walk_map_to bump_allocate_frame ?v flags m b = (?m, ?b, Ok (containing_address (bump_next b)))"
    using Cons.prems(1,4)
    by (simp add: map_page_with_def bump_allocate_frame_def walk_map_to_def v draw_tables_present walk_lookup_def Let_def)
  have "\<forall>i \<in> set js. walk_lookup ?m (page_at HEAP_BASE i) = None"
    using Cons.prems(2-4) by (auto simp: walk_lookup_def page_at_inject)
  from Cons.IH [OF _ _ _ this, of ?b] Cons.prems show ?case
    using step by (auto simp: page_at_def Let_def algebra_simps)
qed

text \<open>On a region of 67 pages the first frame the new allocator hands out already backs a heap page.\<close>

theorem bootstrap_frames_in_allocator_witness:
  "case init_bootstrap walk_map_to (\<lambda>a n. ()) sample_cpu walk_new (new_bump 0x100000) of
     None \<Rightarrow> False
   | Some (m', _, _) \<Rightarrow>
       walk_lookup m' (page_at HEAP_BASE 63) = Some (page_addr 0x100000 66, data_flags sample_cpu)
       \<and> snd (allocate 0 (new_allocator 0x140000 3)) = Ok (page_addr 0x100000 66)"
proof -
  let ?i = "init_bootstrap walk_map_to (\<lambda>a n. ()) sample_cpu walk_new (new_bump 0x100000)"
  let ?p = "map_page_with walk_map_to bump_allocate_frame HEAP_BASE (data_flags sample_cpu) walk_new (new_bump 0x100000)"
  have "bump_next (fst (snd ?p)) = 0x104000 \<and> is_ok (snd (snd ?p)) \<and> set (tables_of HEAP_BASE) \<subseteq> set (wm_tables (fst ?p))"
    by code_simp
  then obtain m1 b1 f where p: "?p = (m1, b1, Ok f)" "bump_next b1 = 0x104000" "set (tables_of HEAP_BASE) \<subseteq> set (wm_tables m1)"
    by (metis is_ok_iff prod.collapse)
  have "walk_lookup m1 = [HEAP_BASE \<mapsto> (f, data_flags sample_cpu)]"
    using walk.map_page_with_ok(3) [OF p(1)] heap_page [of 0]
    by (simp add: walk_lookup_def walk_new_def new_page_table_def fun_eq_iff page_at_def)
  then have "\<forall>j \<in> set [1..<64]. walk_lookup m1 (page_at HEAP_BASE j) = None"
    using page_at_inject [of _ 0 HEAP_BASE] by (auto simp: page_at_def [of _ 0])
  then obtain m' where l: "bootstrap_loop walk_map_to (data_flags sample_cpu) [1..<64] m1 b1 =
      Some (m', b1\<lparr>bump_next := bump_next b1 + of_nat 63 * PAGE_SIZE\<rparr>)"
    using walk_bootstrap [OF p(3), of "[1..<64]" "data_flags sample_cpu" b1] by auto
  have "[0..<64::nat] = 0 # [1..<64]" by (simp add: upt_rec)
  then have i: "?i = Some (m', b1\<lparr>bump_next := 0x143000\<rparr>, ())"
    using l p(1,2) by (simp add: init_bootstrap_def BOOTSTRAP_HEAP_SIZE_def PAGE_SIZE_def)
  have w: "(0x104000::u64) = page_addr 0x100000 (1 + 3)"
    "bump_next (b1\<lparr>bump_next := 0x143000\<rparr>) = page_addr 0x100000 (64 + 3)" by (simp_all add: page_addr_def)
  have "snd (allocate 0 (new_allocator 0x140000 3)) = Ok 0x142000" by code_simp
  then have a: "snd (allocate 0 (new_allocator 0x140000 3)) = Ok (page_addr 0x100000 66)" by (simp add: page_addr_def)
  have lt: "(63::nat) < 64" by simp
  have small: "(3::nat) \<le> 3" "4096 dvd unat (0x100000::u64)" "64 + 3 \<le> unat (67::u64)"
    "unat (0x100000::u64) + unat (67::u64) * 4096 \<le> 2 ^ 64" by simp_all
  have phys: "PHYS (store_globals m' r n g) = Some (new_allocator r n)" for r n and g :: "walk_mapper paging_globals"
    by (simp add: store_globals_def)
  obtain frame where "walk_lookup m' (page_at HEAP_BASE 63) = Some (frame, data_flags sample_cpu)"
      "unat frame = unat (0x100000::u64) + (if (63::nat) = 0 then 0 else 63 + 3) * 4096"
    using bootstrap_frames_in_allocator [OF walk.hw_mapper_axioms i p(1) p(2) [unfolded w(1)] w(2) small phys, rule_format, OF lt]
    by blast
  moreover have "unat (page_addr 0x100000 66) = unat (0x100000::u64) + (63 + 3) * 4096" by (simp add: page_addr_def)
  ultimately have "walk_lookup m' (page_at HEAP_BASE 63) = Some (page_addr 0x100000 66, data_flags sample_cpu)"
    by (simp add: word_unat_eq_iff)
  then show ?thesis by (simp only: i a) simp
qed

end
