(* ===== verification/Task_Stack.thy ===== *)
theory Task_Stack
  imports Kernel_Heap
begin

text \<open>
  Guard-page-protected task stacks (\<open>task_stack.rs\<close>): eight slots of a guard page and sixteen stack
  pages each, mapped on first use. \<open>ensure_slot_mapped\<close> returns \<open>None\<close> where the code panics
  (index out of range, no globals, mapping failed).
\<close>

section \<open>Layout\<close>

definition MAX_SLOTS :: nat where
  "MAX_SLOTS = 8"

definition STACK_SIZE :: u64 where
  "STACK_SIZE = 64 * 1024"

definition STACK_PAGES :: u64 where
  "STACK_PAGES = STACK_SIZE div PAGE_SIZE"

definition GUARD_PAGES :: u64 where
  "GUARD_PAGES = 1"

definition SLOT_STRIDE :: u64 where
  "SLOT_STRIDE = (GUARD_PAGES + STACK_PAGES) * PAGE_SIZE"

definition REGION_BASE :: u64 where
  "REGION_BASE = 0x333333330000"

definition slot_guard_page_addr :: "nat \<Rightarrow> u64" where
  "slot_guard_page_addr slot = REGION_BASE + of_nat slot * SLOT_STRIDE"

definition slot_stack_base :: "nat \<Rightarrow> u64" where
  "slot_stack_base slot = slot_guard_page_addr slot + PAGE_SIZE"

definition ensure_slot_mapped ::
    "('m, physical_allocator) map_to \<Rightarrow> cpu_control \<Rightarrow> nat \<Rightarrow> 'm paging_globals \<Rightarrow> bool list
     \<Rightarrow> ('m paging_globals \<times> bool list \<times> u64) option" where
  "ensure_slot_mapped map_to cpu slot g mapped =
     (let stack_base = slot_stack_base slot
      in if length mapped \<le> slot then None
         else if \<not> mapped ! slot then
           let flags = flags_or present_writable (nx_flag cpu)
           in (case map_pages map_to flags (map (\<lambda>i. stack_base + of_nat i * PAGE_SIZE) [0..<unat STACK_PAGES]) g of
                 None \<Rightarrow> None
               | Some g1 \<Rightarrow> Some (g1, mapped[slot := True], stack_base + STACK_SIZE))
         else Some (g, mapped, stack_base + STACK_SIZE))"

text \<open>A run of calls, as successive spawns make them.\<close>

fun ensure_slots ::
    "('m, physical_allocator) map_to \<Rightarrow> cpu_control \<Rightarrow> nat list \<Rightarrow> 'm paging_globals \<Rightarrow> bool list
     \<Rightarrow> ('m paging_globals \<times> bool list) option" where
  "ensure_slots map_to cpu [] g mapped = Some (g, mapped)"
| "ensure_slots map_to cpu (s # ss) g mapped =
     (case ensure_slot_mapped map_to cpu s g mapped of
        None \<Rightarrow> None
      | Some (g1, mapped1, _) \<Rightarrow> ensure_slots map_to cpu ss g1 mapped1)"

section \<open>Pages of the region\<close>

lemma STACK_PAGES_eq [simp]: "unat STACK_PAGES = 16"
  by (simp add: STACK_PAGES_def STACK_SIZE_def PAGE_SIZE_def)

lemma SLOT_STRIDE_eq: "SLOT_STRIDE = 17 * PAGE_SIZE"
  by (simp add: SLOT_STRIDE_def GUARD_PAGES_def STACK_PAGES_def STACK_SIZE_def PAGE_SIZE_def)

lemma guard_page_at: "slot_guard_page_addr s = page_at REGION_BASE (17 * s)"
  by (simp add: slot_guard_page_addr_def page_at_def SLOT_STRIDE_eq algebra_simps)

lemma stack_page_at: "slot_stack_base s + of_nat k * PAGE_SIZE = page_at REGION_BASE (17 * s + 1 + k)"
  by (simp add: slot_stack_base_def guard_page_at page_at_def algebra_simps)

lemma unat_region_page: "p < 2 ^ 20 \<Longrightarrow> unat (page_at REGION_BASE p) = 0x333333330000 + p * 4096"
  using unat_of_nat_u64 [of "p * 4096"] by (simp add: page_at_def REGION_BASE_def PAGE_SIZE_def unat_add_u64)

lemma region_page_inject: "p < 136 \<Longrightarrow> q < 136 \<Longrightarrow> page_at REGION_BASE p = page_at REGION_BASE q \<longleftrightarrow> p = q"
  by (intro page_at_inject) simp_all

definition slot_pages :: "nat \<Rightarrow> u64 list" where
  "slot_pages s = map (\<lambda>k. page_at REGION_BASE (17 * s + 1 + k)) [0..<16]"

lemma slot_pages_eq: "map (\<lambda>i. slot_stack_base s + of_nat i * PAGE_SIZE) [0..<16] = slot_pages s"
  by (simp add: slot_pages_def stack_page_at)

lemma slot_page_index: "(\<exists>k<16. p = 17 * s + 1 + k) \<longleftrightarrow> p div 17 = s \<and> p mod 17 \<noteq> (0::nat)"
proof
  assume "\<exists>k<16. p = 17 * s + 1 + k"
  then obtain k where k: "k < 16" "p = s * 17 + (1 + k)" by auto
  then show "p div 17 = s \<and> p mod 17 \<noteq> 0" by (simp only: div_mult_self3 mod_mult_self3) simp
next
  assume "p div 17 = s \<and> p mod 17 \<noteq> 0"
  then have "p = 17 * s + 1 + (p mod 17 - 1)" "p mod 17 - 1 < 16" by auto
  then show "\<exists>k<16. p = 17 * s + 1 + k" by blast
qed

lemma in_slot_pages:
  assumes "s < 8" and "p < 136"
  shows "page_at REGION_BASE p \<in> set (slot_pages s) \<longleftrightarrow> p div 17 = s \<and> p mod 17 \<noteq> 0"
proof -
  have "page_at REGION_BASE p \<in> set (slot_pages s) \<longleftrightarrow> (\<exists>k<16. page_at REGION_BASE p = page_at REGION_BASE (17 * s + 1 + k))"
    by (auto simp: slot_pages_def image_iff)
  also have "\<dots> \<longleftrightarrow> (\<exists>k<16. p = 17 * s + 1 + k)"
    using assms by (intro ex_cong) (simp add: region_page_inject)
  finally show ?thesis by (simp only: slot_page_index)
qed

text \<open>
  The page tables agree with the \<open>MAPPED\<close> flags: of the 136 pages of the region exactly the stack
  pages of the mapped slots are mapped.
\<close>

definition stacks_inv :: "(u64 \<Rightarrow> 'a option) \<Rightarrow> bool list \<Rightarrow> bool" where
  "stacks_inv tr mapped \<longleftrightarrow> length mapped = MAX_SLOTS
     \<and> (\<forall>p < 136. tr (page_at REGION_BASE p) \<noteq> None \<longleftrightarrow> mapped ! (p div 17) \<and> p mod 17 \<noteq> 0)"

lemma flag_set: "xs ! i \<Longrightarrow> xs[i := True] = xs"
  by (metis (full_types) list_update_id)

lemma ensure_slot_mapped_flags:
  assumes "ensure_slot_mapped map_to cpu s g mapped = Some (g', mapped', t)"
  shows "s < length mapped" and "mapped' = mapped[s := True]" and "t = slot_stack_base s + STACK_SIZE"
  using assms
  by (cases "mapped ! s"; auto simp: ensure_slot_mapped_def Let_def flag_set split: if_splits option.splits)+

lemma ensure_slot_mapped_ok:
  assumes "hw_mapper lookup map_to unmap" and "paging_ready m phys g" and "stacks_inv (lookup m) mapped"
    and "ensure_slot_mapped map_to cpu s g mapped = Some (g', mapped', top_addr)"
  shows "\<exists>m' phys'. paging_ready m' phys' g' \<and> stacks_inv (lookup m') mapped'
      \<and> (\<forall>a. lookup m' a \<noteq> lookup m a \<longrightarrow> a \<in> set (slot_pages s) \<and> lookup m a = None)
      \<and> (\<forall>a k. bt_get (pa_live_blocks phys) a = Some k \<longrightarrow> bt_get (pa_live_blocks phys') a = Some k)"
    and "s < 8" and "mapped' = mapped[s := True]" and "top_addr = slot_stack_base s + STACK_SIZE"
proof -
  have len: "length mapped = 8" using assms(3) by (simp add: stacks_inv_def MAX_SLOTS_def)
  note flags = ensure_slot_mapped_flags [OF assms(4)]
  then show s: "s < 8" and m': "mapped' = mapped[s := True]" and "top_addr = slot_stack_base s + STACK_SIZE"
    using len by simp_all
  show "\<exists>m' phys'. paging_ready m' phys' g' \<and> stacks_inv (lookup m') mapped'
      \<and> (\<forall>a. lookup m' a \<noteq> lookup m a \<longrightarrow> a \<in> set (slot_pages s) \<and> lookup m a = None)
      \<and> (\<forall>a k. bt_get (pa_live_blocks phys) a = Some k \<longrightarrow> bt_get (pa_live_blocks phys') a = Some k)"
  proof (cases "mapped ! s")
    case True
    then have "g' = g" "mapped' = mapped" using assms(4) s len by (auto simp: ensure_slot_mapped_def Let_def)
    then show ?thesis using assms(2,3) by auto
  next
    case False
    have run: "map_pages map_to (data_flags cpu) (slot_pages s) g = Some g'"
      using assms(4) False s len by (auto simp: ensure_slot_mapped_def slot_pages_eq Let_def split: option.splits)
    have al: "\<forall>v \<in> set (slot_pages s). 4096 dvd unat v"
      using s by (auto simp: slot_pages_def unat_region_page)
    obtain m' phys' frames where ok: "paging_ready m' phys' g'" "length frames = length (slot_pages s)" "distinct (slot_pages s)"
        "lookup m' = lookup m ++ map_of (zip (slot_pages s) (map (\<lambda>f. (f, data_flags cpu)) frames))"
        "\<forall>v \<in> set (slot_pages s). lookup m v = None"
        "\<forall>a k. bt_get (pa_live_blocks phys) a = Some k \<longrightarrow> bt_get (pa_live_blocks phys') a = Some k"
      using map_pages_ok [OF assms(1) run assms(2) al] by blast
    have inside: "lookup m' a \<noteq> None" if "a \<in> set (slot_pages s)" for a
      using map_add_zip(1) [OF ok(3,2)] that by (metis in_set_conv_nth ok(4) option.distinct(1))
    have outside: "lookup m' a = lookup m a" if "a \<notin> set (slot_pages s)" for a
      using map_add_zip(2) [OF ok(3,2)] that by (simp add: ok(4))
    have "lookup m' (page_at REGION_BASE p) \<noteq> None \<longleftrightarrow> mapped' ! (p div 17) \<and> p mod 17 \<noteq> 0" if p: "p < 136" for p
    proof (cases "page_at REGION_BASE p \<in> set (slot_pages s)")
      case True
      then show ?thesis using inside in_slot_pages [OF s p] s len by (simp add: m')
    next
      case False
      have "p div 17 < 8" using p by linarith
      then have "mapped' ! (p div 17) \<and> p mod 17 \<noteq> 0 \<longleftrightarrow> mapped ! (p div 17) \<and> p mod 17 \<noteq> 0"
        using False in_slot_pages [OF s p] len by (auto simp: m' nth_list_update)
      then show ?thesis using outside [OF False] assms(3) p by (simp add: stacks_inv_def)
    qed
    then have "stacks_inv (lookup m') mapped'" using len by (simp add: stacks_inv_def m' MAX_SLOTS_def)
    then show ?thesis using ok(1,5,6) outside by blast
  qed
qed

lemma ensure_slots_ok:
  assumes "hw_mapper lookup map_to unmap" and "ensure_slots map_to cpu ss g mapped = Some (g', mapped')"
    and "paging_ready m phys g" and "stacks_inv (lookup m) mapped"
  shows "\<exists>m' phys'. paging_ready m' phys' g' \<and> stacks_inv (lookup m') mapped'
    \<and> (\<forall>s < 8. mapped' ! s \<longleftrightarrow> mapped ! s \<or> s \<in> set ss)"
  using assms(2-)
proof (induction ss arbitrary: g mapped m phys)
  case Nil
  then show ?case by auto
next
  case (Cons s ss)
  from Cons.prems(1) obtain g1 mapped1 t where e: "ensure_slot_mapped map_to cpu s g mapped = Some (g1, mapped1, t)"
    and rest: "ensure_slots map_to cpu ss g1 mapped1 = Some (g', mapped')"
    by (auto split: option.splits prod.splits)
  note ok = ensure_slot_mapped_ok [OF assms(1) Cons.prems(2,3) e]
  obtain m1 phys1 where "paging_ready m1 phys1 g1" "stacks_inv (lookup m1) mapped1" using ok(1) by blast
  then obtain m' phys' where "paging_ready m' phys' g'" "stacks_inv (lookup m') mapped'"
      "\<forall>i < 8. mapped' ! i \<longleftrightarrow> mapped1 ! i \<or> i \<in> set ss"
    using Cons.IH [OF rest] by blast
  moreover have "length mapped = 8" using Cons.prems(3) by (simp add: stacks_inv_def MAX_SLOTS_def)
  then have "mapped1 ! i \<longleftrightarrow> mapped ! i \<or> i = s" if "i < 8" for i using ok(2,3) that by (simp add: nth_list_update)
  ultimately show ?case by (intro exI [of _ m'] exI [of _ phys']) auto
qed

lemma guard_unmapped: "stacks_inv tr mapped \<Longrightarrow> s < 8 \<Longrightarrow> tr (slot_guard_page_addr s) = None"
  unfolding stacks_inv_def guard_page_at by (auto dest!: spec [of _ "17 * s"])

lemma stack_mapped: "stacks_inv tr mapped \<Longrightarrow> s < 8 \<Longrightarrow> k < 16 \<Longrightarrow>
    tr (slot_stack_base s + of_nat k * PAGE_SIZE) \<noteq> None \<longleftrightarrow> mapped ! s"
proof -
  assume inv: "stacks_inv tr mapped" and b: "s < 8" "k < 16"
  have "(17 * s + 1 + k) div 17 = s \<and> (17 * s + 1 + k) mod 17 \<noteq> 0" using b(2) slot_page_index by blast
  moreover have "17 * s + 1 + k < 136" using b by simp
  ultimately show ?thesis using inv unfolding stacks_inv_def stack_page_at by simp
qed

section \<open>Properties\<close>

text \<open>
  C25: Guard pages. Starting with none of the region mapped, after any sequence of
  \<open>ensure_slot_mapped\<close> calls that does not panic, the sixteen stack pages of a slot are mapped exactly when the
  slot has been used, and the guard page below every slot is unmapped. The slots do not
  overlap: the stack of each ends where the guard page of the next begins, the whole region is canonical
  (below \<open>2 ^ 47\<close>), and it meets none of the kernel's other fixed regions.
\<close>
theorem guard_pages_never_mapped:
  assumes "hw_mapper lookup map_to unmap" and "paging_ready m phys g"
    and "\<forall>p < 136. lookup m (page_at REGION_BASE p) = None"
    and "ensure_slots map_to cpu slots g (replicate MAX_SLOTS False) = Some (g', mapped')"
  shows "(\<exists>m' phys'. paging_ready m' phys' g'
       \<and> (\<forall>s < MAX_SLOTS. lookup m' (slot_guard_page_addr s) = None
            \<and> (\<forall>k < unat STACK_PAGES. lookup m' (slot_stack_base s + of_nat k * PAGE_SIZE) \<noteq> None \<longleftrightarrow> s \<in> set slots)))
    \<and> (\<forall>s < MAX_SLOTS. unat (slot_stack_base s) = unat (slot_guard_page_addr s) + 4096
         \<and> unat (slot_stack_base s) + unat STACK_SIZE = unat (slot_guard_page_addr (Suc s))
         \<and> unat (slot_guard_page_addr (Suc s)) < 2 ^ 47
         \<and> 0x111111111000 \<le> slot_guard_page_addr s \<and> slot_guard_page_addr (Suc s) \<le> HEAP_BASE
         \<and> HEAP_BASE + BOOTSTRAP_HEAP_SIZE + REAL_HEAP_SIZE \<le> DEMAND_PAGE_REGION_START)"
proof -
  have "stacks_inv (lookup m) (replicate MAX_SLOTS False)"
    using assms(3) by (auto simp: stacks_inv_def MAX_SLOTS_def nth_replicate)
  then obtain m' phys' where m': "paging_ready m' phys' g'" "stacks_inv (lookup m') mapped'"
      "\<forall>s < 8. mapped' ! s \<longleftrightarrow> s \<in> set slots"
    using ensure_slots_ok [OF assms(1,4,2)] by (auto simp: MAX_SLOTS_def)
  have base: "unat (slot_guard_page_addr s) = 0x333333330000 + s * 69632" if "s < 9" for s
    using that unat_region_page [of "17 * s"] by (simp add: guard_page_at)
  have stack: "unat (slot_stack_base s) = 0x333333330000 + s * 69632 + 4096" if "s < 9" for s
    using that unat_region_page [of "17 * s + 1"] stack_page_at [of s 0] by simp
  have "\<exists>m' phys'. paging_ready m' phys' g'
       \<and> (\<forall>s < MAX_SLOTS. lookup m' (slot_guard_page_addr s) = None
            \<and> (\<forall>k < unat STACK_PAGES. lookup m' (slot_stack_base s + of_nat k * PAGE_SIZE) \<noteq> None \<longleftrightarrow> s \<in> set slots))"
    using m'(1,3) guard_unmapped [OF m'(2)] stack_mapped [OF m'(2)]
    by (intro exI [of _ m'] exI [of _ phys']) (simp add: MAX_SLOTS_def)
  moreover have "unat (slot_stack_base s) = unat (slot_guard_page_addr s) + 4096
         \<and> unat (slot_stack_base s) + unat STACK_SIZE = unat (slot_guard_page_addr (Suc s))
         \<and> unat (slot_guard_page_addr (Suc s)) < 2 ^ 47
         \<and> 0x111111111000 \<le> slot_guard_page_addr s \<and> slot_guard_page_addr (Suc s) \<le> HEAP_BASE" if "s < 8" for s
    using that by (simp add: base stack word_le_nat_alt STACK_SIZE_def HEAP_BASE_def)
  moreover have "HEAP_BASE + BOOTSTRAP_HEAP_SIZE + REAL_HEAP_SIZE \<le> DEMAND_PAGE_REGION_START"
    by (simp add: HEAP_BASE_def BOOTSTRAP_HEAP_SIZE_def REAL_HEAP_SIZE_def DEMAND_PAGE_REGION_START_def)
  ultimately show ?thesis by (simp only: MAX_SLOTS_def) blast
qed


definition sample_globals :: "walk_mapper paging_globals" where
  "sample_globals = \<lparr>MAPPER = Some (walk_new\<lparr>wm_tables := tables_of REGION_BASE\<rparr>), PHYS = Some (new_allocator 0x100000 32),
     PHYS_MEM_OFFSET = None, PAGE_FAULTS_DEMAND_PAGED = 0\<rparr>"

lemma sample_globals_fields:
  "MAPPER sample_globals = Some (walk_new\<lparr>wm_tables := tables_of REGION_BASE\<rparr>)"
  "PHYS sample_globals = Some (new_allocator 0x100000 32)"
  by (simp_all add: sample_globals_def)

lemma sample_globals_ready:
  "paging_ready (walk_new\<lparr>wm_tables := tables_of REGION_BASE\<rparr>) (new_allocator 0x100000 32) sample_globals"
proof -
  have "phys_inv (new_allocator 0x100000 32)" by (rule new_allocator_inv) simp
  then show ?thesis by (simp add: paging_ready_def sample_globals_def)
qed

lemma walk_lookup_new: "walk_lookup (walk_new\<lparr>wm_tables := t\<rparr>) a = None"
  by (simp add: walk_lookup_def walk_new_def new_page_table_def)

lemma sample_slot_mapped: "ensure_slot_mapped walk_map_to cpu 1 sample_globals (replicate MAX_SLOTS False) \<noteq> None"
proof -
  have frames: "frames_available 16 (new_allocator 0x100000 32)" by code_simp
  have tables: "tables_of (page_at REGION_BASE p) = tables_of REGION_BASE" if "p < 136" for p
  proof (rule tables_of_same)
    have "(0x333333330000 + p * 4096) div 0x200000 = 0x1999999" using that by (intro div_nat_eqI) simp_all
    moreover have "unat (page_at REGION_BASE p) = 0x333333330000 + p * 4096" using that by (simp add: unat_region_page)
    moreover have "unat REGION_BASE div 0x200000 = 0x1999999" by (simp add: REGION_BASE_def)
    ultimately show "unat (page_at REGION_BASE p) div 0x200000 = unat REGION_BASE div 0x200000" by (simp only:)
  qed
  have "distinct (slot_pages 1)"
    by (auto simp: slot_pages_def distinct_map inj_on_def region_page_inject)
  moreover have "\<forall>v \<in> set (slot_pages 1). containing_address v = v \<and> set (tables_of v) \<subseteq> set (tables_of REGION_BASE)"
    by (auto simp: slot_pages_def tables unat_region_page intro!: containing_address_aligned)
  ultimately have "map_pages walk_map_to (data_flags cpu) (slot_pages 1) sample_globals \<noteq> None"
    using frames by (intro walk_map_pages [OF sample_globals_fields]) (simp_all add: walk_lookup_new slot_pages_def)
  then show ?thesis by (auto simp: ensure_slot_mapped_def slot_pages_eq MAX_SLOTS_def Let_def)
qed

theorem guard_pages_never_mapped_witness:
  "case ensure_slots walk_map_to sample_cpu [1] sample_globals (replicate MAX_SLOTS False) of
     None \<Rightarrow> False
   | Some (g', mapped') \<Rightarrow>
       (\<exists>m' phys'. paging_ready m' phys' g' \<and> walk_lookup m' (slot_guard_page_addr 1) = None
          \<and> walk_lookup m' (slot_stack_base 1 + of_nat 15 * PAGE_SIZE) \<noteq> None)"
proof -
  let ?r = "ensure_slots walk_map_to sample_cpu [1] sample_globals (replicate MAX_SLOTS False)"
  obtain g' mapped' where r: "?r = Some (g', mapped')" using sample_slot_mapped [of sample_cpu] by auto
  obtain m' phys' where m': "paging_ready m' phys' g'"
      "\<forall>s < MAX_SLOTS. walk_lookup m' (slot_guard_page_addr s) = None
          \<and> (\<forall>k < unat STACK_PAGES. walk_lookup m' (slot_stack_base s + of_nat k * PAGE_SIZE) \<noteq> None \<longleftrightarrow> s \<in> set [1])"
    using guard_pages_never_mapped [OF walk.hw_mapper_axioms sample_globals_ready _ r] walk_lookup_new by blast
  have "1 < MAX_SLOTS" "15 < unat STACK_PAGES" by (simp_all add: MAX_SLOTS_def)
  then have "walk_lookup m' (slot_guard_page_addr 1) = None \<and> walk_lookup m' (slot_stack_base 1 + of_nat 15 * PAGE_SIZE) \<noteq> None"
    using m'(2) by (metis list.set_intros(1))
  then show ?thesis using r m'(1) by auto
qed

end
