(* ===== verification/Kernel_Tasks.thy ===== *)
theory Kernel_Tasks
  imports Run_Queue Context Task_Stack
begin

text \<open>
  The preemptive scheduler of the kernel (\<open>scheduler_bridge.rs\<close>): the task pool, task creation and
  exit, the timer tick that acts on the decision of the run queue, and the choice of the
  address space. It composes the run queue (\<open>Run_Queue\<close>), the context switch (\<open>Context\<close>) and the
  guarded stacks (\<open>Task_Stack\<close>).

  The statics of the source are the fields of one record. Each function here runs with interrupts
  disabled, so each is one step; what the running task does between two steps is an arbitrary
  change of the machine. A call of \<open>switch_to\<close> pushes its return address, the argument \<open>ra\<close>;
  its stored stack pointer goes to the place \<open>context_ptr\<close> names. The addresses of
  \<open>task_trampoline\<close> and of the task's entry point are arguments too. \<open>None\<close> from
  \<open>spawn_task_impl\<close> is the panic of \<open>ensure_slot_mapped\<close>.
\<close>

section \<open>State\<close>

definition BOOT_PID :: u64 where
  "BOOT_PID = u64_max"

definition MAX_TASKS :: nat where
  "MAX_TASKS = MAX_SLOTS"

definition SWITCH_TICK_BUDGET :: u64 where
  "SWITCH_TICK_BUDGET = 400"

record task_slot =
  ts_pid :: "u64 option"
  ts_rsp :: u64
  ts_address_space :: "u64 option"

definition EMPTY :: task_slot where
  "EMPTY = \<lparr>ts_pid = None, ts_rsp = 0, ts_address_space = None\<rparr>"

record 'm kernel =
  TASK_SLOTS :: "task_slot list"
  BOOT_CONTEXT :: u64
  NEXT_PID :: u64
  SCHEDULER :: "run_queue option"
  CURRENT :: u64
  TICKS :: u64
  DEFAULT_L4_FRAME :: "u64 option"
  TASK_EXIT_SLOT :: "nat option"
  TASK_C_EXITED :: bool
  MAPPED :: "bool list"
  cr3 :: u64
  globals :: "'m paging_globals"
  cpu_state :: machine

text \<open>The statics before \<open>init\<close>.\<close>

definition boot_kernel :: "'m paging_globals \<Rightarrow> u64 \<Rightarrow> machine \<Rightarrow> 'm kernel" where
  "boot_kernel g l4 m =
     \<lparr>TASK_SLOTS = replicate MAX_TASKS EMPTY, BOOT_CONTEXT = 0, NEXT_PID = 0, SCHEDULER = None,
      CURRENT = BOOT_PID, TICKS = 0, DEFAULT_L4_FRAME = None, TASK_EXIT_SLOT = None, TASK_C_EXITED = False,
      MAPPED = replicate MAX_SLOTS False, cr3 = l4, globals = g, cpu_state = m\<rparr>"

section \<open>Operations\<close>

definition slot_index_for_pid :: "u64 \<Rightarrow> 'm kernel \<Rightarrow> nat option" where
  "slot_index_for_pid pid k = position (\<lambda>s. ts_pid s = Some pid) (TASK_SLOTS k)"

text \<open>The store through \<open>context_ptr\<close>.\<close>

definition store_context :: "u64 \<Rightarrow> u64 \<Rightarrow> 'm kernel \<Rightarrow> 'm kernel" where
  "store_context pid sp k =
     (if pid = BOOT_PID then k\<lparr>BOOT_CONTEXT := sp\<rparr>
      else (case position (\<lambda>s. ts_pid s = Some pid) (TASK_SLOTS k) of
              Some i \<Rightarrow> k\<lparr>TASK_SLOTS := (TASK_SLOTS k)[i := (TASK_SLOTS k ! i)\<lparr>ts_rsp := sp\<rparr>]\<rparr>
            | None \<Rightarrow> k\<lparr>BOOT_CONTEXT := sp\<rparr>))"

definition context_rsp :: "u64 \<Rightarrow> 'm kernel \<Rightarrow> u64" where
  "context_rsp pid k =
     (if pid = BOOT_PID then BOOT_CONTEXT k
      else (case find (\<lambda>s. ts_pid s = Some pid) (TASK_SLOTS k) of Some s \<Rightarrow> ts_rsp s | None \<Rightarrow> 0))"

definition spawn_task_impl ::
    "('m, physical_allocator) map_to \<Rightarrow> cpu_control \<Rightarrow> u64 \<Rightarrow> u64 \<Rightarrow> u64 option \<Rightarrow> 'm kernel
     \<Rightarrow> ('m kernel \<times> u64 option) option" where
  "spawn_task_impl map_to cpu trampoline entry address_space k =
     (let pid = NEXT_PID k;
          k = k\<lparr>NEXT_PID := pid + 1\<rparr>
      in (case position (\<lambda>s. ts_pid s = None) (TASK_SLOTS k) of
            None \<Rightarrow> Some (k, None)
          | Some free_index \<Rightarrow>
              (case ensure_slot_mapped map_to cpu free_index (globals k) (MAPPED k) of
                 None \<Rightarrow> None
               | Some (g, mapped, stack_top) \<Rightarrow>
                   let stack_base = stack_top - STACK_SIZE;
                       (memory, sp) = init_stack stack_base STACK_SIZE trampoline entry (mem (cpu_state k));
                       slot = \<lparr>ts_pid = Some pid, ts_rsp = sp, ts_address_space = address_space\<rparr>;
                       p = \<lparr>proc_pid = pid, proc_class = Normal, proc_state = Ready, proc_vruntime = 0\<rparr>
                   in Some (k\<lparr>globals := g, MAPPED := mapped, cpu_state := (cpu_state k)\<lparr>mem := memory\<rparr>,
                              TASK_SLOTS := (TASK_SLOTS k)[free_index := slot],
                              SCHEDULER := map_option (add_process p) (SCHEDULER k)\<rparr>, Some pid))))"

definition spawn_task ::
    "('m, physical_allocator) map_to \<Rightarrow> cpu_control \<Rightarrow> u64 \<Rightarrow> u64 \<Rightarrow> 'm kernel \<Rightarrow> ('m kernel \<times> u64 option) option" where
  "spawn_task map_to cpu trampoline entry k = spawn_task_impl map_to cpu trampoline entry None k"

definition spawn_task_with_address_space ::
    "('m, physical_allocator) map_to \<Rightarrow> cpu_control \<Rightarrow> u64 \<Rightarrow> u64 \<Rightarrow> u64 \<Rightarrow> 'm kernel \<Rightarrow> ('m kernel \<times> u64 option) option" where
  "spawn_task_with_address_space map_to cpu trampoline entry l4_frame k =
     spawn_task_impl map_to cpu trampoline entry (Some l4_frame) k"

definition desired_l4_frame :: "u64 \<Rightarrow> 'm kernel \<Rightarrow> u64 option" where
  "desired_l4_frame pid k =
     (let dflt = DEFAULT_L4_FRAME k
      in if pid = BOOT_PID then dflt
         else (case Option.bind (find (\<lambda>s. ts_pid s = Some pid) (TASK_SLOTS k)) ts_address_space of
                 Some f \<Rightarrow> Some f | None \<Rightarrow> dflt))"

definition switch_address_space_to :: "u64 \<Rightarrow> 'm kernel \<Rightarrow> 'm kernel" where
  "switch_address_space_to pid k =
     (case desired_l4_frame pid k of
        None \<Rightarrow> k
      | Some desired \<Rightarrow> (if cr3 k \<noteq> desired then k\<lparr>cr3 := desired\<rparr> else k))"

definition next_task :: "'m kernel \<Rightarrow> u64 \<Rightarrow> u64" where
  "next_task k now =
     (if SWITCH_TICK_BUDGET < now then BOOT_PID
      else (case Option.bind (SCHEDULER k) pick_next_task of Some p \<Rightarrow> p | None \<Rightarrow> BOOT_PID))"

definition exit_current_task :: "u64 \<Rightarrow> 'm kernel \<Rightarrow> 'm kernel" where
  "exit_current_task ra k =
     (let pid = CURRENT k;
          k = k\<lparr>SCHEDULER := map_option (\<lambda>rq. fst (remove_process pid rq)) (SCHEDULER k)\<rparr>;
          k = (case position (\<lambda>s. ts_pid s = Some pid) (TASK_SLOTS k) of
                 Some idx \<Rightarrow> k\<lparr>TASK_SLOTS := (TASK_SLOTS k)[idx := (TASK_SLOTS k ! idx)\<lparr>ts_pid := None\<rparr>],
                               TASK_EXIT_SLOT := Some idx\<rparr>
               | None \<Rightarrow> k);
          k = k\<lparr>TASK_C_EXITED := True\<rparr>;
          next_pid = next_task k (TICKS k);
          k = k\<lparr>CURRENT := next_pid\<rparr>;
          k = switch_address_space_to next_pid k;
          next_rsp = context_rsp next_pid k;
          (discard, m) = switch_to next_rsp (push ra (cpu_state k))
      in k\<lparr>cpu_state := m\<rparr>)"

definition on_timer_tick :: "u64 \<Rightarrow> 'm kernel \<Rightarrow> 'm kernel" where
  "on_timer_tick ra k =
     (let k = k\<lparr>TICKS := TICKS k + 1\<rparr>;
          now = TICKS k
      in (case SCHEDULER k of
            None \<Rightarrow> k
          | Some rq \<Rightarrow>
              let prev = CURRENT k;
                  next_pid = next_task k now;
                  k = (if prev \<noteq> BOOT_PID then k\<lparr>SCHEDULER := Some (update_vruntime prev 1 rq)\<rparr> else k)
              in if prev = next_pid then k
                 else
                   let k = k\<lparr>CURRENT := next_pid\<rparr>;
                       k = switch_address_space_to next_pid k;
                       next_rsp = context_rsp next_pid k;
                       (saved, m) = switch_to next_rsp (push ra (cpu_state k))
                   in store_context prev saved (k\<lparr>cpu_state := m\<rparr>)))"

definition tick_count :: "'m kernel \<Rightarrow> u64" where
  "tick_count k = TICKS k"

text \<open>
  \<open>init\<close>: the queue, the default address space, and four tasks, the last one bound to the
  address space that \<open>new_space\<close> builds (\<open>AddressSpace::new\<close>), if it does. A result the code
  ignores is ignored here.
\<close>

definition init_tasks ::
    "('m, physical_allocator) map_to \<Rightarrow> cpu_control \<Rightarrow> ('m paging_globals \<Rightarrow> 'm paging_globals \<times> u64 option)
     \<Rightarrow> u64 \<Rightarrow> u64 \<Rightarrow> u64 \<Rightarrow> u64 \<Rightarrow> u64 \<Rightarrow> 'm kernel \<Rightarrow> ('m kernel \<times> u64 option) option" where
  "init_tasks map_to cpu new_space trampoline task_a task_b task_c task_e k =
     (let k = k\<lparr>SCHEDULER := Some new_queue, DEFAULT_L4_FRAME := Some (cr3 k)\<rparr>
      in Option.bind (spawn_task map_to cpu trampoline task_a k) (\<lambda>(k, _).
         Option.bind (spawn_task map_to cpu trampoline task_b k) (\<lambda>(k, _).
         Option.bind (spawn_task map_to cpu trampoline task_c k) (\<lambda>(k, c).
         (case new_space (globals k) of
            (g, None) \<Rightarrow> Some (k\<lparr>globals := g\<rparr>, c)
          | (g, Some l4) \<Rightarrow>
              map_option (\<lambda>(k, _). (k, c)) (spawn_task_with_address_space map_to cpu trampoline task_e l4 (k\<lparr>globals := g\<rparr>)))))))"

section \<open>Executions\<close>

text \<open>
  After \<open>init\<close> the kernel is driven by spawns, ticks and exits in any order. Between them the
  running code changes the machine as it likes. The identifiers do not wrap: fewer than
  \<open>2 ^ 64 - 1\<close> tasks are ever spawned.
\<close>

inductive kernel_step :: "('m, physical_allocator) map_to \<Rightarrow> cpu_control \<Rightarrow> 'm kernel \<Rightarrow> 'm kernel \<Rightarrow> bool"
  for map_to :: "('m, physical_allocator) map_to" and cpu :: cpu_control where
  spawn: "NEXT_PID k \<noteq> BOOT_PID \<Longrightarrow> spawn_task_impl map_to cpu trampoline entry address_space k = Some (k', r)
      \<Longrightarrow> kernel_step map_to cpu k k'"
| tick: "kernel_step map_to cpu k (on_timer_tick ra k)"
| exit: "kernel_step map_to cpu k (exit_current_task ra k)"
| run: "kernel_step map_to cpu k (k\<lparr>cpu_state := m\<rparr>)"

inductive_cases kernel_stepE: "kernel_step map_to cpu k k'"

inductive kernel_steps :: "('m, physical_allocator) map_to \<Rightarrow> cpu_control \<Rightarrow> 'm kernel \<Rightarrow> 'm kernel \<Rightarrow> bool"
  for map_to :: "('m, physical_allocator) map_to" and cpu :: cpu_control where
  start: "kernel_steps map_to cpu k k"
| step: "kernel_steps map_to cpu k k' \<Longrightarrow> kernel_step map_to cpu k' k'' \<Longrightarrow> kernel_steps map_to cpu k k''"

section \<open>The pool invariant\<close>

definition live :: "'m kernel \<Rightarrow> u64 \<Rightarrow> bool" where
  "live k p \<longleftrightarrow> (\<exists>i < length (TASK_SLOTS k). ts_pid (TASK_SLOTS k ! i) = Some p)"

text \<open>
  Slots hold distinct identifiers below the counter and have their stack mapped; the run queue lists exactly the
  live tasks; the current task is live or the boot flow; the loaded address space is the one that task wants.
\<close>

definition pool_base :: "'m kernel \<Rightarrow> bool" where
  "pool_base k \<longleftrightarrow>
     length (TASK_SLOTS k) = MAX_TASKS \<and> length (MAPPED k) = MAX_SLOTS
     \<and> (\<forall>i < MAX_TASKS. \<forall>j < MAX_TASKS. \<forall>p. ts_pid (TASK_SLOTS k ! i) = Some p \<longrightarrow> ts_pid (TASK_SLOTS k ! j) = Some p \<longrightarrow> i = j)
     \<and> (\<forall>i < MAX_TASKS. \<forall>p. ts_pid (TASK_SLOTS k ! i) = Some p \<longrightarrow> p < NEXT_PID k \<and> MAPPED k ! i)
     \<and> (\<exists>rq. SCHEDULER k = Some rq \<and> rq_inv rq \<and> queued rq = {p. live k p})
     \<and> DEFAULT_L4_FRAME k \<noteq> None"

definition pool_inv :: "'m kernel \<Rightarrow> bool" where
  "pool_inv k \<longleftrightarrow> pool_base k \<and> (CURRENT k = BOOT_PID \<or> live k (CURRENT k))
     \<and> desired_l4_frame (CURRENT k) k = Some (cr3 k)"

lemma pool_baseD:
  assumes "pool_base k"
  shows "length (TASK_SLOTS k) = MAX_TASKS" and "length (MAPPED k) = MAX_SLOTS"
    and "i < MAX_TASKS \<Longrightarrow> j < MAX_TASKS \<Longrightarrow> ts_pid (TASK_SLOTS k ! i) = Some p \<Longrightarrow> ts_pid (TASK_SLOTS k ! j) = Some p \<Longrightarrow> i = j"
    and "i < MAX_TASKS \<Longrightarrow> ts_pid (TASK_SLOTS k ! i) = Some p \<Longrightarrow> p < NEXT_PID k"
    and "i < MAX_TASKS \<Longrightarrow> ts_pid (TASK_SLOTS k ! i) = Some p \<Longrightarrow> MAPPED k ! i"
    and "\<exists>rq. SCHEDULER k = Some rq \<and> rq_inv rq \<and> queued rq = {p. live k p}"
    and "DEFAULT_L4_FRAME k \<noteq> None"
  using assms unfolding pool_base_def by blast+

lemma live_slot: "live k p \<longleftrightarrow> slot_index_for_pid p k \<noteq> None"
  unfolding live_def slot_index_for_pid_def position_None by (metis in_set_conv_nth)

lemma live_below: "pool_base k \<Longrightarrow> live k p \<Longrightarrow> p < NEXT_PID k"
  using pool_baseD(1,4) by (fastforce simp: live_def)

lemma below_not_boot: "p < q \<Longrightarrow> p \<noteq> BOOT_PID"
  by (auto simp: BOOT_PID_def u64_max_def not_less [symmetric])

subsection \<open>Searching the slots\<close>

lemma find_update_other:
  "i < length xs \<Longrightarrow> \<not> P (xs ! i) \<Longrightarrow> \<not> P e \<Longrightarrow> find P (xs[i := e]) = find P xs"
  by (induction xs arbitrary: i) (auto split: nat.splits)

lemma desired_cong:
  assumes "DEFAULT_L4_FRAME k' = DEFAULT_L4_FRAME k"
    and "pid \<noteq> BOOT_PID \<Longrightarrow> Option.bind (find (\<lambda>s. ts_pid s = Some pid) (TASK_SLOTS k')) ts_address_space =
      Option.bind (find (\<lambda>s. ts_pid s = Some pid) (TASK_SLOTS k)) ts_address_space"
  shows "desired_l4_frame pid k' = desired_l4_frame pid k"
  using assms by (simp add: desired_l4_frame_def Let_def)

lemma desired_Some: "DEFAULT_L4_FRAME k \<noteq> None \<Longrightarrow> desired_l4_frame pid k \<noteq> None"
  by (auto simp: desired_l4_frame_def Let_def split: option.splits)

lemma switch_address_space_eq:
  "switch_address_space_to pid k = (case desired_l4_frame pid k of None \<Rightarrow> k | Some f \<Rightarrow> k\<lparr>cr3 := f\<rparr>)"
  by (cases k) (auto simp: switch_address_space_to_def split: option.splits)

subsection \<open>A switch keeps the pool\<close>

text \<open>What the invariant sees of a state.\<close>

definition same_pool :: "'m kernel \<Rightarrow> 'm kernel \<Rightarrow> bool" where
  "same_pool k k' \<longleftrightarrow>
     map (\<lambda>s. (ts_pid s, ts_address_space s)) (TASK_SLOTS k') = map (\<lambda>s. (ts_pid s, ts_address_space s)) (TASK_SLOTS k)
     \<and> MAPPED k' = MAPPED k \<and> NEXT_PID k' = NEXT_PID k \<and> DEFAULT_L4_FRAME k' = DEFAULT_L4_FRAME k"

lemma same_pool_slots:
  assumes "same_pool k k'"
  shows "length (TASK_SLOTS k') = length (TASK_SLOTS k)"
    and "i < length (TASK_SLOTS k) \<Longrightarrow> ts_pid (TASK_SLOTS k' ! i) = ts_pid (TASK_SLOTS k ! i)"
    and "live k' p \<longleftrightarrow> live k p"
proof -
  have m: "map (\<lambda>s. (ts_pid s, ts_address_space s)) (TASK_SLOTS k') = map (\<lambda>s. (ts_pid s, ts_address_space s)) (TASK_SLOTS k)"
    using assms by (simp add: same_pool_def)
  show l: "length (TASK_SLOTS k') = length (TASK_SLOTS k)" using map_eq_imp_length_eq [OF m] .
  show pid: "ts_pid (TASK_SLOTS k' ! i) = ts_pid (TASK_SLOTS k ! i)" if "i < length (TASK_SLOTS k)" for i
    using arg_cong [OF m, of "\<lambda>l. fst (l ! i)"] that l by simp
  show "live k' p \<longleftrightarrow> live k p" unfolding live_def using l pid by auto
qed

lemma find_space_map:
  "Option.bind (find (\<lambda>s. ts_pid s = q) xs) ts_address_space =
     Option.bind (find (\<lambda>e. fst e = q) (map (\<lambda>s. (ts_pid s, ts_address_space s)) xs)) snd"
  by (induction xs) auto

lemma same_pool_desired: "same_pool k k' \<Longrightarrow> desired_l4_frame pid k' = desired_l4_frame pid k"
  by (rule desired_cong) (simp_all add: same_pool_def find_space_map)

lemma map_pool_store:
  "i < length xs \<Longrightarrow> map (\<lambda>s. (ts_pid s, ts_address_space s)) (xs[i := (xs ! i)\<lparr>ts_rsp := v\<rparr>]) =
     map (\<lambda>s. (ts_pid s, ts_address_space s)) xs"
  by (induction xs arbitrary: i) (auto split: nat.splits)

lemma store_context_keeps:
  "same_pool k (store_context pid sp k)" "SCHEDULER (store_context pid sp k) = SCHEDULER k"
  "CURRENT (store_context pid sp k) = CURRENT k" "cr3 (store_context pid sp k) = cr3 k"
  "TICKS (store_context pid sp k) = TICKS k" "cpu_state (store_context pid sp k) = cpu_state k"
  by (auto simp: store_context_def same_pool_def map_pool_store dest!: position_Some split: option.splits)

lemma pool_base_same:
  assumes "pool_base k" and "same_pool k k'" and "SCHEDULER k' = Some rq" and "rq_inv rq" and "queued rq = {p. live k p}"
  shows "pool_base k'"
proof -
  have "MAPPED k' = MAPPED k" "NEXT_PID k' = NEXT_PID k" "DEFAULT_L4_FRAME k' = DEFAULT_L4_FRAME k"
    using assms(2) by (simp_all add: same_pool_def)
  moreover have "live k' = live k" by (intro ext) (rule same_pool_slots(3) [OF assms(2)])
  ultimately show ?thesis
    using pool_baseD [OF assms(1)] same_pool_slots(1,2) [OF assms(2)] assms(3-5) unfolding pool_base_def by simp
qed

lemma next_task_live:
  assumes "pool_base k"
  shows "next_task k now = BOOT_PID \<or> live k (next_task k now)"
proof -
  obtain rq where rq: "SCHEDULER k = Some rq" "rq_inv rq" "queued rq = {p. live k p}"
    using pool_baseD(6) [OF assms] by blast
  then show ?thesis
    using dispatch.pick_member [OF rq(2)] by (auto simp: next_task_def split: option.splits)
qed

lemma pool_inv_same:
  assumes "pool_inv k" and "same_pool k k'" and "SCHEDULER k' = SCHEDULER k" and "CURRENT k' = CURRENT k" and "cr3 k' = cr3 k"
  shows "pool_inv k'"
proof -
  have base: "pool_base k" using assms(1) by (simp add: pool_inv_def)
  have "pool_base k'" using pool_base_same [OF base assms(2)] pool_baseD(6) [OF base] assms(3) by auto
  then show ?thesis
    using assms(1,4,5) same_pool_desired [OF assms(2)] same_pool_slots(3) [OF assms(2)] by (simp add: pool_inv_def)
qed

text \<open>The common tail of a tick and an exit: load the address space and switch.\<close>

lemma pool_inv_switched:
  assumes "pool_base k" and "CURRENT k = BOOT_PID \<or> live k (CURRENT k)"
    and "same_pool k k'" and "SCHEDULER k' = SCHEDULER k" and "CURRENT k' = CURRENT k"
    and "cr3 k' = cr3 (switch_address_space_to (CURRENT k) k)"
  shows "pool_inv k'"
proof -
  obtain f where f: "desired_l4_frame (CURRENT k) k = Some f"
    using desired_Some [OF pool_baseD(7) [OF assms(1)]] by blast
  have "pool_base k'" using pool_base_same [OF assms(1,3)] pool_baseD(6) [OF assms(1)] assms(4) by auto
  moreover have "desired_l4_frame (CURRENT k') k' = Some (cr3 k')"
    using f assms(5,6) same_pool_desired [OF assms(3)] by (simp add: switch_address_space_eq)
  ultimately show ?thesis using assms(2,5) same_pool_slots(3) [OF assms(3)] by (simp add: pool_inv_def)
qed

lemma same_pool_refl: "TASK_SLOTS k' = TASK_SLOTS k \<Longrightarrow> MAPPED k' = MAPPED k \<Longrightarrow> NEXT_PID k' = NEXT_PID k
    \<Longrightarrow> DEFAULT_L4_FRAME k' = DEFAULT_L4_FRAME k \<Longrightarrow> same_pool k k'"
  by (simp add: same_pool_def)

lemma same_pool_trans: "same_pool a b \<Longrightarrow> same_pool b c \<Longrightarrow> same_pool a c"
  by (simp add: same_pool_def)

subsection \<open>The timer tick\<close>

text \<open>The tick in closed form, once the scheduler runs.\<close>

definition charged :: "'m kernel \<Rightarrow> 'm kernel" where
  "charged k =
     (let k1 = k\<lparr>TICKS := TICKS k + 1\<rparr>
      in if CURRENT k \<noteq> BOOT_PID then k1\<lparr>SCHEDULER := map_option (update_vruntime (CURRENT k) 1) (SCHEDULER k)\<rparr> else k1)"

definition dispatched :: "u64 \<Rightarrow> u64 \<Rightarrow> 'm kernel \<Rightarrow> 'm kernel" where
  "dispatched ra next_pid k =
     (let k1 = switch_address_space_to next_pid (k\<lparr>CURRENT := next_pid\<rparr>)
      in k1\<lparr>cpu_state := snd (switch_to (context_rsp next_pid k1) (push ra (cpu_state k1)))\<rparr>)"

lemma switch_address_space_keeps [simp]:
  "TASK_SLOTS (switch_address_space_to p k) = TASK_SLOTS k" "MAPPED (switch_address_space_to p k) = MAPPED k"
  "NEXT_PID (switch_address_space_to p k) = NEXT_PID k" "DEFAULT_L4_FRAME (switch_address_space_to p k) = DEFAULT_L4_FRAME k"
  "SCHEDULER (switch_address_space_to p k) = SCHEDULER k" "CURRENT (switch_address_space_to p k) = CURRENT k"
  "TICKS (switch_address_space_to p k) = TICKS k" "cpu_state (switch_address_space_to p k) = cpu_state k"
  "BOOT_CONTEXT (switch_address_space_to p k) = BOOT_CONTEXT k"
  by (simp_all add: switch_address_space_to_def split: option.splits)

lemma on_timer_tick_closed:
  assumes "SCHEDULER k = Some rq"
  shows "on_timer_tick ra k =
    (let n = next_task k (TICKS k + 1)
     in if CURRENT k = n then charged k
        else store_context (CURRENT k) (rsp (cpu_state k) - 56) (dispatched ra n (charged k)))"
proof -
  have "next_task (k\<lparr>TICKS := TICKS k + 1\<rparr>) (TICKS k + 1) = next_task k (TICKS k + 1)" by (simp add: next_task_def)
  moreover have "fst (switch_to n (push ra m)) = rsp m - 56" for n m by (simp add: switch_to_closed push_def)
  ultimately show ?thesis using assms
    by (simp add: on_timer_tick_def charged_def dispatched_def Let_def split_beta)
qed

lemma charged_keeps [simp]:
  "TASK_SLOTS (charged k) = TASK_SLOTS k" "MAPPED (charged k) = MAPPED k" "NEXT_PID (charged k) = NEXT_PID k"
  "DEFAULT_L4_FRAME (charged k) = DEFAULT_L4_FRAME k" "CURRENT (charged k) = CURRENT k" "cr3 (charged k) = cr3 k"
  "TICKS (charged k) = TICKS k + 1" "cpu_state (charged k) = cpu_state k" "BOOT_CONTEXT (charged k) = BOOT_CONTEXT k"
  by (simp_all add: charged_def Let_def)

lemma dispatched_keeps [simp]:
  "TASK_SLOTS (dispatched ra n k) = TASK_SLOTS k" "MAPPED (dispatched ra n k) = MAPPED k"
  "NEXT_PID (dispatched ra n k) = NEXT_PID k" "DEFAULT_L4_FRAME (dispatched ra n k) = DEFAULT_L4_FRAME k"
  "SCHEDULER (dispatched ra n k) = SCHEDULER k" "CURRENT (dispatched ra n k) = n"
  "cr3 (dispatched ra n k) = cr3 (switch_address_space_to n (k\<lparr>CURRENT := n\<rparr>))"
  "TICKS (dispatched ra n k) = TICKS k" "BOOT_CONTEXT (dispatched ra n k) = BOOT_CONTEXT k"
  by (simp_all add: dispatched_def Let_def)

lemma live_charged [simp]: "live (charged k) p = live k p"
  by (simp add: live_def)

lemma charged_base:
  assumes "pool_base k"
  shows "pool_base (charged k)"
proof -
  obtain rq where rq: "SCHEDULER k = Some rq" "rq_inv rq" "queued rq = {p. live k p}"
    using pool_baseD(6) [OF assms] by blast
  let ?rq = "if CURRENT k \<noteq> BOOT_PID then update_vruntime (CURRENT k) 1 rq else rq"
  have "SCHEDULER (charged k) = Some ?rq" using rq(1) by (simp add: charged_def Let_def)
  moreover have "rq_inv ?rq" "queued ?rq = {p. live k p}" using rq(2,3) dispatch.charge_ok [OF rq(2)] by simp_all
  ultimately show ?thesis by (rule pool_base_same [OF assms same_pool_refl, rotated -3]) simp_all
qed

text \<open>A dispatch to the boot flow or to a live task gives back the whole invariant.\<close>

lemma dispatched_inv:
  assumes "pool_base k" and "n = BOOT_PID \<or> live k n"
    and "same_pool (dispatched ra n k) k'" and "SCHEDULER k' = SCHEDULER k" and "CURRENT k' = n"
    and "cr3 k' = cr3 (dispatched ra n k)"
  shows "pool_inv k'"
proof (rule pool_inv_switched [of "k\<lparr>CURRENT := n\<rparr>"])
  have "live (k\<lparr>CURRENT := n\<rparr>) = live k" by (simp add: live_def fun_eq_iff)
  then show "pool_base (k\<lparr>CURRENT := n\<rparr>)"
    and "CURRENT (k\<lparr>CURRENT := n\<rparr>) = BOOT_PID \<or> live (k\<lparr>CURRENT := n\<rparr>) (CURRENT (k\<lparr>CURRENT := n\<rparr>))"
    using assms(1,2) by (simp_all add: pool_base_def)
  show "same_pool (k\<lparr>CURRENT := n\<rparr>) k'" using assms(3) by (simp add: same_pool_def)
qed (use assms(4-6) in simp_all)

lemma tick_inv:
  assumes "pool_inv k"
  shows "pool_inv (on_timer_tick ra k)"
proof -
  have base: "pool_base k" using assms by (simp add: pool_inv_def)
  then obtain rq where rq: "SCHEDULER k = Some rq" using pool_baseD(6) by blast
  let ?n = "next_task k (TICKS k + 1)"
  show ?thesis
  proof (cases "CURRENT k = ?n")
    case True
    have "same_pool k (charged k)" by (rule same_pool_refl) simp_all
    then show ?thesis
      using True assms charged_base [OF base] same_pool_desired [of k "charged k"]
      by (simp add: on_timer_tick_closed [OF rq] Let_def pool_inv_def)
  next
    case False
    have "pool_inv (store_context (CURRENT k) (rsp (cpu_state k) - 56) (dispatched ra ?n (charged k)))"
      using next_task_live [OF base]
      by (intro dispatched_inv [OF charged_base [OF base], of ?n ra]) (simp_all add: store_context_keeps)
    then show ?thesis using False by (simp add: on_timer_tick_closed [OF rq] Let_def)
  qed
qed

subsection \<open>Exit\<close>

definition retired :: "'m kernel \<Rightarrow> 'm kernel" where
  "retired k =
     (let k1 = k\<lparr>SCHEDULER := map_option (\<lambda>rq. fst (remove_process (CURRENT k) rq)) (SCHEDULER k)\<rparr>
      in (case position (\<lambda>s. ts_pid s = Some (CURRENT k)) (TASK_SLOTS k) of
            Some i \<Rightarrow> k1\<lparr>TASK_SLOTS := (TASK_SLOTS k)[i := (TASK_SLOTS k ! i)\<lparr>ts_pid := None\<rparr>], TASK_EXIT_SLOT := Some i\<rparr>
          | None \<Rightarrow> k1)\<lparr>TASK_C_EXITED := True\<rparr>)"

lemma exit_closed: "exit_current_task ra k = dispatched ra (next_task (retired k) (TICKS k)) (retired k)"
  by (simp add: exit_current_task_def dispatched_def retired_def Let_def split_beta split: option.splits)

lemma retired_keeps [simp]:
  "MAPPED (retired k) = MAPPED k" "NEXT_PID (retired k) = NEXT_PID k" "DEFAULT_L4_FRAME (retired k) = DEFAULT_L4_FRAME k"
  "TICKS (retired k) = TICKS k" "BOOT_CONTEXT (retired k) = BOOT_CONTEXT k" "cpu_state (retired k) = cpu_state k"
  "SCHEDULER (retired k) = map_option (\<lambda>rq. fst (remove_process (CURRENT k) rq)) (SCHEDULER k)"
  by (simp_all add: retired_def Let_def split: option.splits)

lemma retired_slots:
  assumes "pool_base k"
  shows "length (TASK_SLOTS (retired k)) = MAX_TASKS"
    and "i < MAX_TASKS \<Longrightarrow> ts_pid (TASK_SLOTS (retired k) ! i) =
      (if ts_pid (TASK_SLOTS k ! i) = Some (CURRENT k) then None else ts_pid (TASK_SLOTS k ! i))"
proof -
  note b = pool_baseD [OF assms]
  show "length (TASK_SLOTS (retired k)) = MAX_TASKS" using b(1) by (simp add: retired_def Let_def split: option.splits)
  assume i: "i < MAX_TASKS"
  show "ts_pid (TASK_SLOTS (retired k) ! i) =
      (if ts_pid (TASK_SLOTS k ! i) = Some (CURRENT k) then None else ts_pid (TASK_SLOTS k ! i))"
  proof (cases "position (\<lambda>s. ts_pid s = Some (CURRENT k)) (TASK_SLOTS k)")
    case None
    then have "ts_pid (TASK_SLOTS k ! i) \<noteq> Some (CURRENT k)" using i b(1) by (simp add: position_None)
    then show ?thesis using None by (simp add: retired_def Let_def)
  next
    case (Some j)
    then have j: "j < MAX_TASKS" "ts_pid (TASK_SLOTS k ! j) = Some (CURRENT k)" using position_Some b(1) by fastforce+
    have "i = j \<longleftrightarrow> ts_pid (TASK_SLOTS k ! i) = Some (CURRENT k)" using b(3) [OF i j(1)] j(2) by auto
    then show ?thesis using Some i j(1) b(1) by (auto simp: retired_def Let_def nth_list_update)
  qed
qed

lemma retired_live: "pool_base k \<Longrightarrow> live (retired k) p \<longleftrightarrow> live k p \<and> p \<noteq> CURRENT k"
proof -
  assume b: "pool_base k"
  have "live (retired k) p \<longleftrightarrow> (\<exists>i < MAX_TASKS. ts_pid (TASK_SLOTS (retired k) ! i) = Some p)"
    by (simp add: live_def retired_slots(1) [OF b])
  also have "\<dots> \<longleftrightarrow> (\<exists>i < MAX_TASKS. ts_pid (TASK_SLOTS k ! i) = Some p \<and> p \<noteq> CURRENT k)"
    by (intro ex_cong) (auto simp: retired_slots(2) [OF b])
  finally show ?thesis by (auto simp: live_def pool_baseD(1) [OF b])
qed

lemma retired_base:
  assumes "pool_base k"
  shows "pool_base (retired k)"
proof -
  note b = pool_baseD [OF assms] and r = retired_slots [OF assms]
  obtain rq where rq: "SCHEDULER k = Some rq" "rq_inv rq" "queued rq = {p. live k p}" using b(6) by blast
  have live: "{p. live (retired k) p} = {p. live k p} - {CURRENT k}" using retired_live [OF assms] by auto
  have "\<exists>rq. SCHEDULER (retired k) = Some rq \<and> rq_inv rq \<and> queued rq = {p. live (retired k) p}"
    using rq dispatch.remove_ok [OF rq(2), of "CURRENT k"] live by simp
  then show ?thesis using b r unfolding pool_base_def by (auto split: if_splits)
qed

lemma exit_inv:
  assumes "pool_base k"
  shows "pool_inv (exit_current_task ra k)"
  unfolding exit_closed
  by (rule dispatched_inv [OF retired_base [OF assms] next_task_live [OF retired_base [OF assms]] same_pool_refl]) simp_all

subsection \<open>Spawn\<close>

lemma spawn_cases:
  assumes "spawn_task_impl map_to cpu trampoline entry address_space k = Some (k', r)"
  obtains (full) "\<forall>s \<in> set (TASK_SLOTS k). ts_pid s \<noteq> None" "r = None" "k' = k\<lparr>NEXT_PID := NEXT_PID k + 1\<rparr>"
  | (ok) i g mapped memory sp where
      "i < length (TASK_SLOTS k)" "ts_pid (TASK_SLOTS k ! i) = None" "r = Some (NEXT_PID k)"
      "ensure_slot_mapped map_to cpu i (globals k) (MAPPED k) = Some (g, mapped, slot_stack_base i + STACK_SIZE)"
      "init_stack (slot_stack_base i) STACK_SIZE trampoline entry (mem (cpu_state k)) = (memory, sp)"
      "k' = k\<lparr>NEXT_PID := NEXT_PID k + 1, globals := g, MAPPED := mapped, cpu_state := (cpu_state k)\<lparr>mem := memory\<rparr>,
         TASK_SLOTS := (TASK_SLOTS k)[i := \<lparr>ts_pid = Some (NEXT_PID k), ts_rsp = sp, ts_address_space = address_space\<rparr>],
         SCHEDULER := map_option (add_process \<lparr>proc_pid = NEXT_PID k, proc_class = Normal, proc_state = Ready,
           proc_vruntime = 0\<rparr>) (SCHEDULER k)\<rparr>"
proof (cases "position (\<lambda>s. ts_pid s = None) (TASK_SLOTS k)")
  case None
  then have "Some (k\<lparr>NEXT_PID := NEXT_PID k + 1\<rparr>, None) = Some (k', r)"
    using assms by (simp add: spawn_task_impl_def Let_def)
  then show thesis using None by (intro full) (simp_all add: position_None)
next
  case (Some i)
  from assms Some obtain g mapped top_addr where
    e: "ensure_slot_mapped map_to cpu i (globals k) (MAPPED k) = Some (g, mapped, top_addr)"
    by (auto simp: spawn_task_impl_def Let_def split: option.splits prod.splits)
  have t: "top_addr = slot_stack_base i + STACK_SIZE" by (rule ensure_slot_mapped_flags(3) [OF e])
  obtain memory sp where s: "init_stack (slot_stack_base i) STACK_SIZE trampoline entry (mem (cpu_state k)) = (memory, sp)"
    by (metis surj_pair)
  show thesis
  proof (rule ok [OF _ _ _ _ s])
    show "i < length (TASK_SLOTS k)" "ts_pid (TASK_SLOTS k ! i) = None" using position_Some [OF Some] by simp_all
    show "ensure_slot_mapped map_to cpu i (globals k) (MAPPED k) = Some (g, mapped, slot_stack_base i + STACK_SIZE)"
      using e t by simp
  qed (use assms Some e t s in \<open>auto simp: spawn_task_impl_def Let_def\<close>)
qed

lemma pid_succ: "p \<noteq> BOOT_PID \<Longrightarrow> q < p \<Longrightarrow> q < p + 1" "p \<noteq> BOOT_PID \<Longrightarrow> p < p + (1::u64)"
  using unat_succ [of p] by (auto simp: BOOT_PID_def word_less_nat_alt)

lemma spawn_inv:
  assumes "pool_inv k" and "NEXT_PID k \<noteq> BOOT_PID"
    and "spawn_task_impl map_to cpu trampoline entry address_space k = Some (k', r)"
  shows "pool_inv k' \<and> CURRENT k' = CURRENT k \<and> (\<forall>p. live k' p \<longleftrightarrow> live k p \<or> r = Some p)
    \<and> (r = None \<or> r = Some (NEXT_PID k)) \<and> NEXT_PID k' = NEXT_PID k + 1"
  using assms(3)
proof (cases rule: spawn_cases)
  case full
  have "live k' = live k" "desired_l4_frame p k' = desired_l4_frame p k" for p
    using full(3) by (simp_all add: live_def desired_l4_frame_def Let_def fun_eq_iff)
  then have "pool_inv k'" using assms(1,2) full(3) pid_succ by (auto simp: pool_inv_def pool_base_def)
  then show ?thesis using full \<open>live k' = live k\<close> by simp
next
  case (ok i g mapped memory sp)
  have base: "pool_base k" using assms(1) by (simp add: pool_inv_def)
  note b = pool_baseD [OF base]
  obtain rq where rq: "SCHEDULER k = Some rq" "rq_inv rq" "queued rq = {p. live k p}" using b(6) by blast
  let ?p = "NEXT_PID k"
  have fresh: "\<not> live k ?p" using live_below [OF base, of ?p] by auto
  have i: "i < MAX_TASKS" using ok(1) b(1) by simp
  have pid: "ts_pid (TASK_SLOTS k' ! j) = (if j = i then Some ?p else ts_pid (TASK_SLOTS k ! j))" if "j < MAX_TASKS" for j
    using ok(6) that i b(1) by (simp add: nth_list_update)
  have len: "length (TASK_SLOTS k') = MAX_TASKS" using ok(6) b(1) by simp
  have live: "live k' p \<longleftrightarrow> live k p \<or> p = ?p" for p
  proof
    assume "live k' p"
    then obtain j where "j < MAX_TASKS" "ts_pid (TASK_SLOTS k' ! j) = Some p" using len by (auto simp: live_def)
    then show "live k p \<or> p = ?p" using pid [of j] b(1) by (auto simp: live_def split: if_splits)
  next
    assume "live k p \<or> p = ?p"
    then consider "p = ?p" | j where "j < MAX_TASKS" "ts_pid (TASK_SLOTS k ! j) = Some p" using b(1) by (auto simp: live_def)
    then show "live k' p"
    proof cases
      case 1
      then show ?thesis using pid [OF i] i len by (auto simp: live_def)
    next
      case 2
      then have "ts_pid (TASK_SLOTS k' ! j) = Some p" using pid [OF 2(1)] ok(2) by auto
      then show ?thesis using 2(1) len by (auto simp: live_def)
    qed
  qed
  have mapped: "MAPPED k' = (MAPPED k)[i := True]" using ensure_slot_mapped_flags(2) [OF ok(4)] ok(6) by simp
  have "\<exists>rq. SCHEDULER k' = Some rq \<and> rq_inv rq \<and> queued rq = {p. live k' p}"
    using dispatch.add_ok [OF rq(2)] rq fresh live ok(6) by auto
  moreover have "ts_pid (TASK_SLOTS k' ! j) = Some p \<longrightarrow> p < NEXT_PID k' \<and> MAPPED k' ! j" if "j < MAX_TASKS" for j p
    using pid [OF that] b(4,5) [OF that] pid_succ [OF assms(2)] mapped i b(2) that ok(6)
    by (auto simp: nth_list_update MAX_TASKS_def)
  moreover have "a = c" if "a < MAX_TASKS" "c < MAX_TASKS" "ts_pid (TASK_SLOTS k' ! a) = Some p" "ts_pid (TASK_SLOTS k' ! c) = Some p" for a c p
    using that pid b(3) [of a c p] fresh b(1) by (auto simp: live_def split: if_splits)
  ultimately have base': "pool_base k'" using len b(2,7) mapped ok(6) by (simp add: pool_base_def)
  have "desired_l4_frame (CURRENT k) k' = desired_l4_frame (CURRENT k) k"
  proof (rule desired_cong)
    assume "CURRENT k \<noteq> BOOT_PID"
    then have "CURRENT k \<noteq> ?p" using assms(1) fresh by (auto simp: pool_inv_def)
    then show "Option.bind (find (\<lambda>s. ts_pid s = Some (CURRENT k)) (TASK_SLOTS k')) ts_address_space =
        Option.bind (find (\<lambda>s. ts_pid s = Some (CURRENT k)) (TASK_SLOTS k)) ts_address_space"
      using ok(1,2,6) by (simp add: find_update_other)
  qed (use ok(6) in simp)
  then show ?thesis using base' assms(1) live ok(3,6) by (auto simp: pool_inv_def)
qed

section \<open>Reachable states\<close>

lemma run_inv: "pool_inv k \<Longrightarrow> pool_inv (k\<lparr>cpu_state := m\<rparr>)"
  by (rule pool_inv_same [of k]) (simp_all add: same_pool_def)

lemma step_inv:
  assumes "kernel_step map_to cpu k k'" and "pool_inv k"
  shows "pool_inv k'"
proof -
  have "pool_base k" using assms(2) by (simp add: pool_inv_def)
  then show ?thesis
    using assms by (elim kernel_stepE) (auto dest: spawn_inv intro: tick_inv exit_inv run_inv)
qed

lemma steps_inv: "kernel_steps map_to cpu k k' \<Longrightarrow> pool_inv k \<Longrightarrow> pool_inv k'"
  by (induction rule: kernel_steps.induct) (simp_all add: step_inv)

text \<open>The spawns of \<open>init\<close>.\<close>

lemma init_tasks_steps:
  assumes "init_tasks map_to cpu new_space trampoline a b c e (boot_kernel g l4 m) = Some (k, r)"
  obtains k1 r1 k2 r2 k3 g' space where
    "spawn_task_impl map_to cpu trampoline a None ((boot_kernel g l4 m)\<lparr>SCHEDULER := Some new_queue, DEFAULT_L4_FRAME := Some l4\<rparr>) = Some (k1, r1)"
    "spawn_task_impl map_to cpu trampoline b None k1 = Some (k2, r2)"
    "spawn_task_impl map_to cpu trampoline c None k2 = Some (k3, r)"
    "new_space (globals k3) = (g', space)"
    "case space of None \<Rightarrow> k = k3\<lparr>globals := g'\<rparr>
     | Some f \<Rightarrow> \<exists>r4. spawn_task_impl map_to cpu trampoline e (Some f) (k3\<lparr>globals := g'\<rparr>) = Some (k, r4)"
proof -
  have cr: "cr3 (boot_kernel g l4 m) = l4" by (simp add: boot_kernel_def)
  obtain k1 r1 k2 r2 k3 r3 where
    s: "spawn_task_impl map_to cpu trampoline a None ((boot_kernel g l4 m)\<lparr>SCHEDULER := Some new_queue, DEFAULT_L4_FRAME := Some l4\<rparr>) = Some (k1, r1)"
      "spawn_task_impl map_to cpu trampoline b None k1 = Some (k2, r2)"
      "spawn_task_impl map_to cpu trampoline c None k2 = Some (k3, r3)"
    and rest: "(case new_space (globals k3) of (g, None) \<Rightarrow> Some (k3\<lparr>globals := g\<rparr>, r3)
        | (g, Some l4) \<Rightarrow> map_option (\<lambda>(k, _). (k, r3)) (spawn_task_impl map_to cpu trampoline e (Some l4) (k3\<lparr>globals := g\<rparr>))) = Some (k, r)"
    using assms unfolding init_tasks_def spawn_task_def spawn_task_with_address_space_def Let_def cr bind_eq_Some_conv
    by (clarsimp simp: bind_eq_Some_conv)
  obtain g' space where n: "new_space (globals k3) = (g', space)" by (metis surj_pair)
  have "r = r3" using rest n by (cases space) auto
  with s n rest show thesis by (intro that [of k1 r1 k2 r2 k3 g' space]) (auto split: option.splits)
qed

lemma init_inv:
  assumes "init_tasks map_to cpu new_space trampoline a b c e (boot_kernel g l4 m) = Some (k, r)"
  shows "pool_inv k"
proof -
  let ?k = "(boot_kernel g l4 m)\<lparr>SCHEDULER := Some new_queue, DEFAULT_L4_FRAME := Some l4\<rparr>"
  have 0: "pool_inv ?k" "NEXT_PID ?k = 0"
    by (auto simp: pool_inv_def pool_base_def boot_kernel_def live_def EMPTY_def MAX_TASKS_def desired_l4_frame_def
        rq_inv_new queued_def get_process_def new_queue_def rq_inv_def)
  have nb: "(0::u64) \<noteq> BOOT_PID" "(1::u64) \<noteq> BOOT_PID" "(2::u64) \<noteq> BOOT_PID" "(3::u64) \<noteq> BOOT_PID"
    by (simp_all add: BOOT_PID_def u64_max_def)
  obtain k1 r1 k2 r2 k3 g' space where
    s: "spawn_task_impl map_to cpu trampoline a None ?k = Some (k1, r1)"
      "spawn_task_impl map_to cpu trampoline b None k1 = Some (k2, r2)"
      "spawn_task_impl map_to cpu trampoline c None k2 = Some (k3, r)"
      "case space of None \<Rightarrow> k = k3\<lparr>globals := g'\<rparr>
       | Some f \<Rightarrow> \<exists>r4. spawn_task_impl map_to cpu trampoline e (Some f) (k3\<lparr>globals := g'\<rparr>) = Some (k, r4)"
    by (rule init_tasks_steps [OF assms])
  have 1: "pool_inv k1" "NEXT_PID k1 = 1" using spawn_inv [OF 0(1) _ s(1)] 0(2) nb by simp_all
  have 2: "pool_inv k2" "NEXT_PID k2 = 2" using spawn_inv [OF 1(1) _ s(2)] 1(2) nb by simp_all
  have 3: "pool_inv k3" "NEXT_PID k3 = 3" using spawn_inv [OF 2(1) _ s(3)] 2(2) nb by simp_all
  have g: "pool_inv (k3\<lparr>globals := g'\<rparr>)" by (rule pool_inv_same [OF 3(1)]) (simp_all add: same_pool_def)
  show ?thesis using s(4) spawn_inv [OF g] g 3(2) nb by (auto split: option.splits)
qed

subsection \<open>Tasks that have exited\<close>

lemma tick_same_pool: "same_pool k (on_timer_tick ra k)"
proof (cases "SCHEDULER k")
  case (Some rq)
  have "same_pool k (store_context q sp (dispatched ra n (charged k)))" for q sp n
    using store_context_keeps(1) [of "dispatched ra n (charged k)" q sp] by (simp add: same_pool_def)
  moreover have "same_pool k (charged k)" by (simp add: same_pool_def)
  ultimately show ?thesis by (simp add: on_timer_tick_closed [OF Some] Let_def)
qed (simp add: on_timer_tick_def same_pool_def Let_def)

lemma tick_live: "live (on_timer_tick ra k) = live k" "NEXT_PID (on_timer_tick ra k) = NEXT_PID k"
  using tick_same_pool [of k ra] same_pool_slots(3) [of k "on_timer_tick ra k"] by (auto simp: same_pool_def)

lemma exit_live: "pool_base k \<Longrightarrow> live (exit_current_task ra k) p \<longleftrightarrow> live k p \<and> p \<noteq> CURRENT k"
  using retired_live [of k p] by (simp add: exit_closed live_def)

lemma gone_step:
  assumes "kernel_step map_to cpu k k'" and "pool_inv k" and "p < NEXT_PID k" and "\<not> live k p"
  shows "p < NEXT_PID k' \<and> \<not> live k' p"
proof -
  have base: "pool_base k" using assms(2) by (simp add: pool_inv_def)
  from assms(1) show ?thesis
  proof (cases rule: kernel_step.cases)
    case (spawn trampoline entry address_space r)
    then show ?thesis using spawn_inv [OF assms(2) spawn] assms(3,4) pid_succ(1) [OF spawn(1) assms(3)] by auto
  next
    case (tick ra)
    then show ?thesis using assms(3,4) by (simp add: tick_live)
  next
    case (exit ra)
    then show ?thesis using exit_live [OF base] assms(3,4) by (simp add: exit_closed)
  next
    case (run m)
    then show ?thesis using assms(3,4) by (simp add: live_def)
  qed
qed

lemma gone_steps:
  "kernel_steps map_to cpu k k' \<Longrightarrow> pool_inv k \<Longrightarrow> p < NEXT_PID k \<Longrightarrow> \<not> live k p \<Longrightarrow> p < NEXT_PID k' \<and> \<not> live k' p"
  by (induction rule: kernel_steps.induct) (use gone_step steps_inv in blast)+

subsection \<open>Tasks that are suspended\<close>

text \<open>Steps of the kernel while \<open>p\<close> is not the current task.\<close>

inductive suspended_steps :: "('m, physical_allocator) map_to \<Rightarrow> cpu_control \<Rightarrow> u64 \<Rightarrow> 'm kernel \<Rightarrow> 'm kernel \<Rightarrow> bool"
  for map_to :: "('m, physical_allocator) map_to" and cpu :: cpu_control and p :: u64 where
  start: "suspended_steps map_to cpu p k k"
| step: "suspended_steps map_to cpu p k k' \<Longrightarrow> CURRENT k' \<noteq> p \<Longrightarrow> kernel_step map_to cpu k' k'' \<Longrightarrow> suspended_steps map_to cpu p k k''"

abbreviation slot_of :: "u64 \<Rightarrow> 'm kernel \<Rightarrow> task_slot option" where
  "slot_of p k \<equiv> find (\<lambda>s. ts_pid s = Some p) (TASK_SLOTS k)"

definition same_context :: "u64 \<Rightarrow> 'm kernel \<Rightarrow> 'm kernel \<Rightarrow> bool" where
  "same_context p k k' \<longleftrightarrow> slot_of p k' = slot_of p k \<and> (p = BOOT_PID \<longrightarrow> BOOT_CONTEXT k' = BOOT_CONTEXT k)
     \<and> DEFAULT_L4_FRAME k' = DEFAULT_L4_FRAME k \<and> (live k' p \<longleftrightarrow> live k p)"

lemma same_context_rsp: "same_context p k k' \<Longrightarrow> context_rsp p k' = context_rsp p k"
  by (simp add: same_context_def context_rsp_def)

lemma same_context_desired: "same_context p k k' \<Longrightarrow> desired_l4_frame p k' = desired_l4_frame p k"
  by (simp add: same_context_def desired_l4_frame_def Let_def)

lemma store_context_other:
  assumes "q \<noteq> p" and "q = BOOT_PID \<or> live k q"
  shows "slot_of p (store_context q sp k) = slot_of p k" and "p = BOOT_PID \<Longrightarrow> BOOT_CONTEXT (store_context q sp k) = BOOT_CONTEXT k"
    and "DEFAULT_L4_FRAME (store_context q sp k) = DEFAULT_L4_FRAME k"
proof -
  have "q = BOOT_PID \<or> position (\<lambda>s. ts_pid s = Some q) (TASK_SLOTS k) \<noteq> None"
    using assms(2) by (auto simp: live_def position_None)
  then consider "q = BOOT_PID" | i where "q \<noteq> BOOT_PID" "position (\<lambda>s. ts_pid s = Some q) (TASK_SLOTS k) = Some i" by blast
  then have "slot_of p (store_context q sp k) = slot_of p k \<and> (p = BOOT_PID \<longrightarrow> BOOT_CONTEXT (store_context q sp k) = BOOT_CONTEXT k)
      \<and> DEFAULT_L4_FRAME (store_context q sp k) = DEFAULT_L4_FRAME k"
  proof cases
    case 2
    then show ?thesis using position_Some [OF 2(2)] assms(1) by (simp add: store_context_def find_update_other)
  qed (use assms(1) in \<open>simp add: store_context_def\<close>)
  then show "slot_of p (store_context q sp k) = slot_of p k" and "p = BOOT_PID \<Longrightarrow> BOOT_CONTEXT (store_context q sp k) = BOOT_CONTEXT k"
    and "DEFAULT_L4_FRAME (store_context q sp k) = DEFAULT_L4_FRAME k" by simp_all
qed

lemma find_update_first: "position P xs = Some i \<Longrightarrow> P e \<Longrightarrow> find P (xs[i := e]) = Some e"
  by (induction xs arbitrary: i) (auto split: if_splits)

lemma context_rsp_store:
  assumes "q = BOOT_PID \<or> live k q"
  shows "context_rsp q (store_context q sp k) = sp"
proof (cases "q = BOOT_PID")
  case False
  then obtain i where "position (\<lambda>s. ts_pid s = Some q) (TASK_SLOTS k) = Some i"
    using assms by (cases "position (\<lambda>s. ts_pid s = Some q) (TASK_SLOTS k)") (auto simp: live_def position_None)
  then show ?thesis using False position_Some by (fastforce simp: context_rsp_def store_context_def find_update_first)
qed (simp add: context_rsp_def store_context_def)

lemma tick_suspended:
  assumes "pool_inv k" and "CURRENT k \<noteq> p"
  shows "same_context p k (on_timer_tick ra k)"
proof -
  have base: "pool_base k" and cur: "CURRENT k = BOOT_PID \<or> live k (CURRENT k)" using assms(1) by (simp_all add: pool_inv_def)
  obtain rq where rq: "SCHEDULER k = Some rq" using pool_baseD(6) [OF base] by blast
  have l: "live (dispatched ra n (charged k)) q = live k q" for n q by (simp add: live_def)
  have "same_context p k (on_timer_tick ra k)" if "CURRENT k \<noteq> next_task k (TICKS k + 1)"
    using store_context_other [OF assms(2), of "dispatched ra _ (charged k)"] cur that tick_live(1) [of ra k]
    by (simp add: on_timer_tick_closed [OF rq] Let_def same_context_def l)
  moreover have "same_context p k (charged k)" by (simp add: same_context_def)
  ultimately show ?thesis by (cases "CURRENT k = next_task k (TICKS k + 1)") (simp_all add: on_timer_tick_closed [OF rq] Let_def)
qed

lemma exit_suspended:
  assumes "pool_inv k" and "CURRENT k \<noteq> p"
  shows "same_context p k (exit_current_task ra k)"
proof -
  have base: "pool_base k" using assms(1) by (simp add: pool_inv_def)
  have "slot_of p (retired k) = slot_of p k"
    using assms(2) position_Some [of "\<lambda>s. ts_pid s = Some (CURRENT k)" "TASK_SLOTS k"]
    by (auto simp: retired_def Let_def find_update_other split: option.splits)
  then show ?thesis using exit_live [OF base, of ra p] assms(2) by (simp add: same_context_def exit_closed)
qed

lemma spawn_suspended:
  assumes "pool_inv k" and "p = BOOT_PID \<or> live k p" and "NEXT_PID k \<noteq> BOOT_PID"
    and "spawn_task_impl map_to cpu trampoline entry address_space k = Some (k', r)"
  shows "same_context p k k'"
proof -
  have base: "pool_base k" using assms(1) by (simp add: pool_inv_def)
  have p: "p \<noteq> NEXT_PID k" using assms(2,3) live_below [OF base, of p] by auto
  have l: "live k' p \<longleftrightarrow> live k p" using spawn_inv [OF assms(1,3,4)] p by auto
  from assms(4) show ?thesis
  proof (cases rule: spawn_cases)
    case (ok i g mapped memory sp)
    then show ?thesis using p l by (simp add: same_context_def find_update_other)
  qed (use l in \<open>simp add: same_context_def\<close>)
qed

lemma suspended_context:
  assumes "suspended_steps map_to cpu p k k'" and "pool_inv k" and "p = BOOT_PID \<or> live k p"
  shows "same_context p k k' \<and> pool_inv k'"
  using assms
proof (induction rule: suspended_steps.induct)
  case (step k k' k'')
  then have ih: "same_context p k k'" "pool_inv k'" by simp_all
  have p: "p = BOOT_PID \<or> live k' p" using ih(1) step.prems(2) by (auto simp: same_context_def)
  from step.hyps(3) have "same_context p k' k''"
  proof (cases rule: kernel_step.cases)
    case (spawn trampoline entry address_space r)
    then show ?thesis using spawn_suspended [OF ih(2) p] by blast
  next
    case (run m)
    then show ?thesis by (simp add: same_context_def live_def)
  qed (use tick_suspended exit_suspended ih(2) step.hyps(2) in simp_all)
  then show ?case using ih step_inv [OF step.hyps(3)] by (simp add: same_context_def)
qed (simp add: same_context_def)

text \<open>What a tick that takes the processor away leaves behind.\<close>

lemma switched_away:
  assumes "pool_inv k" and "CURRENT (on_timer_tick ra k) \<noteq> CURRENT k"
  shows "context_rsp (CURRENT k) (on_timer_tick ra k) = rsp (cpu_state k) - 56"
    and "switch_to (context_rsp (CURRENT (on_timer_tick ra k)) k) (push ra (cpu_state k)) =
      (rsp (cpu_state k) - 56, cpu_state (on_timer_tick ra k))"
    and "desired_l4_frame q (on_timer_tick ra k) = desired_l4_frame q k"
    and "frame_at (mem (cpu_state (on_timer_tick ra k))) (rsp (cpu_state k) - 56) = callee_saved (cpu_state k) @ [ra]"
proof -
  let ?c = "CURRENT k" and ?n = "next_task k (TICKS k + 1)"
  have base: "pool_base k" and cur: "?c = BOOT_PID \<or> live k ?c" using assms(1) by (simp_all add: pool_inv_def)
  obtain rq where rq: "SCHEDULER k = Some rq" using pool_baseD(6) [OF base] by blast
  have ne: "?c \<noteq> ?n" using assms(2) by (auto simp: on_timer_tick_closed [OF rq] Let_def)
  let ?d = "dispatched ra ?n (charged k)"
  have k': "on_timer_tick ra k = store_context ?c (rsp (cpu_state k) - 56) ?d"
    using ne by (simp add: on_timer_tick_closed [OF rq] Let_def)
  have c': "CURRENT (on_timer_tick ra k) = ?n" by (simp add: k' store_context_keeps)
  have cs: "cpu_state (on_timer_tick ra k) = snd (switch_to (context_rsp ?n k) (push ra (cpu_state k)))"
    by (simp add: k' store_context_keeps dispatched_def Let_def context_rsp_def)
  show sw: "switch_to (context_rsp (CURRENT (on_timer_tick ra k)) k) (push ra (cpu_state k)) =
      (rsp (cpu_state k) - 56, cpu_state (on_timer_tick ra k))"
    by (simp add: c' cs switch_to_closed push_def)
  show "frame_at (mem (cpu_state (on_timer_tick ra k))) (rsp (cpu_state k) - 56) = callee_saved (cpu_state k) @ [ra]"
    using switch_to_saves(2) [OF sw] by (simp add: push_def callee_saved_def peek_def)
  have "same_pool k (on_timer_tick ra k)"
    using store_context_keeps(1) [of ?d ?c] by (simp add: k' same_pool_def)
  then show "desired_l4_frame q (on_timer_tick ra k) = desired_l4_frame q k" by (rule same_pool_desired)
  show "context_rsp ?c (on_timer_tick ra k) = rsp (cpu_state k) - 56"
    unfolding k' by (rule context_rsp_store) (use cur in \<open>auto simp: live_def\<close>)
qed

section \<open>Properties\<close>

text \<open>
  C26: The task pool stays consistent. From the state \<open>init\<close> leaves, after any interleaving of spawns, timer
  ticks, exits and arbitrary execution in between, no two slots hold the same task, every
  occupied slot has its guarded stack mapped, the run queue lists exactly the tasks in the slots, the current task
  is the boot flow or occupies a slot, and \<open>CR3\<close> holds the table of the current task: its own when it is bound
  to one, the default otherwise.
\<close>
theorem task_pool_consistent:
  assumes "init_tasks map_to cpu new_space trampoline a b c e (boot_kernel g l4 m) = Some (k0, r)"
    and "kernel_steps map_to cpu k0 k"
  shows "(\<forall>i < MAX_TASKS. \<forall>j < MAX_TASKS. \<forall>p.
        ts_pid (TASK_SLOTS k ! i) = Some p \<and> ts_pid (TASK_SLOTS k ! j) = Some p \<longrightarrow> i = j)
    \<and> (\<forall>i < MAX_TASKS. ts_pid (TASK_SLOTS k ! i) \<noteq> None \<longrightarrow> MAPPED k ! i)
    \<and> (\<exists>rq. SCHEDULER k = Some rq \<and> (\<forall>p. get_process p rq \<noteq> None \<longleftrightarrow> slot_index_for_pid p k \<noteq> None))
    \<and> (CURRENT k = BOOT_PID \<or> slot_index_for_pid (CURRENT k) k \<noteq> None)
    \<and> desired_l4_frame (CURRENT k) k = Some (cr3 k)"
proof -
  have inv: "pool_inv k" using steps_inv [OF assms(2) init_inv [OF assms(1)]] .
  then have base: "pool_base k" by (simp add: pool_inv_def)
  note b = pool_baseD [OF base]
  obtain rq where rq: "SCHEDULER k = Some rq" "queued rq = {p. live k p}" using b(6) by blast
  have "\<forall>i < MAX_TASKS. ts_pid (TASK_SLOTS k ! i) \<noteq> None \<longrightarrow> MAPPED k ! i" using b(5) by blast
  moreover have "\<forall>p. get_process p rq \<noteq> None \<longleftrightarrow> slot_index_for_pid p k \<noteq> None"
    using rq(2) by (simp add: queued_def set_eq_iff live_slot)
  ultimately show ?thesis using inv b(3) rq(1) by (simp add: pool_inv_def live_slot)
qed

text \<open>A mapper that maps every page, for the examples.\<close>

definition flat_map_to :: "(unit, physical_allocator) map_to" where
  "flat_map_to alloc page frame flags m fa = (m, fa, Ok ())"

definition sample_flat :: "unit paging_globals" where
  "sample_flat = \<lparr>MAPPER = Some (), PHYS = Some (new_allocator 0x100000 64), PHYS_MEM_OFFSET = None, PAGE_FAULTS_DEMAND_PAGED = 0\<rparr>"

theorem task_pool_consistent_witness:
  "\<exists>k0. init_tasks flat_map_to sample_cpu (\<lambda>g. (g, Some 0x5000)) 0x400 0x500 0x600 0x700 0x800
      (boot_kernel sample_flat 0x2000 (sample_machine 0x1000)) = Some (k0, Some 2)
    \<and> desired_l4_frame (CURRENT (on_timer_tick 0x900 k0)) (on_timer_tick 0x900 k0) = Some (cr3 (on_timer_tick 0x900 k0))"
proof -
  let ?i = "init_tasks flat_map_to sample_cpu (\<lambda>g. (g, Some 0x5000)) 0x400 0x500 0x600 0x700 0x800
      (boot_kernel sample_flat 0x2000 (sample_machine 0x1000))"
  have "map_option snd ?i = Some (Some 2)" by code_simp
  then obtain k0 where k0: "?i = Some (k0, Some 2)" by auto
  have "kernel_steps flat_map_to sample_cpu k0 (on_timer_tick 0x900 k0)"
    by (rule kernel_steps.step [OF kernel_steps.start kernel_step.tick])
  then show ?thesis using k0 task_pool_consistent [OF k0] by blast
qed

text \<open>
  C27: Exit is final. Once a task has called \<open>exit_current_task\<close> it occupies no slot, is not in the run queue and is
  never the current task again, whatever the kernel does afterwards; its identifier is never given
  to another task.
\<close>
theorem exited_task_never_runs:
  assumes "pool_inv k" and "CURRENT k \<noteq> BOOT_PID" and "kernel_steps map_to cpu (exit_current_task ra k) k'"
  shows "CURRENT k' \<noteq> CURRENT k \<and> slot_index_for_pid (CURRENT k) k' = None
    \<and> (\<forall>rq. SCHEDULER k' = Some rq \<longrightarrow> get_process (CURRENT k) rq = None) \<and> CURRENT k < NEXT_PID k'"
proof -
  let ?p = "CURRENT k" and ?k = "exit_current_task ra k"
  have base: "pool_base k" and live: "live k ?p" using assms(1,2) by (simp_all add: pool_inv_def)
  have "?p < NEXT_PID ?k" using live_below [OF base live] by (simp add: exit_closed)
  moreover have "\<not> live ?k ?p" using exit_live [OF base] by simp
  ultimately have gone: "?p < NEXT_PID k'" "\<not> live k' ?p" using gone_steps [OF assms(3) exit_inv [OF base]] by blast+
  have inv: "pool_inv k'" by (rule steps_inv [OF assms(3) exit_inv [OF base]])
  then obtain rq where "SCHEDULER k' = Some rq" "queued rq = {p. live k' p}" using pool_baseD(6) by (auto simp: pool_inv_def)
  moreover have "slot_index_for_pid ?p k' = None"
    using gone(2) by (simp add: live_slot)
  ultimately show ?thesis using gone inv assms(2) by (auto simp: pool_inv_def queued_def)
qed

text \<open>A kernel with one task, whose stack is mapped already, shortly before the end of the tick budget.\<close>

definition sample_idle :: "unit kernel" where
  "sample_idle = (boot_kernel sample_flat 0x2000 (sample_machine 0x1000))\<lparr>SCHEDULER := Some new_queue,
     DEFAULT_L4_FRAME := Some 0x2000, MAPPED := replicate MAX_SLOTS True, TICKS := 399\<rparr>"

definition sample_kernel :: "unit kernel" where
  "sample_kernel = fst (the (spawn_task flat_map_to sample_cpu 0x400 0x500 sample_idle))"

lemma sample_kernel_inv: "pool_inv sample_kernel"
proof -
  have "spawn_task flat_map_to sample_cpu 0x400 0x500 sample_idle \<noteq> None" by code_simp
  then obtain r where s: "spawn_task_impl flat_map_to sample_cpu 0x400 0x500 None sample_idle = Some (sample_kernel, r)"
    by (auto simp: sample_kernel_def spawn_task_def)
  have "pool_inv sample_idle"
    by (auto simp: sample_idle_def pool_inv_def pool_base_def boot_kernel_def live_def EMPTY_def MAX_TASKS_def
        desired_l4_frame_def rq_inv_new queued_def get_process_def new_queue_def rq_inv_def)
  moreover have "NEXT_PID sample_idle \<noteq> BOOT_PID" by (simp add: sample_idle_def boot_kernel_def BOOT_PID_def u64_max_def)
  ultimately show ?thesis using spawn_inv s by blast
qed

theorem exited_task_never_runs_witness:
  "let k = on_timer_tick 0x900 sample_kernel; k' = on_timer_tick 0x900 (exit_current_task 0xA00 k)
   in CURRENT k = 0 \<and> CURRENT k' \<noteq> 0 \<and> slot_index_for_pid 0 k' = None"
proof -
  let ?k = "on_timer_tick 0x900 sample_kernel"
  have c: "CURRENT ?k = 0" by code_simp
  have "kernel_steps flat_map_to sample_cpu (exit_current_task 0xA00 ?k) (on_timer_tick 0x900 (exit_current_task 0xA00 ?k))"
    by (rule kernel_steps.step [OF kernel_steps.start kernel_step.tick])
  from exited_task_never_runs [OF tick_inv [OF sample_kernel_inv] _ this] show ?thesis
    using c by (simp add: Let_def BOOT_PID_def u64_max_def)
qed

text \<open>
  C28: Preemption is transparent. When a tick takes the processor from a task (or from the boot flow) and, after any
  steps of the kernel in which it is not current, another tick gives it back, then the callee-saved registers, the stack
  pointer, the place of execution (the return address of the preempted call) and \<open>CR3\<close> are those of the
  preemption, provided nothing overwrote the frame on its stack meanwhile and the stack that is left does not overlap it.
\<close>
theorem preempted_task_resumes:
  assumes "pool_inv k" and "p = CURRENT k" and "CURRENT (on_timer_tick ra k) \<noteq> p"
    and "suspended_steps map_to cpu p (on_timer_tick ra k) k2" and "CURRENT k2 \<noteq> p"
    and "CURRENT (on_timer_tick ra' k2) = p"
    and "\<forall>a \<in> frame_cells (rsp (cpu_state k) - 56). mem (cpu_state k2) a = mem (cpu_state (on_timer_tick ra k)) a"
    and "insert (rsp (cpu_state k2) - 8) (pushed (push ra' (cpu_state k2))) \<inter> frame_cells (rsp (cpu_state k) - 56) = {}"
  shows "let m = cpu_state k; m' = cpu_state (on_timer_tick ra' k2)
    in callee_saved m' = callee_saved m \<and> rsp m' = rsp m \<and> rip m' = ra \<and> cr3 (on_timer_tick ra' k2) = cr3 k"
proof -
  let ?k1 = "on_timer_tick ra k" and ?s = "rsp (cpu_state k) - 56"
  note t1 = switched_away [OF assms(1) assms(3) [unfolded assms(2)]]
  have p: "p = BOOT_PID \<or> live ?k1 p" using assms(1,2) tick_live(1) [of ra k] by (auto simp: pool_inv_def)
  have sc: "same_context p ?k1 k2" and inv2: "pool_inv k2"
    using suspended_context [OF assms(4) tick_inv [OF assms(1)] p] by simp_all
  have ctx: "context_rsp p k2 = ?s" using same_context_rsp [OF sc] t1(1) assms(2) by simp
  have d: "desired_l4_frame p (on_timer_tick ra' k2) = desired_l4_frame p k"
    using same_context_desired [OF tick_suspended [OF inv2 assms(5)]] same_context_desired [OF sc] t1(3) by simp
  have cr: "cr3 (on_timer_tick ra' k2) = cr3 k"
    using tick_inv [OF inv2, of ra'] assms(1,2,6) d by (simp add: pool_inv_def)
  note t2 = switched_away(2) [OF inv2, of ra'] 
  have sw: "switch_to ?s (push ra' (cpu_state k2)) = (rsp (cpu_state k2) - 56, cpu_state (on_timer_tick ra' k2))"
    using t2 assms(5,6) ctx by simp
  have f2: "frame_at (mem (push ra' (cpu_state k2))) ?s = frame_at (mem (cpu_state ?k1)) ?s"
    using assms(7,8) by (intro frame_at_cong) (auto simp: push_def)
  have dis: "pushed (push ra' (cpu_state k2)) \<inter> frame_cells ?s = {}" using assms(8) by auto
  have "callee_saved (cpu_state (on_timer_tick ra' k2)) @ [rip (cpu_state (on_timer_tick ra' k2))] =
      callee_saved (cpu_state k) @ [ra]"
    using switch_to_resumes(1) [OF sw dis] f2 t1(4) by simp
  moreover have "rsp (cpu_state (on_timer_tick ra' k2)) = rsp (cpu_state k)"
    using switch_to_resumes(2) [OF sw dis] by simp
  ultimately show ?thesis using cr by (simp add: Let_def)
qed


theorem preempted_task_resumes_witness:
  "let k1 = on_timer_tick 0x900 sample_kernel; k3 = on_timer_tick 0xB00 k1
   in CURRENT sample_kernel = BOOT_PID \<and> CURRENT k1 = 0 \<and> CURRENT k3 = BOOT_PID
      \<and> callee_saved (cpu_state k3) = callee_saved (cpu_state sample_kernel) \<and> rip (cpu_state k3) = 0x900"
proof -
  let ?k1 = "on_timer_tick 0x900 sample_kernel"
  have c: "CURRENT sample_kernel = BOOT_PID" "CURRENT ?k1 = 0" "CURRENT (on_timer_tick 0xB00 ?k1) = BOOT_PID"
    by code_simp+
  have r: "rsp (cpu_state sample_kernel) = 0x1000" "rsp (cpu_state ?k1) = 0x333333340FF8" by code_simp+
  have "insert (rsp (cpu_state ?k1) - 8) (pushed (push 0xB00 (cpu_state ?k1)))
      \<inter> frame_cells (rsp (cpu_state sample_kernel) - 56) = {}"
    using r by (simp add: pushed_def frame_cells_def push_def)
  from preempted_task_resumes [OF sample_kernel_inv refl _ suspended_steps.start [of flat_map_to sample_cpu] _ _ _ this]
  show ?thesis using c by (simp add: Let_def BOOT_PID_def u64_max_def)
qed

end
