(* ===== verification/Address_Space.thy ===== *)
theory Address_Space
  imports Paging
begin

text \<open>
  Address spaces (\<open>address_space.rs\<close>): page tables are arrays of 512 entries in physical frames, and a top-level
  table that CR3 can hold starts a walk of four levels. \<open>AddressSpace::new\<close> clones the active top-level table and maps one
  private page in the clone only. \<open>map_to\<close> of the x86_64 crate is a parameter, applied to the top-level
  frame its view is built on; the locale \<open>table_mapper\<close> states what is relied on, and the
  interpretation \<open>four_level\<close> is an implementation of it on these tables. Caches of
  translations are not modelled: every access walks the tables, as after the flush of a CR3 write.
\<close>

section \<open>Page tables\<close>

record pte =
  pte_addr :: u64
  pte_flags :: page_flags
  pte_huge :: bool

definition unused_entry :: pte where
  "unused_entry = \<lparr>pte_addr = 0, pte_flags = flags_empty, pte_huge = False\<rparr>"

definition is_unused :: "pte \<Rightarrow> bool" where
  "is_unused e \<longleftrightarrow> e = unused_entry"

type_synonym tables = "u64 \<Rightarrow> nat \<Rightarrow> pte"

definition table_index :: "nat \<Rightarrow> u64 \<Rightarrow> nat" where
  "table_index level vaddr = unat (drop_bit (12 + 9 * (level - 1)) vaddr AND 0x1FF)"

definition p4_index :: "u64 \<Rightarrow> nat" where
  "p4_index vaddr = table_index 4 vaddr"

definition indices :: "u64 \<Rightarrow> nat list" where
  "indices vaddr = map (\<lambda>level. table_index level vaddr) [4, 3, 2, 1]"

text \<open>The entry a walk ends at, with the indices it has not used (those inside a huge page).\<close>

fun walk_tables :: "tables \<Rightarrow> u64 \<Rightarrow> nat list \<Rightarrow> (u64 \<times> page_flags \<times> nat list) option" where
  "walk_tables t f [] = None"
| "walk_tables t f (i # is) =
     (let e = t f i
      in if \<not> fl_present (pte_flags e) then None
         else if is = [] \<or> pte_huge e then Some (pte_addr e, pte_flags e, is)
         else walk_tables t (pte_addr e) is)"

definition translate_page :: "tables \<Rightarrow> u64 \<Rightarrow> u64 \<Rightarrow> (u64 \<times> page_flags \<times> nat list) option" where
  "translate_page t l4 vaddr = walk_tables t l4 (indices vaddr)"

text \<open>The entries a walk reads, and the frames of all tables that some walk from a top-level table reads.\<close>

fun walk_entries :: "tables \<Rightarrow> u64 \<Rightarrow> nat list \<Rightarrow> (u64 \<times> nat) list" where
  "walk_entries t f [] = []"
| "walk_entries t f (i # is) =
     (f, i) # (let e = t f i in if \<not> fl_present (pte_flags e) \<or> pte_huge e then [] else walk_entries t (pte_addr e) is)"

definition table_frames :: "tables \<Rightarrow> u64 \<Rightarrow> u64 set" where
  "table_frames t l4 = (\<Union>vaddr. fst ` set (walk_entries t l4 (indices vaddr)))"

section \<open>Address spaces\<close>

definition PRIVATE_REGION_ADDR :: u64 where
  "PRIVATE_REGION_ADDR = 0x111111110000"

definition PRIVATE_VALUE :: u64 where
  "PRIVATE_VALUE = 0xC0FFEEC0FFEE"

record address_space =
  l4_frame :: u64

text \<open>
  The machine state the module works on: the globals of \<open>paging.rs\<close>, the page tables, the words of the data frames, and CR3.
\<close>

record 'm space_state =
  sp_globals :: "'m paging_globals"
  sp_tables :: tables
  sp_data :: "u64 \<Rightarrow> u64"
  sp_cr3 :: u64

definition clone_entries :: "u64 \<Rightarrow> u64 \<Rightarrow> tables \<Rightarrow> tables" where
  "clone_entries active new t = fold (\<lambda>i t. t(new := (t new)(i := t active i))) [0..<512] t"

definition new_address_space ::
    "(u64 \<Rightarrow> (tables, physical_allocator) map_to) \<Rightarrow> cpu_control \<Rightarrow> 'm space_state \<Rightarrow> 'm space_state \<times> address_space option" where
  "new_address_space map_to cpu s =
     (case phys_mem_offset (sp_globals s) of
        None \<Rightarrow> (s, None)
      | Some phys_offset \<Rightarrow>
          (case with_phys (allocate 0) (sp_globals s) of
             (g1, Some (Inr new_l4_phys)) \<Rightarrow>
               let new_l4_frame = containing_address new_l4_phys;
                   t = (sp_tables s)(new_l4_phys := \<lambda>i. unused_entry);
                   t = clone_entries (sp_cr3 s) new_l4_phys t;
                   flags = flags_or present_writable (nx_flag cpu)
               in (case with_phys
                      (\<lambda>phys. case map_page_with (map_to new_l4_phys) adapter_allocate_frame PRIVATE_REGION_ADDR flags t phys of
                         (t, phys, r) \<Rightarrow> (phys, t, r)) g1 of
                     (g2, Some (t, Inr new_frame)) \<Rightarrow>
                       (s\<lparr>sp_globals := g2, sp_tables := t, sp_data := (sp_data s)(new_frame := PRIVATE_VALUE)\<rparr>,
                        Some \<lparr>l4_frame = new_l4_frame\<rparr>)
                   | (g2, Some (t, Inl _)) \<Rightarrow> (s\<lparr>sp_globals := g2, sp_tables := t\<rparr>, None)
                   | (g2, None) \<Rightarrow> (s\<lparr>sp_globals := g2, sp_tables := t\<rparr>, None))
           | (g1, _) \<Rightarrow> (s\<lparr>sp_globals := g1\<rparr>, None)))"

definition switch_space :: "address_space \<Rightarrow> 'm space_state \<Rightarrow> 'm space_state \<times> u64" where
  "switch_space a s = (let prev_frame = sp_cr3 s in (s\<lparr>sp_cr3 := l4_frame a\<rparr>, prev_frame))"

definition restore :: "u64 \<Rightarrow> 'm space_state \<Rightarrow> 'm space_state" where
  "restore frame s = s\<lparr>sp_cr3 := frame\<rparr>"

definition private_region_absent_from_active :: "'m space_state \<Rightarrow> bool" where
  "private_region_absent_from_active s =
     (case phys_mem_offset (sp_globals s) of
        None \<Rightarrow> False
      | Some phys_offset \<Rightarrow> is_unused (sp_tables s (sp_cr3 s) (p4_index (containing_address PRIVATE_REGION_ADDR))))"

text \<open>A read through the active table; \<open>None\<close> is a page fault.\<close>

definition read_active :: "u64 \<Rightarrow> 'm space_state \<Rightarrow> u64 option" where
  "read_active vaddr s =
     map_option (\<lambda>(frame, _). sp_data s (frame + (vaddr AND 0xFFF))) (translate_page (sp_tables s) (sp_cr3 s) vaddr)"

definition address_space_check ::
    "(u64 \<Rightarrow> (tables, physical_allocator) map_to) \<Rightarrow> cpu_control \<Rightarrow> 'm space_state \<Rightarrow> 'm space_state \<times> bool option" where
  "address_space_check map_to cpu s =
     (let absent_before = private_region_absent_from_active s
      in (case new_address_space map_to cpu s of
            (s, None) \<Rightarrow> (s, Some False)
          | (s, Some new_space) \<Rightarrow>
              (case switch_space new_space s of (s, prev_frame) \<Rightarrow>
                (case read_active PRIVATE_REGION_ADDR s of
                   None \<Rightarrow> (s, None)
                 | Some value_in_new \<Rightarrow>
                     (restore prev_frame s, Some (absent_before \<and> value_in_new = PRIVATE_VALUE))))))"

section \<open>What the mapper promises\<close>

text \<open>The frames that \<open>n\<close> calls of a frame allocator return.\<close>

fun drawn :: "'fa allocate_frame \<Rightarrow> nat \<Rightarrow> 'fa \<Rightarrow> u64 list" where
  "drawn alloc 0 fa = []"
| "drawn alloc (Suc n) fa = (case alloc fa of (fa', None) \<Rightarrow> drawn alloc n fa' | (fa', Some f) \<Rightarrow> f # drawn alloc n fa')"

abbreviation after_draws :: "'fa allocate_frame \<Rightarrow> nat \<Rightarrow> 'fa \<Rightarrow> 'fa" where
  "after_draws alloc n fa \<equiv> ((\<lambda>s. fst (alloc s)) ^^ n) fa"

text \<open>
  What \<open>map_to\<close> may do on the walk to a page: it draws at most one frame for each missing table; it changes nothing but those frames and the entries on
  the walk, of which it redirects none that is present; and when it succeeds and the frames it drew were not in use on that walk, the walk ends at the new
  frame, at an entry for a small page, and goes through the tables it went through before and then through the frames drawn.
\<close>

definition last_entry :: "tables \<Rightarrow> u64 \<Rightarrow> nat list \<Rightarrow> pte" where
  "last_entry t f is = case_prod t (last (walk_entries t f is))"

definition entry_kept :: "pte \<Rightarrow> pte \<Rightarrow> bool" where
  "entry_kept e e' \<longleftrightarrow> (fl_present (pte_flags e) \<longrightarrow> fl_present (pte_flags e') \<and> pte_addr e' = pte_addr e
     \<and> pte_huge e' = pte_huge e \<and> (fl_writable (pte_flags e) \<longrightarrow> fl_writable (pte_flags e')))"

definition map_effect ::
    "'fa allocate_frame \<Rightarrow> nat list \<Rightarrow> u64 \<Rightarrow> page_flags \<Rightarrow> u64 \<Rightarrow> tables \<Rightarrow> 'fa \<Rightarrow> tables \<Rightarrow> 'fa
     \<Rightarrow> (map_to_error, unit) result \<Rightarrow> nat \<Rightarrow> bool" where
  "map_effect alloc is frame flags f t fa t' fa' r n \<longleftrightarrow>
     n < length is \<and> fa' = after_draws alloc n fa
     \<and> (\<forall>g i. t' g i \<noteq> t g i \<longrightarrow> g \<in> set (drawn alloc n fa) \<or> (g, i) \<in> set (walk_entries t f is) \<and> entry_kept (t g i) (t' g i))
     \<and> (r = Ok () \<and> fl_present flags \<and> distinct (map fst (walk_entries t f is) @ drawn alloc n fa)
          \<longrightarrow> walk_tables t' f is = Some (frame, flags, [])
            \<and> map fst (walk_entries t' f is) = map fst (walk_entries t f is) @ drawn alloc n fa
            \<and> \<not> pte_huge (last_entry t' f is))"

locale table_mapper =
  fixes map_to :: "u64 \<Rightarrow> (tables, 'fa) map_to"
  assumes map_to_effect: "map_to l4 alloc page frame flags t fa = (t', fa', r) \<Longrightarrow>
      \<exists>n. map_effect alloc (indices page) frame flags l4 t fa t' fa' r n"
begin

lemma map_into_empty:
  assumes "map_to l4 alloc page frame flags t fa = (t', fa', r)" and "is_unused (t l4 (p4_index page))"
  obtains n where "fa' = after_draws alloc n fa"
    "\<And>f i. f \<notin> set (drawn alloc n fa) \<Longrightarrow> f \<noteq> l4 \<or> i \<noteq> p4_index page \<Longrightarrow> t' f i = t f i"
    "r = Ok () \<Longrightarrow> fl_present flags \<Longrightarrow> distinct (l4 # drawn alloc n fa) \<Longrightarrow> translate_page t' l4 page = Some (frame, flags, [])
       \<and> map fst (walk_entries t' l4 (indices page)) = l4 # drawn alloc n fa"
proof -
  have w: "walk_entries t l4 (indices page) = [(l4, p4_index page)]"
    using assms(2) by (simp add: indices_def p4_index_def is_unused_def unused_entry_def flags_empty_def)
  obtain n where n: "map_effect alloc (indices page) frame flags l4 t fa t' fa' r n"
    using map_to_effect [OF assms(1)] by blast
  show thesis
  proof (rule that)
    show "fa' = after_draws alloc n fa" using n by (simp add: map_effect_def)
    show "t' f i = t f i" if "f \<notin> set (drawn alloc n fa)" "f \<noteq> l4 \<or> i \<noteq> p4_index page" for f i
      using n that unfolding map_effect_def w by auto
    show "translate_page t' l4 page = Some (frame, flags, []) \<and> map fst (walk_entries t' l4 (indices page)) = l4 # drawn alloc n fa"
      if "r = Ok ()" "fl_present flags" "distinct (l4 # drawn alloc n fa)"
      using n that unfolding map_effect_def w translate_page_def by simp
  qed
qed

end

section \<open>An implementation on the tables\<close>

fun insert_walk ::
    "'fa allocate_frame \<Rightarrow> nat list \<Rightarrow> u64 \<Rightarrow> page_flags \<Rightarrow> u64 \<Rightarrow> tables \<Rightarrow> 'fa \<Rightarrow> tables \<times> 'fa \<times> (map_to_error, unit) result" where
  "insert_walk alloc [] frame flags f t fa = (t, fa, Err ParentEntryHugePage)"
| "insert_walk alloc [i] frame flags f t fa =
     (if is_unused (t f i)
      then (t(f := (t f)(i := \<lparr>pte_addr = frame, pte_flags = flags, pte_huge = False\<rparr>)), fa, Ok ())
      else (t, fa, Err PageAlreadyMapped))"
| "insert_walk alloc (i # j # is) frame flags f t fa =
     (let e = t f i
      in if is_unused e then
           (case alloc fa of
              (fa', None) \<Rightarrow> (t, fa', Err FrameAllocationFailed)
            | (fa', Some n) \<Rightarrow>
                let t = t(n := \<lambda>k. unused_entry);
                    t = t(f := (t f)(i := \<lparr>pte_addr = n, pte_flags = present_writable, pte_huge = False\<rparr>))
                in insert_walk alloc (j # is) frame flags n t fa')
         else if \<not> fl_present (pte_flags e) \<or> pte_huge e then (t, fa, Err ParentEntryHugePage)
         else insert_walk alloc (j # is) frame flags (pte_addr e) t fa)"

lemma unused_not_present: "is_unused e \<Longrightarrow> \<not> fl_present (pte_flags e)"
  by (simp add: is_unused_def unused_entry_def flags_empty_def)

lemma unused_kept: "is_unused e \<Longrightarrow> entry_kept e e'"
  using unused_not_present by (simp add: entry_kept_def)

text \<open>A table whose entries all lead back to it is left by no walk.\<close>

lemma walk_entries_own:
  assumes "\<forall>l. fl_present (pte_flags (t n l)) \<longrightarrow> pte_addr (t n l) = n"
  shows "(g, l) \<in> set (walk_entries t n is) \<Longrightarrow> g = n"
  using assms by (induction "is") (auto simp: Let_def split: if_splits)

lemma last_entry_step:
  "fl_present (pte_flags (t f i)) \<Longrightarrow> \<not> pte_huge (t f i) \<Longrightarrow> last_entry t f (i # j # is) = last_entry t (pte_addr (t f i)) (j # is)"
  by (simp add: last_entry_def Let_def)

text \<open>The two recursive cases of the insertion: a missing table is created, and an existing one is entered.\<close>

lemma map_effect_create:
  fixes t :: tables
  defines "t0 n \<equiv> t(n := \<lambda>k. unused_entry)"
  defines "t1 f i n \<equiv> (t0 n)(f := (t0 n f)(i := \<lparr>pte_addr = n, pte_flags = present_writable, pte_huge = False\<rparr>))"
  assumes unused: "is_unused (t f i)" and a: "alloc fa = (fa1, Some n)"
    and eff: "map_effect alloc (j # is) frame flags n (t1 f i n) fa1 t' fa' r k"
  shows "map_effect alloc (i # j # is) frame flags f t fa t' fa' r (Suc k)"
proof -
  have own: "(g, l) \<in> set (walk_entries (t1 f i n) n (j # is)) \<Longrightarrow> g = n" for g l
    by (erule walk_entries_own [rotated]) (simp add: t1_def t0_def unused_entry_def flags_empty_def)
  have t1: "t1 f i n g l = t g l" if "g \<noteq> n" "(g, l) \<noteq> (f, i)" for g l
    using that by (auto simp: t1_def t0_def)
  have d: "drawn alloc (Suc k) fa = n # drawn alloc k fa1" using a by simp
  have w: "walk_entries t f (i # j # is) = [(f, i)]" using unused_not_present [OF unused] by simp
  have changes: "g \<in> set (n # drawn alloc k fa1) \<or> (g, l) \<in> set [(f, i)] \<and> entry_kept (t g l) (t' g l)" if "t' g l \<noteq> t g l" for g l
  proof (cases "t' g l = t1 f i n g l")
    case True
    then have "g = n \<or> (g, l) = (f, i)" using that t1 by metis
    then show ?thesis using unused_kept [OF unused] by auto
  next
    case False
    then have "g \<in> set (drawn alloc k fa1) \<or> g = n" using eff own unfolding map_effect_def by blast
    then show ?thesis by auto
  qed
  have walk: "walk_tables t' f (i # j # is) = Some (frame, flags, []) \<and> map fst (walk_entries t' f (i # j # is)) = f # n # drawn alloc k fa1
      \<and> \<not> pte_huge (last_entry t' f (i # j # is))"
    if "r = Ok ()" "fl_present flags" "distinct (f # n # drawn alloc k fa1)"
  proof -
    have ne: "f \<noteq> n" "f \<notin> set (drawn alloc k fa1)" using that(3) by simp_all
    then have "walk_entries (t1 f i n) n (j # is) = [(n, j)]" by (simp add: t1_def t0_def unused_entry_def flags_empty_def)
    then have "walk_tables t' n (j # is) = Some (frame, flags, [])" "map fst (walk_entries t' n (j # is)) = n # drawn alloc k fa1"
      "\<not> pte_huge (last_entry t' n (j # is))"
      using eff that by (simp_all add: map_effect_def del: walk_entries.simps walk_tables.simps)
    moreover have "t' f i = t1 f i n f i" using eff ne own unfolding map_effect_def by blast
    ultimately show ?thesis
      using last_entry_step [of t' f i j "is"]
      by (simp add: t1_def present_writable_def del: walk_entries.simps(2)) (simp add: t1_def present_writable_def)
  qed
  have "fa' = after_draws alloc (Suc k) fa" using eff a by (simp add: map_effect_def funpow_Suc_right del: funpow.simps)
  then show ?thesis using eff changes walk unfolding map_effect_def w d by (simp del: walk_entries.simps walk_tables.simps)
qed

lemma map_effect_enter:
  assumes e: "fl_present (pte_flags (t f i))" "\<not> pte_huge (t f i)"
    and eff: "map_effect alloc (j # is) frame flags (pte_addr (t f i)) t fa t' fa' r k"
  shows "map_effect alloc (i # j # is) frame flags f t fa t' fa' r k"
proof -
  let ?w = "walk_entries t (pte_addr (t f i)) (j # is)"
  have w: "walk_entries t f (i # j # is) = (f, i) # ?w" using e by (simp add: Let_def)
  have walk: "walk_tables t' f (i # j # is) = Some (frame, flags, []) \<and> map fst (walk_entries t' f (i # j # is)) = f # map fst ?w @ drawn alloc k fa
      \<and> \<not> pte_huge (last_entry t' f (i # j # is))"
    if ok: "r = Ok ()" "fl_present flags" "distinct (f # map fst ?w @ drawn alloc k fa)"
  proof -
    have ne: "f \<notin> fst ` set ?w" "f \<notin> set (drawn alloc k fa)" "distinct (map fst ?w @ drawn alloc k fa)"
      using ok(3) by (auto simp del: walk_entries.simps)
    have "(f, i) \<notin> set ?w" using ne(1) by force
    then have "t' f i = t f i" using eff ne(2) unfolding map_effect_def by blast
    moreover have "walk_tables t' (pte_addr (t f i)) (j # is) = Some (frame, flags, [])"
      "map fst (walk_entries t' (pte_addr (t f i)) (j # is)) = map fst ?w @ drawn alloc k fa"
      "\<not> pte_huge (last_entry t' (pte_addr (t f i)) (j # is))"
      using eff ok(1,2) ne(3) unfolding map_effect_def by blast+
    ultimately show ?thesis
      using e walk_entries.simps(2) [of t' f i "j # is"] walk_tables.simps(2) [of t' f i "j # is"] last_entry_step [of t' f i j "is"]
      by (simp del: walk_entries.simps walk_tables.simps)
  qed
  show ?thesis using eff walk unfolding map_effect_def w
    by (simp del: walk_entries.simps walk_tables.simps) blast
qed

lemma insert_walk_effect:
  assumes "insert_walk alloc is frame flags f t fa = (t', fa', r)" and "is \<noteq> []"
  shows "\<exists>n. map_effect alloc is frame flags f t fa t' fa' r n"
  using assms
proof (induction alloc "is" frame flags f t fa arbitrary: t' fa' r rule: insert_walk.induct)
  case (1 alloc frame flags f t fa)
  then show ?case by simp
next
  case (2 alloc i frame flags f t fa)
  then show ?case by (intro exI [of _ 0]) (auto simp: map_effect_def last_entry_def Let_def unused_kept unused_not_present split: if_splits)
next
  case (3 alloc i j "is" frame flags f t fa)
  let ?e = "t f i"
  consider (none) fa1 where "is_unused ?e" "alloc fa = (fa1, None)"
    | (fresh) fa1 n where "is_unused ?e" "alloc fa = (fa1, Some n)"
    | (blocked) "\<not> is_unused ?e" "\<not> fl_present (pte_flags ?e) \<or> pte_huge ?e"
    | (descend) "\<not> is_unused ?e" "fl_present (pte_flags ?e)" "\<not> pte_huge ?e"
    by (metis option.exhaust prod.exhaust)
  then show ?case
  proof cases
    case none
    then show ?thesis using 3(3) by (intro exI [of _ 1]) (auto simp: map_effect_def)
  next
    case blocked
    then show ?thesis using 3(3) by (intro exI [of _ 0]) (auto simp: map_effect_def)
  next
    case (fresh fa1 n)
    let ?t0 = "t(n := \<lambda>k. unused_entry)"
    let ?t = "?t0(f := (?t0 f)(i := \<lparr>pte_addr = n, pte_flags = present_writable, pte_huge = False\<rparr>))"
    have "insert_walk alloc (j # is) frame flags n ?t fa1 = (t', fa', r)" using 3(3) fresh by (simp add: Let_def)
    from 3(1) [OF refl fresh(1) fresh(2) [symmetric] refl refl refl this list.distinct(2)]
    show ?thesis using map_effect_create [of t f i alloc fa fa1 n, OF fresh(1,2)] by blast
  next
    case descend
    have ins: "insert_walk alloc (j # is) frame flags (pte_addr ?e) t fa = (t', fa', r)" using 3(3) descend by (simp add: Let_def)
    have "\<not> (\<not> fl_present (pte_flags ?e) \<or> pte_huge ?e)" using descend(2,3) by simp
    from 3(2) [OF refl descend(1) this ins list.distinct(2)]
    obtain k where "map_effect alloc (j # is) frame flags (pte_addr ?e) t fa t' fa' r k" ..
    then show ?thesis using map_effect_enter [of t f i, OF descend(2,3)] by metis
  qed
qed

definition table_map_to :: "u64 \<Rightarrow> (tables, 'fa) map_to" where
  "table_map_to l4 alloc page frame flags t fa = insert_walk alloc (indices page) frame flags l4 t fa"

interpretation four_level: table_mapper table_map_to
  by standard (rule insert_walk_effect, auto simp: table_map_to_def indices_def)

section \<open>Fresh frames\<close>

text \<open>The frames the physical allocator can still hand out.\<close>

definition free_frame :: "physical_allocator \<Rightarrow> u64 \<Rightarrow> bool" where
  "free_frame phys f \<longleftrightarrow> bt_get (pa_live_blocks phys) f = None
     \<and> unat (pa_base phys) \<le> unat f \<and> unat f < unat (pa_base phys) + unat (pa_total_pages phys) * 4096"

definition phys_ready :: "physical_allocator \<Rightarrow> bool" where
  "phys_ready phys \<longleftrightarrow> phys_inv phys \<and> 4096 dvd unat (pa_base phys)"

lemma adapter_total: "phys_inv s \<Longrightarrow> pa_total_pages (fst (adapter_allocate_frame s)) = pa_total_pages s"
  by (simp add: adapter_fst alloc_step_arena del: alloc_step.simps)

lemma adapter_free:
  assumes "phys_ready s" and "adapter_allocate_frame s = (s', Some f)"
  shows "phys_ready s'" and "free_frame s f" and "\<not> free_frame s' f" and "free_frame s' a \<Longrightarrow> free_frame s a"
proof -
  have inv: "phys_inv s" "4096 dvd unat (pa_base s)" using assms(1) by (simp_all add: phys_ready_def)
  note a = adapter_Some [OF inv assms(2)]
  have same: "pa_base s' = pa_base s" "pa_total_pages s' = pa_total_pages s"
    using a(4) adapter_total [OF inv(1)] assms(2) by simp_all
  show "phys_ready s'" using a(3) inv(2) same by (simp add: phys_ready_def)
  have "unat f = unat (pa_base s') + page_no (pa_base s') f * 4096" "page_no (pa_base s') f + 2 ^ 0 \<le> unat (pa_total_pages s')"
    using live_block_place(1,2) [OF a(3) a(2)] by simp_all
  then show "free_frame s f" using a(1) same by (simp add: free_frame_def)
  show "\<not> free_frame s' f" using a(2) by (simp add: free_frame_def)
  show "free_frame s' a \<Longrightarrow> free_frame s a"
    using a(5) same by (cases "bt_get (pa_live_blocks s) a") (auto simp: free_frame_def)
qed

lemma adapter_None: "phys_ready s \<Longrightarrow> adapter_allocate_frame s = (s', None) \<Longrightarrow> s' = s"
  by (rule allocate_cases [of s 0]) (auto simp: phys_ready_def adapter_allocate_frame_def)

lemma drawn_fresh:
  assumes "phys_ready s"
  shows "distinct (drawn adapter_allocate_frame n s) \<and> set (drawn adapter_allocate_frame n s) \<subseteq> {f. free_frame s f}"
  using assms
proof (induction n arbitrary: s)
  case 0
  then show ?case by simp
next
  case (Suc n)
  obtain s' r where s': "adapter_allocate_frame s = (s', r)" by (cases "adapter_allocate_frame s")
  show ?case
  proof (cases r)
    case None
    then show ?thesis using Suc s' adapter_None [OF Suc.prems] by simp
  next
    case (Some f)
    note a = adapter_free [OF Suc.prems s' [unfolded Some]]
    show ?thesis using Suc.IH [OF a(1)] a(2-4) s' Some by auto
  qed
qed

text \<open>A frame that was drawn is in use afterwards.\<close>

lemma after_draws_used:
  assumes "phys_ready s"
  shows "phys_ready (after_draws adapter_allocate_frame n s)"
    and "free_frame (after_draws adapter_allocate_frame n s) a \<Longrightarrow> free_frame s a \<and> a \<notin> set (drawn adapter_allocate_frame n s)"
proof -
  have "phys_ready (after_draws adapter_allocate_frame n s)
    \<and> (free_frame (after_draws adapter_allocate_frame n s) a \<longrightarrow> free_frame s a \<and> a \<notin> set (drawn adapter_allocate_frame n s))"
    using assms
  proof (induction n arbitrary: s)
    case (Suc n)
    obtain s' r where s': "adapter_allocate_frame s = (s', r)" by (cases "adapter_allocate_frame s")
    have ready: "phys_ready s'" 
      using adapter_free(1) [OF Suc.prems] adapter_None [OF Suc.prems] Suc.prems s' by (cases r) auto
    have f: "after_draws adapter_allocate_frame (Suc n) s = after_draws adapter_allocate_frame n s'"
      using s' by (simp add: funpow_Suc_right del: funpow.simps)
    show ?case unfolding f using Suc.IH [OF ready] adapter_free(3,4) [OF Suc.prems] adapter_None [OF Suc.prems] s'
      by (cases r) auto
  qed simp
  then show "phys_ready (after_draws adapter_allocate_frame n s)"
    and "free_frame (after_draws adapter_allocate_frame n s) a \<Longrightarrow> free_frame s a \<and> a \<notin> set (drawn adapter_allocate_frame n s)"
    by blast+
qed

section \<open>Translations\<close>

text \<open>A walk depends on the tables it reads only.\<close>

lemma walk_cong:
  assumes "\<forall>(g, i) \<in> set (walk_entries t f is). t' g i = t g i"
  shows "walk_tables t' f is = walk_tables t f is"
  using assms by (induction t f "is" rule: walk_tables.induct) (auto simp: Let_def split: if_splits)

lemma entry_in_table_frames: "(g, i) \<in> set (walk_entries t l4 (indices vaddr)) \<Longrightarrow> g \<in> table_frames t l4"
  unfolding table_frames_def by force

lemma translate_cong:
  assumes "\<forall>f \<in> table_frames t l4. t' f = t f"
  shows "translate_page t' l4 vaddr = translate_page t l4 vaddr"
  unfolding translate_page_def by (rule walk_cong) (use assms entry_in_table_frames in fastforce)

lemma l4_in_table_frames: "l4 \<in> table_frames t l4"
  by (simp add: table_frames_def indices_def)

lemma table_index_less: "table_index level vaddr < 512"
  unfolding table_index_def
proof -
  have "unat (w AND 0x1FF) \<le> unat (0x1FF :: u64)" for w :: u64 by (simp only: word_le_nat_alt [symmetric] word_and_le1)
  then show "unat (drop_bit (12 + 9 * (level - 1)) vaddr AND 0x1FF) < 512"
    by (rule le_less_trans) simp
qed

lemma clone_entries_closed:
  assumes "new \<noteq> active"
  shows "clone_entries active new t = t(new := (\<lambda>i. if i < 512 then t active i else t new i))"
proof -
  have "fold (\<lambda>i t. t(new := (t new)(i := t active i))) [0..<n] t = t(new := (\<lambda>i. if i < n then t active i else t new i))" for n
    using assms by (induction n) (auto simp: fun_eq_iff less_Suc_eq)
  then show ?thesis by (simp only: clone_entries_def)
qed

text \<open>Two top-level tables with the same entry for a page translate_page it alike when the tables below it are the same.\<close>

lemma translate_shared:
  assumes "t' new (p4_index vaddr) = t active (p4_index vaddr)" and "\<forall>f \<in> table_frames t active. t' f = t f"
  shows "translate_page t' new vaddr = translate_page t active vaddr"
proof -
  obtain "is" where i: "indices vaddr = p4_index vaddr # is" by (simp add: indices_def p4_index_def)
  let ?e = "t active (p4_index vaddr)"
  have "walk_tables t' (pte_addr ?e) is = walk_tables t (pte_addr ?e) is" if "fl_present (pte_flags ?e)" "\<not> pte_huge ?e"
  proof (rule walk_cong)
    have "set (walk_entries t (pte_addr ?e) is) \<subseteq> set (walk_entries t active (indices vaddr))" using that i by (auto simp: Let_def)
    then show "\<forall>(g, i) \<in> set (walk_entries t (pte_addr ?e) is). t' g i = t g i"
      using assms(2) entry_in_table_frames by fastforce
  qed
  then show ?thesis using assms(1) by (simp add: translate_page_def i Let_def)
qed

section \<open>Construction\<close>

lemma allocate_is_adapter:
  assumes "phys_ready phys" and "allocate 0 phys = (phys', Ok a)"
  shows "adapter_allocate_frame phys = (phys', Some a)"
proof -
  have ad: "adapter_allocate_frame phys = (phys', Some (containing_address a))"
    using assms(2) by (simp add: adapter_allocate_frame_def)
  have "bt_get (pa_live_blocks phys') a = Some 0"
    by (rule allocate_cases [of phys 0]) (use assms in \<open>auto simp: phys_ready_def\<close>)
  then have "containing_address a = a"
    using live_block_aligned [of phys' a 0] adapter_free(1) [OF assms(1) ad] by (simp add: phys_ready_def)
  then show ?thesis using ad by simp
qed

text \<open>The steps of a successful construction, with the frames they draw from the allocator.\<close>

lemma new_address_space_steps:
  assumes "new_address_space map_to cpu s = (s', Some space)"
    and "PHYS (sp_globals s) = Some phys" and "phys_ready phys"
  obtains phys1 phys2 phys3 l4 frame t' where
    "adapter_allocate_frame phys = (phys1, Some l4)" "adapter_allocate_frame phys1 = (phys2, Some frame)"
    "map_to l4 adapter_allocate_frame PRIVATE_REGION_ADDR frame (data_flags cpu)
       (clone_entries (sp_cr3 s) l4 ((sp_tables s)(l4 := \<lambda>i. unused_entry))) phys2 = (t', phys3, Ok ())"
    "s' = s\<lparr>sp_globals := (sp_globals s)\<lparr>PHYS := Some phys3\<rparr>, sp_tables := t', sp_data := (sp_data s)(frame := PRIVATE_VALUE)\<rparr>"
    "l4_frame space = l4"
proof -
  have page: "containing_address PRIVATE_REGION_ADDR = PRIVATE_REGION_ADDR"
    by (simp add: containing_address_def PRIVATE_REGION_ADDR_def)
  from assms(1,2) obtain phys1 l4 where a: "allocate 0 phys = (phys1, Ok l4)"
    by (auto simp: new_address_space_def with_phys_def split: option.splits prod.splits sum.splits)
  note ad = allocate_is_adapter [OF assms(3) a]
  have l4: "containing_address l4 = l4" using ad a by (simp add: adapter_allocate_frame_def)
  let ?t = "clone_entries (sp_cr3 s) l4 ((sp_tables s)(l4 := \<lambda>i. unused_entry))"
  obtain t' phys3 frame where m: "map_page_with (map_to l4) adapter_allocate_frame PRIVATE_REGION_ADDR (data_flags cpu) ?t phys1 = (t', phys3, Ok frame)"
    and s': "s' = s\<lparr>sp_globals := (sp_globals s)\<lparr>PHYS := Some phys3\<rparr>, sp_tables := t', sp_data := (sp_data s)(frame := PRIVATE_VALUE)\<rparr>"
    and sp: "space = \<lparr>l4_frame = l4\<rparr>"
    using assms(1,2) a l4
    by (auto simp: new_address_space_def with_phys_def Let_def split: option.splits prod.splits sum.splits)
  from m obtain phys2 where "adapter_allocate_frame phys1 = (phys2, Some frame)"
    "map_to l4 adapter_allocate_frame PRIVATE_REGION_ADDR frame (data_flags cpu) ?t phys2 = (t', phys3, Ok ())"
    by (auto simp: map_page_with_def page split: prod.splits option.splits sum.splits)
  then show thesis using that [OF ad] s' sp by simp
qed

text \<open>
  The private mapping changes the fresh top-level table and fresh frames only, and its tables are frames that were free; \<open>F\<close> are
  frames in use.
\<close>

lemma private_mapping_effect:
  assumes "table_mapper map_to" and "phys_ready phys" and kept: "\<forall>f \<in> F. \<not> free_frame phys f" and "active \<in> F"
    and a1: "adapter_allocate_frame phys = (phys1, Some l4)" and a2: "adapter_allocate_frame phys1 = (phys2, Some frame)"
    and m: "map_to l4 adapter_allocate_frame page frame flags (clone_entries active l4 (t(l4 := \<lambda>i. unused_entry))) phys2 = (t', phys3, Ok ())"
    and absent: "is_unused (t active (p4_index page))" and "fl_present flags"
  shows "l4 \<noteq> active" and "frame \<noteq> l4" and "free_frame phys frame"
    and "\<forall>f \<in> F. t' f = t f"
    and "\<forall>vaddr. p4_index vaddr \<noteq> p4_index page \<longrightarrow> t' l4 (p4_index vaddr) = t active (p4_index vaddr)"
    and "translate_page t' l4 page = Some (frame, flags, [])"
    and "phys_ready phys3" and "\<forall>a. free_frame phys3 a \<longrightarrow> free_frame phys a"
    and "\<forall>g \<in> fst ` set (walk_entries t' l4 (indices page)). free_frame phys g \<and> \<not> free_frame phys3 g"
proof -
  note f1 = adapter_free [OF assms(2) a1]
  note f2 = adapter_free [OF f1(1) a2]
  show ne: "l4 \<noteq> active" using kept f1(2) assms(4) by blast
  show "frame \<noteq> l4" "free_frame phys frame" using f1(3,4) f2(2) by blast+
  define t1 where "t1 = clone_entries active l4 (t(l4 := \<lambda>i. unused_entry))"
  have t: "t1 = t(l4 := \<lambda>i. if i < 512 then t active i else unused_entry)"
    using clone_entries_closed [OF ne] ne by (simp add: t1_def fun_eq_iff)
  have "is_unused (t1 l4 (p4_index page))" using absent by (simp add: t p4_index_def table_index_less)
  then obtain n where p3: "phys3 = after_draws adapter_allocate_frame n phys2" and
    same: "\<And>f i. f \<notin> set (drawn adapter_allocate_frame n phys2) \<Longrightarrow> f \<noteq> l4 \<or> i \<noteq> p4_index page \<Longrightarrow> t' f i = t1 f i"
    and tr: "fl_present flags \<Longrightarrow> distinct (l4 # drawn adapter_allocate_frame n phys2) \<Longrightarrow> translate_page t' l4 page = Some (frame, flags, [])
      \<and> map fst (walk_entries t' l4 (indices page)) = l4 # drawn adapter_allocate_frame n phys2"
    by (rule table_mapper.map_into_empty [OF assms(1) m [folded t1_def]]) (rule that [OF _ _ _], assumption+, use refl in blast)
  note fresh = drawn_fresh [OF f2(1), of n]
  have l4_kept: "l4 \<notin> set (drawn adapter_allocate_frame n phys2)" using fresh f1(3) f2(4) by blast
  have w: "translate_page t' l4 page = Some (frame, flags, []) \<and> map fst (walk_entries t' l4 (indices page)) = l4 # drawn adapter_allocate_frame n phys2"
    using tr assms(9) fresh l4_kept by simp
  then show "translate_page t' l4 page = Some (frame, flags, [])" by simp
  note used = after_draws_used [OF f2(1), of n, folded p3]
  show "phys_ready phys3" "\<forall>a. free_frame phys3 a \<longrightarrow> free_frame phys a" using used f1(4) f2(4) by blast+
  have "fst ` set (walk_entries t' l4 (indices page)) = insert l4 (set (drawn adapter_allocate_frame n phys2))"
    using arg_cong [OF conjunct2 [OF w], of set] by (simp only: set_map list.set)
  then show "\<forall>g \<in> fst ` set (walk_entries t' l4 (indices page)). free_frame phys g \<and> \<not> free_frame phys3 g"
    using fresh used(2) f1(2-4) f2(4) by (simp only:) blast
  show "\<forall>f \<in> F. t' f = t f"
  proof
    fix f assume "f \<in> F"
    then have "\<not> free_frame phys f" using kept by blast
    then have "f \<notin> set (drawn adapter_allocate_frame n phys2)" "f \<noteq> l4" using fresh f1(2,4) f2(4) by blast+
    then show "t' f = t f" using same by (simp add: t fun_eq_iff)
  qed
  show "\<forall>vaddr. p4_index vaddr \<noteq> p4_index page \<longrightarrow> t' l4 (p4_index vaddr) = t active (p4_index vaddr)"
    using same [OF l4_kept] by (simp add: t p4_index_def table_index_less)
qed

section \<open>A sample\<close>

definition sample_space :: "unit space_state" where
  "sample_space =
     \<lparr>sp_globals = \<lparr>MAPPER = None, PHYS = Some sample_phys, PHYS_MEM_OFFSET = Some 0x18000000000, PAGE_FAULTS_DEMAND_PAGED = 0\<rparr>,
      sp_tables = (\<lambda>f i. unused_entry), sp_data = (\<lambda>a. 0), sp_cr3 = 0x101000\<rparr>"

text \<open>Four free frames after the top-level table are enough, one for the page and three for its tables.\<close>

lemma insert_walk_fresh:
  assumes "is_unused (t l4 i4)" and "alloc fa = (fa1, Some n1)" and "alloc fa1 = (fa2, Some n2)" and "alloc fa2 = (fa3, Some n3)"
    and "n1 \<noteq> l4" and "n2 \<noteq> n1" and "n3 \<noteq> n2"
  shows "\<exists>t'. insert_walk alloc [i4, i3, i2, i1] frame flags l4 t fa = (t', fa3, Ok ())"
  using assms by (simp add: Let_def is_unused_def)

lemma length_drawn: "length (drawn alloc n fa) \<le> n"
  by (induction n arbitrary: fa) (auto split: prod.splits option.splits intro: le_SucI)

lemma drawn_all:
  "drawn alloc (length (f # fs)) fa = f # fs \<longleftrightarrow>
     (\<exists>fa1. alloc fa = (fa1, Some f) \<and> drawn alloc (length fs) fa1 = fs)"
  using length_drawn [of alloc "length fs"] by (auto split: prod.splits option.splits) (metis length_Cons not_less_eq_eq order_refl)

lemma sample_draws:
  "drawn adapter_allocate_frame (length [0x8000 :: u64, 0x7000, 0x6000, 0x5000, 0x4000]) sample_phys = [0x8000, 0x7000, 0x6000, 0x5000, 0x4000]"
  by code_simp

lemma sample_space_built:
  "\<exists>s' space. new_address_space table_map_to cpu sample_space = (s', Some space)"
proof -
  obtain p1 p2 p3 p4 p5 where p: "adapter_allocate_frame sample_phys = (p1, Some 0x8000)" "adapter_allocate_frame p1 = (p2, Some 0x7000)"
    "adapter_allocate_frame p2 = (p3, Some 0x6000)" "adapter_allocate_frame p3 = (p4, Some 0x5000)"
    "adapter_allocate_frame p4 = (p5, Some 0x4000)"
    using sample_draws by (simp only: drawn_all) blast
  have "snd (allocate 0 sample_phys) = Ok 0x8000" by code_simp
  then have a: "allocate 0 sample_phys = (p1, Ok 0x8000)"
    using p(1) by (cases "allocate 0 sample_phys") (simp add: adapter_allocate_frame_def)
  define t1 where "t1 = clone_entries 0x101000 0x8000 (sp_tables sample_space)"
  have "is_unused (t1 0x8000 (table_index 4 PRIVATE_REGION_ADDR))"
    by (simp add: t1_def clone_entries_closed sample_space_def is_unused_def)
  then obtain t' where "table_map_to 0x8000 adapter_allocate_frame PRIVATE_REGION_ADDR 0x7000 (data_flags cpu) t1 p2 = (t', p5, Ok ())"
    using insert_walk_fresh [of t1 "0x8000" _ adapter_allocate_frame p2 p3 "0x6000" p4 "0x5000" p5 "0x4000"] p(3-5)
    by (fastforce simp: table_map_to_def indices_def)
  moreover have "containing_address PRIVATE_REGION_ADDR = PRIVATE_REGION_ADDR"
    by (simp add: containing_address_def PRIVATE_REGION_ADDR_def)
  moreover have "(\<lambda>f i. unused_entry)(0x8000 := \<lambda>i. unused_entry) = (\<lambda>(f :: u64) (i :: nat). unused_entry)" by (rule fun_upd_triv)
  ultimately show ?thesis
    using a p(2) unfolding t1_def
    by (simp add: new_address_space_def sample_space_def phys_mem_offset_def with_phys_def Let_def map_page_with_def)
qed

end
