(* ===== verification/Demo_Tasks.thy ===== *)
theory Demo_Tasks
  imports Kernel_Tasks Address_Space
begin

text \<open>
  The demonstration tasks of \<open>scheduler_bridge.rs\<close> and the read-backs of the boot self-test. Two tasks count for ever, the third exits
  after five iterations, the first then spawns a fourth into the slot that became free, and a task bound to its own
  address space checks its private page. A task is preempted at any point, so the place where it continues is part
  of the state; what a point does is one step. A task that waits in \<open>hlt\<close> goes on after some interrupt.
  \<open>load\<close> is a read of the memory through the loaded page table, \<open>None\<close> for a page fault; \<open>task_d\<close> is the address of \<open>task_d_entry\<close>.
  The counters count iterations only: the lines a task prints are not modelled.
\<close>

section \<open>State\<close>

datatype a_point = A_count | A_spawn | A_hlt
datatype b_point = B_count | B_hlt
datatype c_point = C_loop nat | C_hlt nat
datatype d_point = D_count | D_hlt
datatype e_point = E_read | E_value u64 | E_hlt

datatype task_point = In_A a_point | In_B b_point | In_C c_point | In_D d_point | In_E e_point

record 'm demo =
  kern :: "'m kernel"
  COUNTER_A :: u64
  COUNTER_B :: u64
  COUNTER_C :: u64
  COUNTER_D :: u64
  COUNTER_E :: u64
  TASK_D_SPAWNED :: bool
  TASK_C_PID :: "u64 option"
  TASK_D_SPAWN_SLOT :: "nat option"
  points :: "u64 \<rightharpoonup> task_point"

section \<open>The bodies of the tasks\<close>

fun task_a_entry ::
    "('m, physical_allocator) map_to \<Rightarrow> cpu_control \<Rightarrow> u64 \<Rightarrow> u64 \<Rightarrow> a_point \<Rightarrow> 'm demo \<Rightarrow> ('m demo \<times> a_point) option" where
  "task_a_entry map_to cpu trampoline task_d A_count s = Some (s\<lparr>COUNTER_A := COUNTER_A s + 1\<rparr>, A_spawn)"
| "task_a_entry map_to cpu trampoline task_d A_spawn s =
     (if TASK_C_EXITED (kern s) \<and> \<not> TASK_D_SPAWNED s then
        (case spawn_task map_to cpu trampoline task_d (kern s) of
           None \<Rightarrow> None
         | Some (k, None) \<Rightarrow> Some (s\<lparr>kern := k, TASK_D_SPAWNED := True\<rparr>, A_hlt)
         | Some (k, Some pid) \<Rightarrow>
             Some (s\<lparr>kern := k, TASK_D_SPAWNED := True, TASK_D_SPAWN_SLOT := slot_index_for_pid pid k,
                     points := (points s)(pid \<mapsto> In_D D_count)\<rparr>, A_hlt))
      else Some (s, A_hlt))"
| "task_a_entry map_to cpu trampoline task_d A_hlt s = Some (s, A_count)"

fun task_b_entry :: "b_point \<Rightarrow> 'm demo \<Rightarrow> 'm demo \<times> b_point" where
  "task_b_entry B_count s = (s\<lparr>COUNTER_B := COUNTER_B s + 1\<rparr>, B_hlt)"
| "task_b_entry B_hlt s = (s, B_count)"

text \<open>The argument counts the iterations of the loop that are complete; the task has no next point once it has exited.\<close>

fun task_c_entry :: "u64 \<Rightarrow> c_point \<Rightarrow> 'm demo \<Rightarrow> 'm demo \<times> c_point option" where
  "task_c_entry ra (C_loop i) s =
     (if i < 5 then (s\<lparr>COUNTER_C := COUNTER_C s + 1\<rparr>, Some (C_hlt i))
      else (s\<lparr>kern := exit_current_task ra (kern s)\<rparr>, None))"
| "task_c_entry ra (C_hlt i) s = (s, Some (C_loop (Suc i)))"

fun task_d_entry :: "d_point \<Rightarrow> 'm demo \<Rightarrow> 'm demo \<times> d_point" where
  "task_d_entry D_count s = (s\<lparr>COUNTER_D := COUNTER_D s + 1\<rparr>, D_hlt)"
| "task_d_entry D_hlt s = (s, D_count)"

fun task_e_entry ::
    "(u64 \<Rightarrow> 'm paging_globals \<Rightarrow> u64 \<Rightarrow> u64 option) \<Rightarrow> e_point \<Rightarrow> 'm demo \<Rightarrow> ('m demo \<times> e_point) option" where
  "task_e_entry load E_read s =
     map_option (\<lambda>v. (s, E_value v)) (load (cr3 (kern s)) (globals (kern s)) PRIVATE_REGION_ADDR)"
| "task_e_entry load (E_value v) s =
     Some (if v = PRIVATE_VALUE then s\<lparr>COUNTER_E := COUNTER_E s + 1\<rparr> else s, E_hlt)"
| "task_e_entry load E_hlt s = Some (s, E_read)"

text \<open>One step of a task. \<open>None\<close> is a panic of the spawn, a page fault of the read, or no task.\<close>

abbreviation at_point :: "u64 \<Rightarrow> task_point option \<Rightarrow> 'm demo \<Rightarrow> 'm demo" where
  "at_point pid q s \<equiv> s\<lparr>points := (points s)(pid := q)\<rparr>"

definition task_action ::
    "('m, physical_allocator) map_to \<Rightarrow> cpu_control \<Rightarrow> (u64 \<Rightarrow> 'm paging_globals \<Rightarrow> u64 \<Rightarrow> u64 option) \<Rightarrow> u64 \<Rightarrow> u64
     \<Rightarrow> u64 \<Rightarrow> u64 \<Rightarrow> 'm demo \<Rightarrow> 'm demo option" where
  "task_action map_to cpu load trampoline task_d ra pid s =
     (case points s pid of
        None \<Rightarrow> None
      | Some (In_A p) \<Rightarrow> map_option (\<lambda>(s, q). at_point pid (Some (In_A q)) s) (task_a_entry map_to cpu trampoline task_d p s)
      | Some (In_B p) \<Rightarrow> (case task_b_entry p s of (s, q) \<Rightarrow> Some (at_point pid (Some (In_B q)) s))
      | Some (In_C p) \<Rightarrow> (case task_c_entry ra p s of (s, q) \<Rightarrow> Some (at_point pid (map_option In_C q) s))
      | Some (In_D p) \<Rightarrow> (case task_d_entry p s of (s, q) \<Rightarrow> Some (at_point pid (Some (In_D q)) s))
      | Some (In_E p) \<Rightarrow> map_option (\<lambda>(s, q). at_point pid (Some (In_E q)) s) (task_e_entry load p s))"

section \<open>The read-backs of the self-test\<close>

definition both_tasks_made_real_progress :: "'m demo \<Rightarrow> bool" where
  "both_tasks_made_real_progress s \<longleftrightarrow> 0 < COUNTER_A s \<and> 0 < COUNTER_B s"

definition task_c_really_exited :: "'m demo \<Rightarrow> bool" where
  "task_c_really_exited s =
     (if COUNTER_C s < 5 \<or> \<not> TASK_C_EXITED (kern s) then False
      else (case TASK_C_PID s of
              None \<Rightarrow> False
            | Some pid \<Rightarrow>
                let still_queued = (case SCHEDULER (kern s) of None \<Rightarrow> False | Some rq \<Rightarrow> get_process pid rq \<noteq> None)
                in \<not> still_queued))"

definition task_reused_a_guarded_slot :: "'m demo \<Rightarrow> bool" where
  "task_reused_a_guarded_slot s \<longleftrightarrow>
     (let exit_slot = TASK_EXIT_SLOT (kern s)
      in 0 < COUNTER_D s \<and> exit_slot \<noteq> None \<and> exit_slot = TASK_D_SPAWN_SLOT s)"

definition task_e_verified_own_address_space :: "'m demo \<Rightarrow> bool" where
  "task_e_verified_own_address_space s \<longleftrightarrow> 0 < COUNTER_E s"

section \<open>Executions\<close>

text \<open>
  \<open>init\<close> spawns the tasks with the identifiers 0 to 3 in order, the last one only when its address space was built.
\<close>

definition demo_init ::
    "('m, physical_allocator) map_to \<Rightarrow> cpu_control \<Rightarrow> ('m paging_globals \<Rightarrow> 'm paging_globals \<times> u64 option)
     \<Rightarrow> u64 \<Rightarrow> u64 \<Rightarrow> u64 \<Rightarrow> u64 \<Rightarrow> u64 \<Rightarrow> 'm kernel \<Rightarrow> 'm demo option" where
  "demo_init map_to cpu new_space trampoline task_a task_b task_c task_e k =
     map_option (\<lambda>(k, c).
        \<lparr>kern = k, COUNTER_A = 0, COUNTER_B = 0, COUNTER_C = 0, COUNTER_D = 0, COUNTER_E = 0,
         TASK_D_SPAWNED = False, TASK_C_PID = c, TASK_D_SPAWN_SLOT = None,
         points = [0 \<mapsto> In_A A_count, 1 \<mapsto> In_B B_count, 2 \<mapsto> In_C (C_loop 0)]
           (3 := if slot_index_for_pid 3 k = None then None else Some (In_E E_read))\<rparr>)
       (init_tasks map_to cpu new_space trampoline task_a task_b task_c task_e k)"

inductive demo_step ::
    "('m, physical_allocator) map_to \<Rightarrow> cpu_control \<Rightarrow> (u64 \<Rightarrow> 'm paging_globals \<Rightarrow> u64 \<Rightarrow> u64 option) \<Rightarrow> u64 \<Rightarrow> u64
     \<Rightarrow> 'm demo \<Rightarrow> 'm demo \<Rightarrow> bool"
  for map_to :: "('m, physical_allocator) map_to" and cpu :: cpu_control
    and load :: "u64 \<Rightarrow> 'm paging_globals \<Rightarrow> u64 \<Rightarrow> u64 option" and trampoline :: u64 and task_d :: u64 where
  action: "task_action map_to cpu load trampoline task_d ra (CURRENT (kern s)) s = Some s'
      \<Longrightarrow> demo_step map_to cpu load trampoline task_d s s'"
| preempt: "demo_step map_to cpu load trampoline task_d s (s\<lparr>kern := on_timer_tick ra (kern s)\<rparr>)"
| compute: "demo_step map_to cpu load trampoline task_d s (s\<lparr>kern := (kern s)\<lparr>cpu_state := m\<rparr>\<rparr>)"

inductive demo_steps ::
    "('m, physical_allocator) map_to \<Rightarrow> cpu_control \<Rightarrow> (u64 \<Rightarrow> 'm paging_globals \<Rightarrow> u64 \<Rightarrow> u64 option) \<Rightarrow> u64 \<Rightarrow> u64
     \<Rightarrow> 'm demo \<Rightarrow> 'm demo \<Rightarrow> bool"
  for map_to :: "('m, physical_allocator) map_to" and cpu :: cpu_control
    and load :: "u64 \<Rightarrow> 'm paging_globals \<Rightarrow> u64 \<Rightarrow> u64 option" and trampoline :: u64 and task_d :: u64 where
  demo_start: "demo_steps map_to cpu load trampoline task_d s s"
| demo_next: "demo_steps map_to cpu load trampoline task_d s s' \<Longrightarrow> demo_step map_to cpu load trampoline task_d s' s''
      \<Longrightarrow> demo_steps map_to cpu load trampoline task_d s s''"

section \<open>What the kernel operations do to the slots\<close>

abbreviation pool_view :: "'m kernel \<Rightarrow> (u64 option \<times> u64 option) list" where
  "pool_view k \<equiv> map (\<lambda>s. (ts_pid s, ts_address_space s)) (TASK_SLOTS k)"

lemma position_map: "position P (map f xs) = position (P \<circ> f) xs"
  by (induction xs) auto

lemma free_position: "position (\<lambda>s. ts_pid s = None) (TASK_SLOTS k) = position (\<lambda>e. fst e = None) (pool_view k)"
  by (simp add: position_map comp_def)

lemma pid_position: "slot_index_for_pid p k = position (\<lambda>e. fst e = Some p) (pool_view k)"
  by (simp add: slot_index_for_pid_def position_map comp_def)

lemma store_context_rest [simp]:
  "globals (store_context p sp k) = globals k" "TASK_C_EXITED (store_context p sp k) = TASK_C_EXITED k"
  "TASK_EXIT_SLOT (store_context p sp k) = TASK_EXIT_SLOT k"
  by (simp_all add: store_context_def split: option.splits)

lemma switch_address_space_rest [simp]:
  "globals (switch_address_space_to p k) = globals k" "TASK_C_EXITED (switch_address_space_to p k) = TASK_C_EXITED k"
  "TASK_EXIT_SLOT (switch_address_space_to p k) = TASK_EXIT_SLOT k"
  by (simp_all add: switch_address_space_to_def split: option.splits)

lemma tick_rest:
  "globals (on_timer_tick ra k) = globals k" "TASK_C_EXITED (on_timer_tick ra k) = TASK_C_EXITED k"
  "TASK_EXIT_SLOT (on_timer_tick ra k) = TASK_EXIT_SLOT k"
  by (simp_all add: on_timer_tick_def Let_def split_beta split: option.splits)

lemma dispatched_rest [simp]:
  "globals (dispatched ra n k) = globals k" "TASK_C_EXITED (dispatched ra n k) = TASK_C_EXITED k"
  "TASK_EXIT_SLOT (dispatched ra n k) = TASK_EXIT_SLOT k"
  by (simp_all add: dispatched_def Let_def)

lemma exit_view:
  assumes "slot_index_for_pid (CURRENT k) k = Some i"
  shows "pool_view (exit_current_task ra k) = (pool_view k)[i := (None, snd (pool_view k ! i))]"
    and "TASK_EXIT_SLOT (exit_current_task ra k) = Some i" and "TASK_C_EXITED (exit_current_task ra k)"
    and "globals (exit_current_task ra k) = globals k" and "MAPPED (exit_current_task ra k) = MAPPED k"
    and "NEXT_PID (exit_current_task ra k) = NEXT_PID k" and "DEFAULT_L4_FRAME (exit_current_task ra k) = DEFAULT_L4_FRAME k"
proof -
  have i: "i < length (TASK_SLOTS k)" using position_Some assms by (fastforce simp: slot_index_for_pid_def)
  show "pool_view (exit_current_task ra k) = (pool_view k)[i := (None, snd (pool_view k ! i))]"
    using assms i by (simp add: exit_closed retired_def slot_index_for_pid_def Let_def map_update)
qed (use assms in \<open>simp_all add: exit_closed retired_def slot_index_for_pid_def Let_def\<close>)

text \<open>A spawn takes the first free slot; when its stack is mapped already, the page tables do not change.\<close>

lemma spawn_view:
  assumes "spawn_task_impl map_to cpu trampoline entry address_space k = Some (k', r)"
    and free: "position (\<lambda>e. fst e = None) (pool_view k) = Some i"
  shows "r = Some (NEXT_PID k)" and "pool_view k' = (pool_view k)[i := (Some (NEXT_PID k), address_space)]"
    and "NEXT_PID k' = NEXT_PID k + 1" and "MAPPED k' = (MAPPED k)[i := True]" and "CURRENT k' = CURRENT k" and "cr3 k' = cr3 k"
    and "DEFAULT_L4_FRAME k' = DEFAULT_L4_FRAME k" and "TASK_C_EXITED k' = TASK_C_EXITED k" and "TASK_EXIT_SLOT k' = TASK_EXIT_SLOT k"
    and "\<exists>mapped t. ensure_slot_mapped map_to cpu i (globals k) (MAPPED k) = Some (globals k', mapped, t)"
    and "MAPPED k ! i \<Longrightarrow> globals k' = globals k" and "TICKS k' = TICKS k"
    and "SCHEDULER k' = map_option (add_process \<lparr>proc_pid = NEXT_PID k, proc_class = Normal, proc_state = Ready,
           proc_vruntime = 0\<rparr>) (SCHEDULER k)"
proof -
  have pos: "position (\<lambda>s. ts_pid s = None) (TASK_SLOTS k) = Some i" using free by (simp add: free_position)
  from assms(1) pos obtain g mapped t where e: "ensure_slot_mapped map_to cpu i (globals k) (MAPPED k) = Some (g, mapped, t)"
    by (auto simp: spawn_task_impl_def Let_def split: option.splits)
  obtain memory sp where i: "init_stack (t - STACK_SIZE) STACK_SIZE trampoline entry (mem (cpu_state k)) = (memory, sp)"
    by (metis surj_pair)
  have k': "k' = k\<lparr>NEXT_PID := NEXT_PID k + 1, globals := g, MAPPED := mapped, cpu_state := (cpu_state k)\<lparr>mem := memory\<rparr>,
         TASK_SLOTS := (TASK_SLOTS k)[i := \<lparr>ts_pid = Some (NEXT_PID k), ts_rsp = sp, ts_address_space = address_space\<rparr>],
         SCHEDULER := map_option (add_process \<lparr>proc_pid = NEXT_PID k, proc_class = Normal, proc_state = Ready,
           proc_vruntime = 0\<rparr>) (SCHEDULER k)\<rparr>" and "r = Some (NEXT_PID k)"
    using assms(1) pos e i by (auto simp: spawn_task_impl_def Let_def)
  then show "r = Some (NEXT_PID k)" by simp
  show "\<exists>mapped t. ensure_slot_mapped map_to cpu i (globals k) (MAPPED k) = Some (globals k', mapped, t)" using e k' by simp
  show "MAPPED k' = (MAPPED k)[i := True]" using ensure_slot_mapped_flags(2) [OF e] k' by simp
  show "globals k' = globals k" if "MAPPED k ! i"
    using e that ensure_slot_mapped_flags(1) [OF e] k' by (auto simp: ensure_slot_mapped_def Let_def split: if_splits)
  show "pool_view k' = (pool_view k)[i := (Some (NEXT_PID k), address_space)]" "NEXT_PID k' = NEXT_PID k + 1" "CURRENT k' = CURRENT k"
    "cr3 k' = cr3 k" "DEFAULT_L4_FRAME k' = DEFAULT_L4_FRAME k" "TASK_C_EXITED k' = TASK_C_EXITED k"
    "TASK_EXIT_SLOT k' = TASK_EXIT_SLOT k" "TICKS k' = TICKS k"
    "SCHEDULER k' = map_option (add_process \<lparr>proc_pid = NEXT_PID k, proc_class = Normal, proc_state = Ready,
       proc_vruntime = 0\<rparr>) (SCHEDULER k)"
    by (simp_all add: k' map_update)
qed

section \<open>The state after init\<close>

text \<open>The slots while the demonstration runs: the first four in the order of the spawns, the last four free.\<close>

definition demo_slots :: "(u64 option \<times> u64 option) \<Rightarrow> (u64 option \<times> u64 option) \<Rightarrow> (u64 option \<times> u64 option) list" where
  "demo_slots c e = [(Some 0, None), (Some 1, None), c, e] @ replicate 4 (None, None)"

lemma demo_slots_simps [simp]:
  "length (demo_slots c e) = 8" "demo_slots c e ! 2 = c" "demo_slots c e ! 3 = e"
  "(demo_slots c e)[2 := c'] = demo_slots c' e" "(demo_slots c e)[3 := e'] = demo_slots c e'"
  by (simp_all add: demo_slots_def numeral_2_eq_2 numeral_3_eq_3)

lemma demo_slots_position:
  "fst c = None \<Longrightarrow> position (\<lambda>e. fst e = None) (demo_slots c e) = Some 2"
  "fst c \<noteq> None \<Longrightarrow> fst e = None \<Longrightarrow> position (\<lambda>e. fst e = None) (demo_slots c e) = Some 3"
  "p \<noteq> 0 \<Longrightarrow> p \<noteq> 1 \<Longrightarrow> fst c = Some p \<Longrightarrow> position (\<lambda>e. fst e = Some p) (demo_slots c e) = Some 2"
  by (auto simp: demo_slots_def numeral_2_eq_2 numeral_3_eq_3)

definition e_slot :: "u64 option \<Rightarrow> u64 option \<times> u64 option" where
  "e_slot space = (if space = None then (None, None) else (Some 3, space))"

definition first_free_pid :: "u64 option \<Rightarrow> u64" where
  "first_free_pid space = (if space = None then 3 else 4)"

text \<open>The state before the last spawn.\<close>

lemma init_stages:
  assumes "init_tasks map_to cpu new_space trampoline a b c e (boot_kernel g l4 m) = Some (k, r)"
  obtains k1 k2 k3 g' space where
    "spawn_task_impl map_to cpu trampoline a None ((boot_kernel g l4 m)\<lparr>SCHEDULER := Some new_queue, DEFAULT_L4_FRAME := Some l4\<rparr>) = Some (k1, Some 0)"
    "spawn_task_impl map_to cpu trampoline b None k1 = Some (k2, Some 1)"
    "spawn_task_impl map_to cpu trampoline c None k2 = Some (k3, Some 2)" "r = Some 2"
    "new_space (globals k3) = (g', space)"
    "case space of None \<Rightarrow> k = k3\<lparr>globals := g'\<rparr>
     | Some f \<Rightarrow> spawn_task_impl map_to cpu trampoline e (Some f) (k3\<lparr>globals := g'\<rparr>) = Some (k, Some 3)"
    "pool_view k3 = demo_slots (Some 2, None) (None, None)" "MAPPED k3 = replicate 3 True @ replicate 5 False" "NEXT_PID k3 = 3"
    "\<not> TASK_C_EXITED k3" "TASK_EXIT_SLOT k3 = None" "CURRENT k3 = BOOT_PID" "TICKS k3 = 0" "DEFAULT_L4_FRAME k3 = Some l4"
    "SCHEDULER k3 = Some (fold (\<lambda>pid. add_process \<lparr>proc_pid = pid, proc_class = Normal, proc_state = Ready, proc_vruntime = 0\<rparr>) [0, 1, 2] new_queue)"
proof -
  let ?k = "(boot_kernel g l4 m)\<lparr>SCHEDULER := Some new_queue, DEFAULT_L4_FRAME := Some l4\<rparr>"
  obtain k1 r1 k2 r2 k3 g' space where
    s: "spawn_task_impl map_to cpu trampoline a None ?k = Some (k1, r1)"
      "spawn_task_impl map_to cpu trampoline b None k1 = Some (k2, r2)"
      "spawn_task_impl map_to cpu trampoline c None k2 = Some (k3, r)"
    and n: "new_space (globals k3) = (g', space)"
    and rest: "case space of None \<Rightarrow> k = k3\<lparr>globals := g'\<rparr>
       | Some f \<Rightarrow> \<exists>r4. spawn_task_impl map_to cpu trampoline e (Some f) (k3\<lparr>globals := g'\<rparr>) = Some (k, r4)"
    by (rule init_tasks_steps [OF assms])
  have v0: "pool_view ?k = replicate 8 (None, None)"
    by (simp add: boot_kernel_def EMPTY_def MAX_TASKS_def MAX_SLOTS_def)
  have f0: "position (\<lambda>e. fst e = None) (pool_view ?k) = Some 0" unfolding v0 by (simp add: numeral_eq_Suc)
  note s1 = spawn_view [OF s(1) f0]
  have v1: "pool_view k1 = (Some 0, None) # replicate 7 (None, None)" using s1(2) v0 by (simp add: boot_kernel_def numeral_eq_Suc)
  have f1: "position (\<lambda>e. fst e = None) (pool_view k1) = Some 1" unfolding v1 by (simp add: numeral_eq_Suc)
  note s2 = spawn_view [OF s(2) f1]
  have v2: "pool_view k2 = (Some 0, None) # (Some 1, None) # replicate 6 (None, None)"
    using s2(2) s1(3) v1 by (simp add: boot_kernel_def numeral_eq_Suc)
  have f2: "position (\<lambda>e. fst e = None) (pool_view k2) = Some 2" unfolding v2 by (simp add: numeral_eq_Suc)
  note s3 = spawn_view [OF s(3) f2]
  have n2: "NEXT_PID k1 = 1" "NEXT_PID k2 = 2" "NEXT_PID k3 = 3" using s1(3) s2(3) s3(3) by (simp_all add: boot_kernel_def)
  have v3: "pool_view k3 = demo_slots (Some 2, None) (None, None)"
    using s3(2) n2 v2 by (simp add: demo_slots_def numeral_eq_Suc)
  have m0: "MAPPED ?k = replicate 8 False" by (simp add: boot_kernel_def MAX_SLOTS_def)
  have m3: "MAPPED k3 = replicate 3 True @ replicate 5 False" using s1(4) s2(4) s3(4) m0 by (simp add: numeral_eq_Suc)
  have f3: "position (\<lambda>e. fst e = None) (pool_view (k3\<lparr>globals := g'\<rparr>)) = Some 3" using v3 demo_slots_position(2) by simp
  have rest': "case space of None \<Rightarrow> k = k3\<lparr>globals := g'\<rparr>
     | Some f \<Rightarrow> spawn_task_impl map_to cpu trampoline e (Some f) (k3\<lparr>globals := g'\<rparr>) = Some (k, Some 3)"
    using rest spawn_view(1) [OF _ f3] n2(3) by (auto split: option.splits)
  show thesis
    by (rule that [OF _ _ _ _ n rest' v3 m3 n2(3)])
      (use s s1(1,5,7-9,12,13) s2(1,5,7-9,12,13) s3(1,5,7-9,12,13) n2 in \<open>simp_all add: boot_kernel_def\<close>)
qed

lemma init_view:
  assumes "init_tasks map_to cpu new_space trampoline a b c e (boot_kernel g l4 m) = Some (k, r)"
  obtains space where "r = Some 2" "pool_view k = demo_slots (Some 2, None) (e_slot space)" "NEXT_PID k = first_free_pid space"
    "\<not> TASK_C_EXITED k" "TASK_EXIT_SLOT k = None" "MAPPED k ! 2" "DEFAULT_L4_FRAME k = Some l4"
proof -
  obtain k3 g' space where
    st: "r = Some 2" "pool_view k3 = demo_slots (Some 2, None) (None, None)" "MAPPED k3 = replicate 3 True @ replicate 5 False" "NEXT_PID k3 = 3"
      "\<not> TASK_C_EXITED k3" "TASK_EXIT_SLOT k3 = None" "DEFAULT_L4_FRAME k3 = Some l4"
    and rest: "case space of None \<Rightarrow> k = k3\<lparr>globals := g'\<rparr>
     | Some f \<Rightarrow> spawn_task_impl map_to cpu trampoline e (Some f) (k3\<lparr>globals := g'\<rparr>) = Some (k, Some 3)"
    by (rule init_stages [OF assms])
  have m: "MAPPED k3 ! 2" using st(3) by (simp add: nth_append)
  show thesis
  proof (cases space)
    case None
    then show thesis using st m rest by (intro that [of None]) (simp_all add: e_slot_def first_free_pid_def)
  next
    case (Some f)
    then have s4: "spawn_task_impl map_to cpu trampoline e (Some f) (k3\<lparr>globals := g'\<rparr>) = Some (k, Some 3)" using rest by simp
    have f3: "position (\<lambda>e. fst e = None) (pool_view (k3\<lparr>globals := g'\<rparr>)) = Some 3" using st(2) demo_slots_position(2) by simp
    show thesis
      using spawn_view(2-5,7-9) [OF s4 f3] st m
      by (intro that [of "Some f"]) (simp_all add: e_slot_def first_free_pid_def nth_list_update)
  qed
qed

section \<open>The invariant of the demonstration\<close>

text \<open>
  The kernel part: the third slot holds the third task, then nothing, then the task spawned late. The page
  tables are those that \<open>init\<close> left.
\<close>

definition demo_kernel :: "u64 option \<Rightarrow> 'm kernel \<Rightarrow> bool \<Rightarrow> 'm kernel \<Rightarrow> bool" where
  "demo_kernel space k0 spawned k \<longleftrightarrow>
     pool_inv k \<and> globals k = globals k0 \<and> MAPPED k = MAPPED k0 \<and> MAPPED k0 ! 2 \<and> DEFAULT_L4_FRAME k = DEFAULT_L4_FRAME k0
     \<and> (spawned \<longrightarrow> TASK_C_EXITED k) \<and> TASK_EXIT_SLOT k = (if TASK_C_EXITED k then Some 2 else None)
     \<and> NEXT_PID k = first_free_pid space + (if spawned then 1 else 0)
     \<and> pool_view k = demo_slots (if spawned then Some (first_free_pid space) else if TASK_C_EXITED k then None else Some 2, None)
         (e_slot space)"

fun c_count :: "c_point \<Rightarrow> nat" where
  "c_count (C_loop i) = i"
| "c_count (C_hlt i) = Suc i"

text \<open>The point of a task fits the task, and a live task has one.\<close>

fun point_ok :: "u64 option \<Rightarrow> 'm demo \<Rightarrow> u64 \<Rightarrow> task_point option \<Rightarrow> bool" where
  "point_ok space s p None \<longleftrightarrow> \<not> live (kern s) p"
| "point_ok space s p (Some (In_A q)) \<longleftrightarrow> p = 0"
| "point_ok space s p (Some (In_B q)) \<longleftrightarrow> p = 1"
| "point_ok space s p (Some (In_C q)) \<longleftrightarrow> p = 2 \<and> \<not> TASK_C_EXITED (kern s) \<and> c_count q \<le> 5 \<and> COUNTER_C s = of_nat (c_count q)"
| "point_ok space s p (Some (In_D q)) \<longleftrightarrow> p = first_free_pid space \<and> TASK_D_SPAWNED s"
| "point_ok space s p (Some (In_E q)) \<longleftrightarrow> p = 3 \<and> space \<noteq> None"

definition demo_inv :: "u64 option \<Rightarrow> 'm kernel \<Rightarrow> 'm demo \<Rightarrow> bool" where
  "demo_inv space k0 s \<longleftrightarrow>
     demo_kernel space k0 (TASK_D_SPAWNED s) (kern s) \<and> TASK_C_PID s = Some 2
     \<and> TASK_D_SPAWN_SLOT s = (if TASK_D_SPAWNED s then Some 2 else None)
     \<and> (TASK_C_EXITED (kern s) \<longrightarrow> COUNTER_C s = 5) \<and> (\<not> TASK_D_SPAWNED s \<longrightarrow> COUNTER_D s = 0)
     \<and> (\<forall>p. point_ok space s p (points s p))"

lemma first_free_pid_neq [simp]:
  "first_free_pid space \<noteq> 0" "first_free_pid space \<noteq> 1" "first_free_pid space \<noteq> 2" "first_free_pid space \<noteq> BOOT_PID"
  "first_free_pid (Some f) \<noteq> 3"
  by (simp_all add: first_free_pid_def BOOT_PID_def u64_max_def)

lemma live_view: "live k p \<longleftrightarrow> Some p \<in> fst ` set (pool_view k)"
  by (force simp: live_slot slot_index_for_pid_def position_None)

lemma live_demo_slots: "pool_view k = demo_slots c e \<Longrightarrow> live k p \<longleftrightarrow> p = 0 \<or> p = 1 \<or> fst c = Some p \<or> fst e = Some p"
  unfolding live_view by (auto simp: demo_slots_def)

text \<open>The point of a task that only counts, waits or reads changes nothing the others see.\<close>

lemma point_ok_cong:
  assumes "point_ok space s p q" and "live (kern s') p \<longleftrightarrow> live (kern s) p"
    and "TASK_C_EXITED (kern s') = TASK_C_EXITED (kern s)" and "COUNTER_C s' = COUNTER_C s"
    and "TASK_D_SPAWNED s \<longrightarrow> TASK_D_SPAWNED s'"
  shows "point_ok space s' p q"
  using assms by (cases "(space, s, p, q)" rule: point_ok.cases) auto

lemma demo_kernel_tick:
  assumes "demo_kernel space k0 d k"
  shows "demo_kernel space k0 d (on_timer_tick ra k)"
  using assms tick_inv [of k ra] tick_same_pool [of k ra] by (simp add: demo_kernel_def tick_rest same_pool_def)

lemma demo_inv_kern:
  assumes "demo_inv space k0 s" and "demo_kernel space k0 (TASK_D_SPAWNED s) k" and "TASK_C_EXITED k = TASK_C_EXITED (kern s)"
    and "\<And>p. live k p \<longleftrightarrow> live (kern s) p"
  shows "demo_inv space k0 (s\<lparr>kern := k\<rparr>)"
  using assms point_ok_cong [of space s _ _ "s\<lparr>kern := k\<rparr>"] by (simp add: demo_inv_def)

lemma demo_inv_tick:
  assumes "demo_inv space k0 s"
  shows "demo_inv space k0 (s\<lparr>kern := on_timer_tick ra (kern s)\<rparr>)"
proof (rule demo_inv_kern [OF assms])
  have k: "demo_kernel space k0 (TASK_D_SPAWNED s) (kern s)" using assms by (simp add: demo_inv_def)
  show "demo_kernel space k0 (TASK_D_SPAWNED s) (on_timer_tick ra (kern s))" using k by (rule demo_kernel_tick)
  show "live (on_timer_tick ra (kern s)) p \<longleftrightarrow> live (kern s) p" for p
    using tick_same_pool by (rule same_pool_slots(3))
qed (simp add: tick_rest)

lemma demo_inv_compute: "demo_inv space k0 s \<Longrightarrow> demo_inv space k0 (s\<lparr>kern := (kern s)\<lparr>cpu_state := m\<rparr>\<rparr>)"
  by (rule demo_inv_kern) (auto simp: demo_inv_def demo_kernel_def live_def intro: run_inv)

subsection \<open>The steps of the tasks\<close>

text \<open>Moving one task on, with the counters of the others as they were.\<close>

lemma demo_inv_move:
  assumes "demo_inv space k0 s" and "kern s' = kern s" and "TASK_C_PID s' = TASK_C_PID s" and "TASK_D_SPAWNED s' = TASK_D_SPAWNED s"
    and "TASK_D_SPAWN_SLOT s' = TASK_D_SPAWN_SLOT s" and "points s' = (points s)(p := q)" and "point_ok space s' p q"
    and "TASK_C_EXITED (kern s) \<longrightarrow> COUNTER_C s' = COUNTER_C s" and "\<not> TASK_D_SPAWNED s \<longrightarrow> COUNTER_D s' = COUNTER_D s"
    and "COUNTER_C s' = COUNTER_C s \<or> p = 2"
  shows "demo_inv space k0 s'"
proof -
  have "point_ok space s' p' (points s' p')" for p'
  proof (cases "p' = p")
    case False
    have "point_ok space s p' (points s p')" using assms(1) by (simp add: demo_inv_def)
    then show ?thesis
      using False assms(2,4,6,8,10) by (cases "(space, s, p', points s p')" rule: point_ok.cases) auto
  qed (use assms(6,7) in simp)
  then show ?thesis using assms by (simp add: demo_inv_def)
qed

lemma spawn_demo_kernel:
  assumes "demo_kernel space k0 False k" and "TASK_C_EXITED k" and "spawn_task map_to cpu trampoline task_d k = Some (k', r)"
  shows "demo_kernel space k0 True k'" and "r = Some (first_free_pid space)" and "slot_index_for_pid (first_free_pid space) k' = Some 2"
    and "CURRENT k' = CURRENT k" and "TASK_C_EXITED k'" and "live k' p \<longleftrightarrow> live k p \<or> p = first_free_pid space"
proof -
  note k = assms(1) [unfolded demo_kernel_def]
  have inv: "pool_inv k" and n: "NEXT_PID k = first_free_pid space" using k by simp_all
  have v: "pool_view k = demo_slots (None, None) (e_slot space)" using k assms(2) by simp
  have f: "position (\<lambda>e. fst e = None) (pool_view k) = Some 2" unfolding v by (rule demo_slots_position) simp
  have s: "spawn_task_impl map_to cpu trampoline task_d None k = Some (k', r)" using assms(3) by (simp add: spawn_task_def)
  note sv = spawn_view [OF s f]
  have m: "MAPPED k ! 2" using k by simp
  have i: "pool_inv k'" "\<And>p. live k' p \<longleftrightarrow> live k p \<or> r = Some p"
    using spawn_inv [OF inv _ s] n by simp_all
  show r: "r = Some (first_free_pid space)" using sv(1) n by simp
  have v': "pool_view k' = demo_slots (Some (first_free_pid space), None) (e_slot space)" using sv(2) v n by simp
  show "demo_kernel space k0 True k'"
    using k i(1) sv(3-9) sv(11) [OF m] v' n m assms(2) by (simp add: demo_kernel_def flag_set)
  show "slot_index_for_pid (first_free_pid space) k' = Some 2"
    unfolding pid_position v' by (rule demo_slots_position) simp_all
  show "CURRENT k' = CURRENT k" "TASK_C_EXITED k'" "live k' p \<longleftrightarrow> live k p \<or> p = first_free_pid space"
    using sv(5,8) assms(2) i(2) r by auto
qed

lemma exit_demo_kernel:
  assumes "demo_kernel space k0 d k" and "\<not> TASK_C_EXITED k" and "CURRENT k = 2"
  shows "demo_kernel space k0 d (exit_current_task ra k)" and "TASK_C_EXITED (exit_current_task ra k)"
    and "live (exit_current_task ra k) p \<longleftrightarrow> live k p \<and> p \<noteq> 2"
proof -
  note k = assms(1) [unfolded demo_kernel_def]
  have base: "pool_base k" and d: "\<not> d" using k assms(2) by (simp_all add: pool_inv_def)
  have v: "pool_view k = demo_slots (Some 2, None) (e_slot space)" using k assms(2) d by simp
  have i: "slot_index_for_pid (CURRENT k) k = Some 2"
    unfolding pid_position v assms(3) by (rule demo_slots_position) simp_all
  note ev = exit_view [OF i, of ra]
  show "demo_kernel space k0 d (exit_current_task ra k)"
    using k ev exit_inv [OF base, of ra] d v by (simp add: demo_kernel_def)
  show "TASK_C_EXITED (exit_current_task ra k)" by (rule ev(3))
  show "live (exit_current_task ra k) p \<longleftrightarrow> live k p \<and> p \<noteq> 2" using exit_live [OF base] assms(3) by simp
qed

lemma task_a_inv:
  assumes "demo_inv space k0 s" and "points s pid = Some (In_A p)" and "task_a_entry map_to cpu trampoline task_d p s = Some (s1, q)"
  shows "demo_inv space k0 (at_point pid (Some (In_A q)) s1)"
proof -
  have pt: "point_ok space s pid' (points s pid')" for pid' using assms(1) by (simp add: demo_inv_def)
  have pid: "pid = 0" using pt [of pid] assms(2) by simp
  have k: "demo_kernel space k0 (TASK_D_SPAWNED s) (kern s)" using assms(1) by (simp add: demo_inv_def)
  show ?thesis
  proof (cases "p = A_spawn \<and> TASK_C_EXITED (kern s) \<and> \<not> TASK_D_SPAWNED s")
    case True
    then obtain k' r where sp: "spawn_task map_to cpu trampoline task_d (kern s) = Some (k', r)"
      using assms(3) by (auto split: option.splits)
    note sd = spawn_demo_kernel [of space k0 "kern s" map_to cpu trampoline task_d k' r, OF _ _ sp]
    have d: "demo_kernel space k0 False (kern s)" "TASK_C_EXITED (kern s)" using k True by simp_all
    note sd = sd [OF d]
    have s1: "s1 = s\<lparr>kern := k', TASK_D_SPAWNED := True, TASK_D_SPAWN_SLOT := Some 2, points := (points s)(first_free_pid space \<mapsto> In_D D_count)\<rparr>"
      using assms(3) True sp sd(2,3) by auto
    let ?s = "at_point pid (Some (In_A q)) s1"
    have "point_ok space ?s p' (points ?s p')" for p'
    proof (cases "p' = pid \<or> p' = first_free_pid space")
      case False
      then show ?thesis using pt [of p'] sd(5,6) d(2) by (cases "(space, s, p', points s p')" rule: point_ok.cases) (auto simp: s1)
    qed (use pid in \<open>auto simp: s1\<close>)
    then show ?thesis using assms(1) sd(1,5) d(2) by (simp add: demo_inv_def s1)
  next
    case False
    have o: "kern s1 = kern s" "TASK_C_PID s1 = TASK_C_PID s" "TASK_D_SPAWNED s1 = TASK_D_SPAWNED s"
      "TASK_D_SPAWN_SLOT s1 = TASK_D_SPAWN_SLOT s" "COUNTER_C s1 = COUNTER_C s" "COUNTER_D s1 = COUNTER_D s" "points s1 = points s"
      using assms(3) False by (cases p; auto split: if_splits)+
    show ?thesis by (rule demo_inv_move [OF assms(1), where p = pid and q = "Some (In_A q)"]) (simp_all add: o pid)
  qed
qed

lemma task_c_inv:
  assumes "demo_inv space k0 s" and "points s (CURRENT (kern s)) = Some (In_C p)" and "task_c_entry ra p s = (s1, q)"
  shows "demo_inv space k0 (at_point (CURRENT (kern s)) (map_option In_C q) s1)"
proof -
  have pt: "point_ok space s pid' (points s pid')" for pid' using assms(1) by (simp add: demo_inv_def)
  have c: "CURRENT (kern s) = 2" "\<not> TASK_C_EXITED (kern s)" "c_count p \<le> 5" "COUNTER_C s = of_nat (c_count p)"
    using pt [of "CURRENT (kern s)"] assms(2) by simp_all
  have k: "demo_kernel space k0 (TASK_D_SPAWNED s) (kern s)" using assms(1) by (simp add: demo_inv_def)
  show ?thesis
  proof (cases "p = C_loop 5")
    case True
    then have s1: "s1 = s\<lparr>kern := exit_current_task ra (kern s)\<rparr>" "q = None" using assms(3) by simp_all
    note ex = exit_demo_kernel [OF k c(2,1), of ra]
    let ?s = "at_point (CURRENT (kern s)) (map_option In_C q) s1"
    have "point_ok space ?s p' (points ?s p')" for p'
    proof (cases "p' = 2")
      case False
      then show ?thesis using pt [of p'] ex(2,3) by (cases "(space, s, p', points s p')" rule: point_ok.cases) (auto simp: s1 c(1))
    qed (use ex(3) in \<open>simp add: s1 c(1)\<close>)
    then show ?thesis using assms(1) ex(1,2) c(4) True by (simp add: demo_inv_def s1)
  next
    case False
    then show ?thesis
    proof (cases p)
      case (C_loop i)
      then have i: "i < 5" "s1 = s\<lparr>COUNTER_C := COUNTER_C s + 1\<rparr>" "q = Some (C_hlt i)" using assms(3) c(3) False by auto
      show ?thesis
        by (rule demo_inv_move [OF assms(1), where p = 2 and q = "map_option In_C q"]) (use i c C_loop in \<open>simp_all add: algebra_simps\<close>)
    next
      case (C_hlt i)
      show ?thesis
        by (rule demo_inv_move [OF assms(1), where p = 2 and q = "map_option In_C q"]) (use c C_hlt assms(3) in auto)
    qed
  qed
qed

text \<open>What the tasks that only count or read leave as it was.\<close>

definition quiet :: "'m demo \<Rightarrow> 'm demo \<Rightarrow> bool" where
  "quiet s s' \<longleftrightarrow> kern s' = kern s \<and> TASK_C_PID s' = TASK_C_PID s \<and> TASK_D_SPAWNED s' = TASK_D_SPAWNED s
     \<and> TASK_D_SPAWN_SLOT s' = TASK_D_SPAWN_SLOT s \<and> COUNTER_C s' = COUNTER_C s \<and> points s' = points s
     \<and> (\<not> TASK_D_SPAWNED s \<longrightarrow> COUNTER_D s' = COUNTER_D s)"

lemma demo_inv_quiet:
  assumes "demo_inv space k0 s" and "quiet s s1" and "point_ok space s p (Some t)" and "\<And>q. t \<noteq> In_C q"
  shows "demo_inv space k0 (at_point p (Some t) s1)"
proof (rule demo_inv_move [OF assms(1), where p = p and q = "Some t"])
  have "point_ok space (at_point p (Some t) s1) p (Some t)"
    by (rule point_ok_cong [OF assms(3)]) (use assms(2) in \<open>simp_all add: quiet_def\<close>)
  then show "point_ok space (at_point p (Some t) s1) p (Some t)" .
qed (use assms(2) in \<open>simp_all add: quiet_def\<close>)

lemma quiet_tasks:
  "task_b_entry p s = (s1, q) \<Longrightarrow> quiet s s1"
  "task_d_entry p' s = (s1, q') \<Longrightarrow> TASK_D_SPAWNED s \<Longrightarrow> quiet s s1"
  "task_e_entry load p'' s = Some (s1, q'') \<Longrightarrow> quiet s s1"
  subgoal by (cases p) (auto simp: quiet_def)
  subgoal by (cases p') (auto simp: quiet_def)
  subgoal by (cases p'') (auto simp: quiet_def split: if_splits)
  done

lemma demo_inv_action:
  assumes "demo_inv space k0 s" and "task_action map_to cpu load trampoline task_d ra (CURRENT (kern s)) s = Some s'"
  shows "demo_inv space k0 s'"
proof -
  let ?c = "CURRENT (kern s)"
  have pt: "point_ok space s ?c (points s ?c)" using assms(1) by (simp add: demo_inv_def)
  from assms(2) obtain t where t: "points s ?c = Some t" by (auto simp: task_action_def split: option.splits)
  show ?thesis
  proof (cases t)
    case (In_A p)
    then show ?thesis using assms t task_a_inv [OF assms(1), of ?c p] by (auto simp: task_action_def)
  next
    case (In_B p)
    obtain s1 q where e: "task_b_entry p s = (s1, q)" by fastforce
    then have "s' = at_point ?c (Some (In_B q)) s1" using assms(2) t In_B by (simp add: task_action_def)
    then show ?thesis using demo_inv_quiet [OF assms(1) quiet_tasks(1) [OF e], of ?c "In_B q"] pt t In_B by simp
  next
    case (In_C p)
    then show ?thesis using assms t task_c_inv [OF assms(1), of p ra] by (auto simp: task_action_def split: prod.splits)
  next
    case (In_D p)
    obtain s1 q where e: "task_d_entry p s = (s1, q)" by fastforce
    then have "s' = at_point ?c (Some (In_D q)) s1" using assms(2) t In_D by (simp add: task_action_def)
    then show ?thesis using demo_inv_quiet [OF assms(1) quiet_tasks(2) [OF e], of ?c "In_D q"] pt t In_D by simp
  next
    case (In_E p)
    then obtain s1 q where e: "task_e_entry load p s = Some (s1, q)" and "s' = at_point ?c (Some (In_E q)) s1"
      using assms(2) t by (auto simp: task_action_def)
    then show ?thesis using demo_inv_quiet [OF assms(1) quiet_tasks(3) [OF e], of ?c "In_E q"] pt t In_E by simp
  qed
qed

lemma demo_inv_step: "demo_step map_to cpu load trampoline task_d s s' \<Longrightarrow> demo_inv space k0 s \<Longrightarrow> demo_inv space k0 s'"
  by (induction rule: demo_step.induct) (auto intro: demo_inv_action demo_inv_tick demo_inv_compute)

lemma demo_inv_steps: "demo_steps map_to cpu load trampoline task_d s s' \<Longrightarrow> demo_inv space k0 s \<Longrightarrow> demo_inv space k0 s'"
  by (induction rule: demo_steps.induct) (auto intro: demo_inv_step)

lemma demo_inv_init:
  assumes "demo_init map_to cpu new_space trampoline a b c e (boot_kernel g l4 m) = Some s"
  obtains space where "demo_inv space (kern s) s"
proof -
  from assms obtain k r where i: "init_tasks map_to cpu new_space trampoline a b c e (boot_kernel g l4 m) = Some (k, r)"
    and s: "s = \<lparr>kern = k, COUNTER_A = 0, COUNTER_B = 0, COUNTER_C = 0, COUNTER_D = 0, COUNTER_E = 0,
         TASK_D_SPAWNED = False, TASK_C_PID = r, TASK_D_SPAWN_SLOT = None,
         points = [0 \<mapsto> In_A A_count, 1 \<mapsto> In_B B_count, 2 \<mapsto> In_C (C_loop 0)]
           (3 := if slot_index_for_pid 3 k = None then None else Some (In_E E_read))\<rparr>"
    by (auto simp: demo_init_def)
  obtain space where v: "r = Some 2" "pool_view k = demo_slots (Some 2, None) (e_slot space)" "NEXT_PID k = first_free_pid space"
    "\<not> TASK_C_EXITED k" "TASK_EXIT_SLOT k = None" "MAPPED k ! 2"
    by (rule init_view [OF i])
  have l: "live k p \<longleftrightarrow> p = 0 \<or> p = 1 \<or> p = 2 \<or> p = 3 \<and> space \<noteq> None" for p
    using live_demo_slots [OF v(2), of p] by (auto simp: e_slot_def split: if_splits)
  have "demo_inv space k s"
    using init_inv [OF i] v l live_slot [of k 3] by (auto simp: demo_inv_def demo_kernel_def s)
  then show thesis using that s by simp
qed

text \<open>What the read-backs report in any state of the demonstration.\<close>

lemma demo_inv_readbacks:
  assumes "demo_inv space k0 s"
  shows "task_c_really_exited s = TASK_C_EXITED (kern s)" and "task_reused_a_guarded_slot s = (0 < COUNTER_D s)"
    and "CURRENT (kern s) \<noteq> BOOT_PID \<longrightarrow> points s (CURRENT (kern s)) \<noteq> None"
proof -
  have kd: "demo_kernel space k0 (TASK_D_SPAWNED s) (kern s)" using assms by (simp add: demo_inv_def)
  note kd = kd [unfolded demo_kernel_def]
  have inv: "pool_inv (kern s)" using kd by simp
  let ?d = "if TASK_D_SPAWNED s then Some (first_free_pid space) else if TASK_C_EXITED (kern s) then None else Some 2"
  have v: "pool_view (kern s) = demo_slots (?d, None) (e_slot space)" using kd by simp
  have gone: "\<not> live (kern s) 2" if "TASK_C_EXITED (kern s)"
    using live_demo_slots [OF v, of 2] that first_free_pid_neq(3) [of space] by (auto simp: e_slot_def)
  obtain rq where rq: "SCHEDULER (kern s) = Some rq" "queued rq = {p. live (kern s) p}"
    using pool_baseD(6) inv by (auto simp: pool_inv_def)
  show "task_c_really_exited s = TASK_C_EXITED (kern s)"
    using assms gone rq by (auto simp: task_c_really_exited_def demo_inv_def queued_def set_eq_iff)
  show "task_reused_a_guarded_slot s = (0 < COUNTER_D s)"
    using assms kd by (cases "TASK_D_SPAWNED s") (simp_all add: task_reused_a_guarded_slot_def demo_inv_def)
  have pt: "point_ok space s (CURRENT (kern s)) (points s (CURRENT (kern s)))" using assms by (simp add: demo_inv_def)
  show "CURRENT (kern s) \<noteq> BOOT_PID \<longrightarrow> points s (CURRENT (kern s)) \<noteq> None"
    using inv pt by (cases "points s (CURRENT (kern s))") (simp_all add: pool_inv_def)
qed

section \<open>Properties\<close>

text \<open>
  C34: The freed stack slot is reused. However ticks, preemptions and the steps of the demonstration tasks interleave, when the third task has
  exited it had counted to five, its slot is the third one and it is off the run queue; the task spawned afterwards takes that
  slot, at most once; no page table and no stack mapping changes after \<open>init\<close>; the current task always has a point to continue
  at. So the read-backs of the boot test report what happened: \<open>task_c_really_exited\<close> is the exit itself, and \<open>task_reused_a_guarded_slot\<close> is that the new task has run.
\<close>
theorem freed_slot_reused:
  assumes "demo_init map_to cpu new_space trampoline a b c e (boot_kernel g l4 m) = Some s0"
    and "demo_steps map_to cpu load trampoline task_d s0 s"
  shows "(TASK_C_EXITED (kern s) \<longrightarrow> COUNTER_C s = 5 \<and> TASK_EXIT_SLOT (kern s) = Some 2)
    \<and> (TASK_D_SPAWNED s \<longrightarrow> TASK_C_EXITED (kern s) \<and> TASK_D_SPAWN_SLOT s = Some 2
         \<and> slot_index_for_pid (NEXT_PID (kern s0)) (kern s) = Some 2)
    \<and> NEXT_PID (kern s) = NEXT_PID (kern s0) + (if TASK_D_SPAWNED s then 1 else 0)
    \<and> globals (kern s) = globals (kern s0) \<and> MAPPED (kern s) = MAPPED (kern s0)
    \<and> (CURRENT (kern s) \<noteq> BOOT_PID \<longrightarrow> points s (CURRENT (kern s)) \<noteq> None)
    \<and> task_c_really_exited s = TASK_C_EXITED (kern s)
    \<and> task_reused_a_guarded_slot s = (0 < COUNTER_D s)"
proof -
  obtain space where i0: "demo_inv space (kern s0) s0" using assms(1) by (rule demo_inv_init)
  have i: "demo_inv space (kern s0) s" by (rule demo_inv_steps [OF assms(2) i0])
  have k: "demo_kernel space (kern s0) (TASK_D_SPAWNED s) (kern s)" using i by (simp add: demo_inv_def)
  note kd = k [unfolded demo_kernel_def]
  have n0: "NEXT_PID (kern s0) = first_free_pid space"
    using i0 init_view demo_inv_def demo_kernel_def assms(1) by (fastforce simp: demo_init_def demo_inv_def demo_kernel_def)
  have v: "pool_view (kern s) = demo_slots
      (if TASK_D_SPAWNED s then Some (first_free_pid space) else if TASK_C_EXITED (kern s) then None else Some 2, None) (e_slot space)"
    using kd by simp
  have d: "slot_index_for_pid (first_free_pid space) (kern s) = Some 2" if "TASK_D_SPAWNED s"
    unfolding pid_position v using that by (intro demo_slots_position) simp_all
  show ?thesis using demo_inv_readbacks [OF i] i kd d n0 by (simp add: demo_inv_def)
qed

theorem freed_slot_reused_witness:
  "\<exists>s0. demo_init flat_map_to sample_cpu (\<lambda>g. (g, Some 0x5000)) 0x400 0x500 0x600 0x700 0x800
      (boot_kernel sample_flat 0x2000 (sample_machine 0x1000)) = Some s0
    \<and> NEXT_PID (on_timer_tick 0x900 (kern s0)) = NEXT_PID (kern s0)
    \<and> CURRENT (on_timer_tick 0x900 (kern s0)) = 0 \<and> points s0 0 \<noteq> None"
proof -
  let ?i = "demo_init flat_map_to sample_cpu (\<lambda>g. (g, Some 0x5000)) 0x400 0x500 0x600 0x700 0x800
      (boot_kernel sample_flat 0x2000 (sample_machine 0x1000))"
  have c: "map_option (\<lambda>s. (CURRENT (on_timer_tick 0x900 (kern s)), TASK_D_SPAWNED s)) ?i = Some (0, False)" by code_simp
  then obtain s0 where s0: "?i = Some s0" by auto
  have "demo_steps flat_map_to sample_cpu (\<lambda>_ _ _. None) 0x400 0xA00 s0 (s0\<lparr>kern := on_timer_tick 0x900 (kern s0)\<rparr>)"
    by (rule demo_steps.intros(2) [OF demo_steps.intros(1) demo_step.preempt])
  from freed_slot_reused [OF s0 this] show ?thesis using c s0 by (auto simp: BOOT_PID_def u64_max_def)
qed

end
