(* ===== verification/Page_Mapper.thy ===== *)
theory Page_Mapper
  imports Address_Space
begin

text \<open>
  When mapping a page succeeds, and what unmapping it does. The locale \<open>page_mapper\<close> adds three promises of the page table crate to
  \<open>table_mapper\<close>: \<open>map_to\<close> succeeds when every table on the walk is either there or can be allocated and the page is not mapped yet, it
  clears the tables it creates, and \<open>unmap\<close> clears the last entry of the walk. The lemma \<open>page_mapped\<close> is what its clients need: a page whose walk goes through frames in
  use is mapped with one frame for the page and one for each missing table, and nothing else changes.
\<close>

section \<open>Walks that can be completed\<close>

fun walk_open :: "tables \<Rightarrow> u64 \<Rightarrow> nat list \<Rightarrow> bool" where
  "walk_open t f [] = False"
| "walk_open t f (i # is) =
     (is_unused (t f i)
      \<or> is \<noteq> [] \<and> fl_present (pte_flags (t f i)) \<and> \<not> pte_huge (t f i) \<and> walk_open t (pte_addr (t f i)) is)"

abbreviation missing_tables :: "tables \<Rightarrow> u64 \<Rightarrow> nat list \<Rightarrow> nat" where
  "missing_tables t f is \<equiv> length is - length (walk_entries t f is)"

text \<open>The tables of a walk are different frames that the allocator does not own.\<close>

definition walk_used :: "tables \<Rightarrow> u64 \<Rightarrow> nat list \<Rightarrow> physical_allocator \<Rightarrow> bool" where
  "walk_used t f is phys \<longleftrightarrow> distinct (map fst (walk_entries t f is)) \<and> (\<forall>g \<in> fst ` set (walk_entries t f is). \<not> free_frame phys g)"

lemma length_walk_entries: "length (walk_entries t f is) \<le> length is"
  by (induction t f "is" rule: walk_entries.induct) (auto simp: Let_def)

lemma complete_walk: "walk_tables t f is = Some (frame, flags, []) \<Longrightarrow> length (walk_entries t f is) = length is"
  by (induction t f "is" rule: walk_tables.induct) (auto simp: Let_def split: if_splits)

lemma unused_top_open:
  assumes "is_unused (t l4 (p4_index page))"
  shows "walk_open t l4 (indices page)" and "walk_entries t l4 (indices page) = [(l4, p4_index page)]"
  using assms unused_not_present [OF assms] by (simp_all add: indices_def p4_index_def)

subsection \<open>Frames\<close>

lemma frames_available_drawn: "frames_available n phys \<longleftrightarrow> length (drawn adapter_allocate_frame n phys) = n"
proof (induction n arbitrary: phys)
  case (Suc n)
  show ?case
    using Suc.IH length_drawn [of adapter_allocate_frame n] by (auto split: prod.splits option.splits simp: Suc_le_eq)
      (metis Suc_n_not_le_n)
qed simp

lemma frames_available_add:
  "frames_available (m + n) phys \<longleftrightarrow> frames_available m phys \<and> frames_available n (after_draws adapter_allocate_frame m phys)"
  by (induction m arbitrary: phys) (auto simp: funpow_Suc_right simp del: funpow.simps(2) split: prod.splits option.splits)

lemma frames_available_less: "frames_available n phys \<Longrightarrow> m \<le> n \<Longrightarrow> frames_available m phys"
  by (metis frames_available_add le_Suc_ex)

lemma drawn_add: "drawn alloc (m + n) fa = drawn alloc m fa @ drawn alloc n (after_draws alloc m fa)"
  by (induction m arbitrary: fa) (auto simp: funpow_Suc_right simp del: funpow.simps(2) split: prod.splits option.splits)

lemma drawn_exact:
  assumes "frames_available (Suc k) phys" and "length (drawn adapter_allocate_frame m phys) = k"
  shows "m = k"
proof (rule antisym)
  show "k \<le> m" using assms(2) length_drawn [of adapter_allocate_frame m phys] by simp
  show "m \<le> k"
  proof (rule ccontr)
    assume "\<not> m \<le> k"
    then obtain j where "m = Suc k + j" using le_Suc_ex [of "Suc k" m] by auto
    then show False using assms by (simp only: frames_available_drawn drawn_add) simp
  qed
qed

lemma drawn_same:
  assumes "length (drawn alloc k fa) = k" and "length (drawn alloc m fa) = k"
  shows "drawn alloc m fa = drawn alloc k fa"
proof -
  have "k \<le> m" using assms(2) length_drawn [of alloc m fa] by simp
  then obtain j where "m = k + j" by (metis le_Suc_ex)
  then show ?thesis using assms by (simp add: drawn_add)
qed

lemma after_draws_live:
  assumes "phys_ready phys" and "bt_get (pa_live_blocks phys) a = Some k"
  shows "bt_get (pa_live_blocks (after_draws adapter_allocate_frame n phys)) a = Some k"
  using assms
proof (induction n arbitrary: phys)
  case (Suc n)
  obtain s' r where s': "adapter_allocate_frame phys = (s', r)" by (cases "adapter_allocate_frame phys")
  have "phys_ready s' \<and> bt_get (pa_live_blocks s') a = Some k"
  proof (cases r)
    case None
    then show ?thesis using Suc.prems s' adapter_None by blast
  next
    case (Some f)
    then show ?thesis
      using Suc.prems s' adapter_free(1) [OF Suc.prems(1)] adapter_Some(5) [of phys s' f a k] by (simp add: phys_ready_def)
  qed
  then show ?case using Suc.IH [of s'] s' by (simp add: funpow_Suc_right del: funpow.simps(2))
qed simp

lemma frames_available_Suc:
  assumes "frames_available (Suc n) phys"
  obtains phys' f where "adapter_allocate_frame phys = (phys', Some f)" "frames_available n phys'"
  using assms by (auto split: prod.splits option.splits)

section \<open>A new address space\<close>

text \<open>A construction that succeeds leaves the frames in use as they were; \<open>F\<close> are such frames.\<close>

lemma new_space_keeps:
  assumes "table_mapper map_to" and "new_address_space map_to cpu s = (s', Some space)"
    and "PHYS (sp_globals s) = Some phys" and "phys_ready phys" and "\<forall>f \<in> F. \<not> free_frame phys f" and "sp_cr3 s \<in> F"
    and "is_unused (sp_tables s (sp_cr3 s) (p4_index PRIVATE_REGION_ADDR))"
  obtains phys' frame where "sp_globals s' = (sp_globals s)\<lparr>PHYS := Some phys'\<rparr>" "phys_ready phys'"
    "\<forall>a. free_frame phys' a \<longrightarrow> free_frame phys a" "\<forall>f \<in> F. sp_tables s' f = sp_tables s f" "sp_cr3 s' = sp_cr3 s"
    "translate_page (sp_tables s') (l4_frame space) PRIVATE_REGION_ADDR = Some (frame, data_flags cpu, [])"
    "sp_data s' = (sp_data s)(frame := PRIVATE_VALUE)"
proof -
  obtain phys1 phys2 phys3 l4 frame t' where
    a1: "adapter_allocate_frame phys = (phys1, Some l4)" and a2: "adapter_allocate_frame phys1 = (phys2, Some frame)"
    and m: "map_to l4 adapter_allocate_frame PRIVATE_REGION_ADDR frame (data_flags cpu)
       (clone_entries (sp_cr3 s) l4 ((sp_tables s)(l4 := \<lambda>i. unused_entry))) phys2 = (t', phys3, Ok ())"
    and s': "s' = s\<lparr>sp_globals := (sp_globals s)\<lparr>PHYS := Some phys3\<rparr>, sp_tables := t', sp_data := (sp_data s)(frame := PRIVATE_VALUE)\<rparr>"
    and l4: "l4_frame space = l4"
    by (rule new_address_space_steps [of map_to cpu s s' space phys, OF assms(2-4)])
  note e = private_mapping_effect [of map_to phys F "sp_cr3 s" phys1 l4 phys2 frame PRIVATE_REGION_ADDR "data_flags cpu" "sp_tables s" t' phys3,
      OF assms(1,4-6) a1 a2 m assms(7) data_flags_fields(1)]
  show thesis by (rule that [of phys3 frame]) (use e(4,6-8) in \<open>simp_all add: s' l4\<close>)
qed

lemma unused_top_none: "is_unused (t l4 (p4_index vaddr)) \<Longrightarrow> translate_page t l4 vaddr = None"
  using unused_not_present by (simp add: translate_page_def indices_def p4_index_def)

section \<open>The promises\<close>

locale page_mapper = table_mapper map_to
  for map_to :: "u64 \<Rightarrow> (tables, physical_allocator) map_to" +
  fixes unmap :: "u64 \<Rightarrow> tables unmap"
  assumes map_to_succeeds: "walk_open t l4 (indices page) \<Longrightarrow> k = missing_tables t l4 (indices page) \<Longrightarrow> length (drawn alloc k fa) = k
      \<Longrightarrow> distinct (map fst (walk_entries t l4 (indices page)) @ drawn alloc k fa) \<Longrightarrow> \<exists>t' fa'. map_to l4 alloc page frame flags t fa = (t', fa', Ok ())"
    and new_tables_clear: "map_to l4 alloc page frame flags t fa = (t', fa', Ok ()) \<Longrightarrow> k = missing_tables t l4 (indices page)
      \<Longrightarrow> length (drawn alloc k fa) = k \<Longrightarrow> distinct (map fst (walk_entries t l4 (indices page)) @ drawn alloc k fa)
      \<Longrightarrow> g \<in> set (drawn alloc k fa) \<Longrightarrow> (g, i) \<notin> set (walk_entries t' l4 (indices page)) \<Longrightarrow> is_unused (t' g i)"
    and unmap_mapped: "translate_page t l4 page = Some (frame, flags, []) \<Longrightarrow> \<not> pte_huge (last_entry t l4 (indices page))
      \<Longrightarrow> last (walk_entries t l4 (indices page)) = (f, i) \<Longrightarrow> unmap l4 page t = (t(f := (t f)(i := unused_entry)), Ok frame)"
begin

text \<open>A page can be mapped when its walk goes through frames in use and there are frames for the tables it lacks.\<close>

lemma map_runs:
  assumes ready: "phys_ready phys" and opened: "walk_open t l4 (indices page)" and used: "walk_used t l4 (indices page) phys"
    and frames: "frames_available (missing_tables t l4 (indices page) + n) phys" and present: "fl_present flags"
  obtains t' phys' m where "map_to l4 adapter_allocate_frame page frame flags t phys = (t', phys', Ok ())"
    "map_effect adapter_allocate_frame (indices page) frame flags l4 t phys t' phys' (Ok ()) m"
    "length (drawn adapter_allocate_frame (missing_tables t l4 (indices page)) phys) = missing_tables t l4 (indices page)"
    "\<forall>m. distinct (map fst (walk_entries t l4 (indices page)) @ drawn adapter_allocate_frame m phys)"
    "length (walk_entries t l4 (indices page)) + length (drawn adapter_allocate_frame m phys) = 4" "frames_available n phys'"
proof -
  let ?w = "walk_entries t l4 (indices page)" and ?k = "missing_tables t l4 (indices page)"
  have sep: "distinct (map fst ?w @ drawn adapter_allocate_frame m phys)" for m
    using used drawn_fresh [OF ready, of m] by (auto simp: walk_used_def)
  have k: "length (drawn adapter_allocate_frame ?k phys) = ?k" using frames_available_less [OF frames] frames_available_drawn by auto
  from map_to_succeeds [OF opened refl k sep] obtain t' phys' where
    mt: "map_to l4 adapter_allocate_frame page frame flags t phys = (t', phys', Ok ())" by blast
  obtain m where m: "map_effect adapter_allocate_frame (indices page) frame flags l4 t phys t' phys' (Ok ()) m"
    using map_to_effect [OF mt] by blast
  have p': "phys' = after_draws adapter_allocate_frame m phys" using m by (simp add: map_effect_def)
  have tr: "walk_tables t' l4 (indices page) = Some (frame, flags, [])"
    and path: "map fst (walk_entries t' l4 (indices page)) = map fst ?w @ drawn adapter_allocate_frame m phys"
    using m present sep [of m] unfolding map_effect_def by blast+
  have "length (walk_entries t' l4 (indices page)) = 4" using complete_walk [OF tr] by (simp add: indices_def)
  then have len: "length ?w + length (drawn adapter_allocate_frame m phys) = 4" using arg_cong [OF path, of length] by simp
  have "frames_available n phys'"
  proof (cases n)
    case (Suc n0)
    then have "frames_available (Suc ?k) phys" using frames frames_available_less [of "?k + n" phys "Suc ?k"] by simp
    then have "m = ?k"
      using drawn_exact [of ?k phys m] len length_walk_entries [of t l4 "indices page"] by (simp add: indices_def)
    then show ?thesis using frames p' by (simp add: frames_available_add)
  qed simp
  then show thesis using that mt m k sep len by blast
qed

lemma page_mapped:
  assumes ready: "phys_ready phys" and page: "containing_address page = page" and opened: "walk_open t l4 (indices page)"
    and used: "walk_used t l4 (indices page) phys" and frames: "frames_available (Suc (missing_tables t l4 (indices page) + n)) phys"
    and present: "fl_present flags"
  obtains t' phys' frame where
    "map_page_with (map_to l4) adapter_allocate_frame page flags t phys = (t', phys', Ok frame)"
    "translate_page t' l4 page = Some (frame, flags, [])" "\<not> pte_huge (last_entry t' l4 (indices page))"
    "walk_used t' l4 (indices page) phys'"
    "\<exists>ds. map fst (walk_entries t' l4 (indices page)) = map fst (walk_entries t l4 (indices page)) @ ds \<and> (\<forall>g \<in> set ds. free_frame phys g)"
    "frame \<notin> fst ` set (walk_entries t' l4 (indices page))" "bt_get (pa_live_blocks phys') frame = Some 0"
    "\<forall>g i. t' g i \<noteq> t g i \<longrightarrow> free_frame phys g \<or> (g, i) \<in> set (walk_entries t l4 (indices page)) \<and> entry_kept (t g i) (t' g i)"
    "phys_ready phys'" "\<forall>a. free_frame phys' a \<longrightarrow> free_frame phys a" "frames_available n phys'"
    "\<forall>(g, i) \<in> set (walk_entries t' l4 (indices page)). \<forall>j. free_frame phys g \<longrightarrow> j \<noteq> i \<longrightarrow> is_unused (t' g j)"
proof -
  let ?w = "walk_entries t l4 (indices page)" and ?k = "missing_tables t l4 (indices page)"
  obtain phys1 frame where a: "adapter_allocate_frame phys = (phys1, Some frame)" and fr: "frames_available (?k + n) phys1"
    using frames by (auto split: prod.splits option.splits)
  note f = adapter_free [OF ready a]
  have w: "\<forall>g \<in> fst ` set ?w. \<not> free_frame phys g" using used by (simp add: walk_used_def)
  have fresh: "set (drawn adapter_allocate_frame m phys1) \<subseteq> {a. free_frame phys1 a}" for m using drawn_fresh [OF f(1), of m] by simp
  have used1: "walk_used t l4 (indices page) phys1" using used f(4) by (auto simp: walk_used_def)
  obtain t' phys' m where
    mt: "map_to l4 adapter_allocate_frame page frame flags t phys1 = (t', phys', Ok ())"
    and m: "map_effect adapter_allocate_frame (indices page) frame flags l4 t phys1 t' phys' (Ok ()) m"
    and k: "length (drawn adapter_allocate_frame ?k phys1) = ?k" and sep': "\<forall>m. distinct (map fst ?w @ drawn adapter_allocate_frame m phys1)"
    and len: "length ?w + length (drawn adapter_allocate_frame m phys1) = 4" and fr': "frames_available n phys'"
    by (rule map_runs [OF f(1) opened used1 fr present, where frame = frame])
  note sep = sep' [rule_format]
  let ?d = "drawn adapter_allocate_frame m phys1" and ?w' = "walk_entries t' l4 (indices page)"
  have p': "phys' = after_draws adapter_allocate_frame m phys1"
    and ch: "\<forall>g i. t' g i \<noteq> t g i \<longrightarrow> g \<in> set ?d \<or> (g, i) \<in> set ?w \<and> entry_kept (t g i) (t' g i)"
    using m by (simp_all add: map_effect_def)
  have tr: "walk_tables t' l4 (indices page) = Some (frame, flags, [])" and path: "map fst ?w' = map fst ?w @ ?d"
    and leaf: "\<not> pte_huge (last_entry t' l4 (indices page))"
    using m present sep [of m] unfolding map_effect_def by blast+
  note us = after_draws_used [OF f(1), of m, folded p']
  have set': "fst ` set ?w' = fst ` set ?w \<union> set ?d" using arg_cong [OF path, of set] by simp
  show thesis
  proof (rule that)
    show "map_page_with (map_to l4) adapter_allocate_frame page flags t phys = (t', phys', Ok frame)"
      using a mt by (simp add: map_page_with_def page)
    show "translate_page t' l4 page = Some (frame, flags, [])" using tr by (simp add: translate_page_def)
    show "\<not> pte_huge (last_entry t' l4 (indices page))" by (rule leaf)
    show "walk_used t' l4 (indices page) phys'"
      unfolding walk_used_def path set' using sep [of m] us(2) w f(4) by auto
    show "\<exists>ds. map fst ?w' = map fst ?w @ ds \<and> (\<forall>g \<in> set ds. free_frame phys g)" using path fresh [of m] f(4) by blast
    show "frame \<notin> fst ` set ?w'" unfolding set' using w f(2,3) fresh [of m] by auto
    show "\<forall>g i. t' g i \<noteq> t g i \<longrightarrow> free_frame phys g \<or> (g, i) \<in> set ?w \<and> entry_kept (t g i) (t' g i)"
      using ch fresh [of m] f(4) by blast
    show "phys_ready phys'" by (rule us(1))
    show "\<forall>a. free_frame phys' a \<longrightarrow> free_frame phys a" using us(2) f(4) by blast
    show "\<forall>(g, i) \<in> set ?w'. \<forall>j. free_frame phys g \<longrightarrow> j \<noteq> i \<longrightarrow> is_unused (t' g j)"
    proof (intro ballI allI impI, clarsimp)
      fix g i j assume gi: "(g, i) \<in> set ?w'" and fg: "free_frame phys g" and ne: "j \<noteq> i"
      have "distinct (map fst ?w')" unfolding path by (rule sep)
      then have "(g, j) \<notin> set ?w'" using gi ne eq_key_imp_eq_value by fastforce
      moreover have "g \<in> fst ` set ?w'" using gi by force
      then have "g \<in> set ?d" using fg w unfolding set' by blast
      then have "g \<in> set (drawn adapter_allocate_frame ?k phys1)" using drawn_same [OF k, of m] len length_walk_entries [of t l4 "indices page"] by (simp add: indices_def)
      ultimately show "is_unused (t' g j)" by (rule new_tables_clear [OF mt refl k sep, rotated])
    qed
    show "frames_available n phys'" by (rule fr')
    show "bt_get (pa_live_blocks phys') frame = Some 0"
      unfolding p' by (rule after_draws_live [OF f(1)]) (use adapter_Some(2) [OF _ _ a] ready in \<open>simp add: phys_ready_def\<close>)
  qed
qed

text \<open>Five frames are enough for a new address space: its top-level table, the private page and three tables.\<close>

lemma new_space_built:
  assumes "PHYS (sp_globals s) = Some phys" and "phys_ready phys" and "frames_available (Suc (Suc (3 + n))) phys"
    and "phys_mem_offset (sp_globals s) \<noteq> None" and "\<not> free_frame phys (sp_cr3 s)"
    and "is_unused (sp_tables s (sp_cr3 s) (p4_index PRIVATE_REGION_ADDR))"
  obtains s' space phys' where "new_address_space map_to cpu s = (s', Some space)" "PHYS (sp_globals s') = Some phys'" "frames_available n phys'"
proof -
  obtain p1 l4 where a: "adapter_allocate_frame phys = (p1, Some l4)" and fr: "frames_available (Suc (3 + n)) p1"
    by (rule frames_available_Suc [OF assms(3)])
  note f = adapter_free [OF assms(2) a]
  have ne: "l4 \<noteq> sp_cr3 s" using f(2) assms(5) by blast
  define t1 where "t1 = clone_entries (sp_cr3 s) l4 ((sp_tables s)(l4 := \<lambda>i. unused_entry))"
  have "is_unused (t1 l4 (p4_index PRIVATE_REGION_ADDR))"
    using assms(6) clone_entries_closed [OF ne] ne by (simp add: t1_def p4_index_def table_index_less)
  note top = unused_top_open [of t1 l4 PRIVATE_REGION_ADDR, OF this]
  have page: "containing_address PRIVATE_REGION_ADDR = PRIVATE_REGION_ADDR"
    by (simp add: containing_address_def PRIVATE_REGION_ADDR_def)
  have used: "walk_used t1 l4 (indices PRIVATE_REGION_ADDR) p1" unfolding walk_used_def top(2) using f(3) by simp
  have miss: "missing_tables t1 l4 (indices PRIVATE_REGION_ADDR) = 3" unfolding top(2) by (simp add: indices_def)
  have fr1: "frames_available (Suc (missing_tables t1 l4 (indices PRIVATE_REGION_ADDR) + n)) p1" using fr by (simp only: miss)
  obtain t' phys' frame where
    m: "map_page_with (map_to l4) adapter_allocate_frame PRIVATE_REGION_ADDR (data_flags cpu) t1 p1 = (t', phys', Ok frame)"
    and fr': "frames_available n phys'"
    by (rule page_mapped [OF f(1) page top(1) used fr1 data_flags_fields(1), of cpu])
  obtain p1' r where al: "allocate 0 phys = (p1', r)" by (metis surj_pair)
  have r: "r = Ok l4" "p1' = p1"
    using al a allocate_is_adapter [OF assms(2)] by (auto simp: adapter_allocate_frame_def split: sum.splits)
  have "new_address_space map_to cpu s =
      (s\<lparr>sp_globals := (sp_globals s)\<lparr>PHYS := Some phys'\<rparr>, sp_tables := t', sp_data := (sp_data s)(frame := PRIVATE_VALUE)\<rparr>,
       Some \<lparr>l4_frame = containing_address l4\<rparr>)"
    using assms(1,4) al r m by (auto simp: new_address_space_def with_phys_def t1_def Let_def split: option.splits)
  then show thesis by (rule that [OF _ _ fr']) simp
qed

text \<open>When the top-level entry of a page was unused, the tables made for it hold that page and nothing else.\<close>

lemma neighbours_absent:
  assumes m: "map_to l4 adapter_allocate_frame page frame flags t phys = (t', phys', Ok ())" and ready: "phys_ready phys"
    and l4: "\<not> free_frame phys l4" and absent: "is_unused (t l4 (p4_index page))" and present: "fl_present flags"
    and other: "indices vaddr \<noteq> indices page" and top: "p4_index vaddr = p4_index page"
  shows "translate_page t' l4 vaddr = None"
proof -
  let ?draw = "\<lambda>n. drawn adapter_allocate_frame n phys" and ?w' = "walk_entries t' l4 (indices page)"
  note w = unused_top_open(2) [of t l4 page, OF absent]
  obtain n where n: "map_effect adapter_allocate_frame (indices page) frame flags l4 t phys t' phys' (Ok ()) n" using map_to_effect [OF m] by blast
  have sep: "distinct (map fst (walk_entries t l4 (indices page)) @ ?draw n)" for n unfolding w using drawn_fresh [OF ready, of n] l4 by auto
  have tr: "walk_tables t' l4 (indices page) = Some (frame, flags, [])" and path: "map fst ?w' = l4 # ?draw n" and lt: "n < 4"
    using n present sep [of n] unfolding map_effect_def w by (auto simp: indices_def)
  have "length ?w' = 4" using complete_walk [OF tr] by (simp add: indices_def)
  then have len: "length (?draw n) = 3" using arg_cong [OF path, of length] by simp
  then have n3: "n = 3" using lt length_drawn [of adapter_allocate_frame n phys] by simp
  have miss: "missing_tables t l4 (indices page) = 3" unfolding w by (simp add: indices_def)
  obtain f3 f2 f1 where d: "?draw 3 = [f3, f2, f1]" using len n3 by (auto simp: length_Suc_conv numeral_3_eq_3)
  let ?i = "\<lambda>level. table_index level page" and ?j = "\<lambda>level. table_index level vaddr"
  have e: "fl_present (pte_flags (t' l4 (?i 4)))" "\<not> pte_huge (t' l4 (?i 4))" "pte_addr (t' l4 (?i 4)) = f3"
    "fl_present (pte_flags (t' f3 (?i 3)))" "\<not> pte_huge (t' f3 (?i 3))" "pte_addr (t' f3 (?i 3)) = f2"
    "fl_present (pte_flags (t' f2 (?i 2)))" "\<not> pte_huge (t' f2 (?i 2))" "pte_addr (t' f2 (?i 2)) = f1"
    using path unfolding n3 d by (auto simp: indices_def Let_def split: if_splits)
  have w': "?w' = [(l4, ?i 4), (f3, ?i 3), (f2, ?i 2), (f1, ?i 1)]" using e by (simp add: indices_def Let_def)
  have "distinct [l4, f3, f2, f1]" using sep [of 3] unfolding w d by simp
  then have clear: "g \<in> {f3, f2, f1} \<Longrightarrow> (g, i) \<notin> set ?w' \<Longrightarrow> is_unused (t' g i)" for g i
    using new_tables_clear [OF m miss [symmetric] _ sep, of g i] d by simp
  have "\<not> fl_present (pte_flags (t' f3 (?j 3)))" if "?j 3 \<noteq> ?i 3"
    using clear [of f3 "?j 3"] that \<open>distinct [l4, f3, f2, f1]\<close> unused_not_present unfolding w' by auto
  moreover have "\<not> fl_present (pte_flags (t' f2 (?j 2)))" if "?j 2 \<noteq> ?i 2"
    using clear [of f2 "?j 2"] that \<open>distinct [l4, f3, f2, f1]\<close> unused_not_present unfolding w' by auto
  moreover have "\<not> fl_present (pte_flags (t' f1 (?j 1)))" if "?j 1 \<noteq> ?i 1"
    using clear [of f1 "?j 1"] that \<open>distinct [l4, f3, f2, f1]\<close> unused_not_present unfolding w' by auto
  moreover have "?j 4 = ?i 4" using top by (simp add: p4_index_def)
  moreover have "?j 3 \<noteq> ?i 3 \<or> ?j 2 \<noteq> ?i 2 \<or> ?j 1 \<noteq> ?i 1" using other top by (simp add: indices_def p4_index_def)
  ultimately show ?thesis using e
    by (cases "?j 3 = ?i 3"; cases "?j 2 = ?i 2"; cases "?j 1 = ?i 1") (simp_all add: translate_page_def indices_def Let_def)
qed

end

section \<open>The implementation on the tables\<close>

fun remove_walk :: "nat list \<Rightarrow> u64 \<Rightarrow> tables \<Rightarrow> tables \<times> (unmap_error, u64) result" where
  "remove_walk [] f t = (t, Err PageNotMapped)"
| "remove_walk (i # is) f t =
     (let e = t f i
      in if \<not> fl_present (pte_flags e) then (t, Err PageNotMapped)
         else if is = [] then
           if pte_huge e then (t, Err InvalidFrameAddress) else (t(f := (t f)(i := unused_entry)), Ok (pte_addr e))
         else if pte_huge e then (t, Err UnmapParentEntryHugePage)
         else remove_walk is (pte_addr e) t)"

definition table_unmap :: "u64 \<Rightarrow> tables unmap" where
  "table_unmap l4 page t = remove_walk (indices page) l4 t"

lemma remove_walk_mapped:
  assumes "walk_tables t f is = Some (frame, flags, [])" and "\<not> pte_huge (last_entry t f is)" and "last (walk_entries t f is) = (g, l)"
  shows "remove_walk is f t = (t(g := (t g)(l := unused_entry)), Ok frame)"
  using assms
proof (induction "is" f t rule: remove_walk.induct)
  case (2 i "is" f t)
  show ?case
  proof (cases "is")
    case Nil
    then show ?thesis using 2(2-) by (auto simp: last_entry_def Let_def fun_upd_def split: if_splits)
  next
    case (Cons j js)
    then have e: "fl_present (pte_flags (t f i))" "\<not> pte_huge (t f i)" using 2(2) by (auto simp: Let_def split: if_splits)
    then have "walk_tables t (pte_addr (t f i)) is = Some (frame, flags, [])" "\<not> pte_huge (last_entry t (pte_addr (t f i)) is)"
      "last (walk_entries t (pte_addr (t f i)) is) = (g, l)"
      using 2(2-4) Cons last_entry_step [of t f i j js] by (simp_all add: Let_def)
    then show ?thesis using 2(1) [of "t f i"] e Cons by simp
  qed
qed simp

lemma insert_walk_succeeds:
  assumes "walk_open t f is" and "length (drawn alloc (missing_tables t f is) fa) = missing_tables t f is"
    and "distinct (map fst (walk_entries t f is) @ drawn alloc (missing_tables t f is) fa)"
  shows "\<exists>t' fa'. insert_walk alloc is frame flags f t fa = (t', fa', Ok ())"
  using assms
proof (induction alloc "is" frame flags f t fa rule: insert_walk.induct)
  case (2 alloc i frame flags f t fa)
  then show ?case by simp
next
  case (3 alloc i j "is" frame flags f t fa)
  show ?case
  proof (cases "is_unused (t f i)")
    case True
    have k: "missing_tables t f (i # j # is) = Suc (length is)" using unused_not_present [OF True] by simp
    obtain fa1 n where a: "alloc fa = (fa1, Some n)" and l: "length (drawn alloc (length is) fa1) = length is"
      and d: "distinct (f # n # drawn alloc (length is) fa1)"
      using 3(4,5) unfolding k using length_drawn [of alloc "length is"] unused_not_present [OF True]
      by (auto split: prod.splits option.splits) (metis Suc_n_not_le_n)
    let ?t0 = "t(n := \<lambda>k. unused_entry)"
    let ?t = "?t0(f := (?t0 f)(i := \<lparr>pte_addr = n, pte_flags = present_writable, pte_huge = False\<rparr>))"
    have u: "is_unused (?t n j)" using d by (auto simp: is_unused_def)
    have w: "walk_entries ?t n (j # is) = [(n, j)]" using unused_not_present [OF u] by simp
    have "\<exists>t' fa'. insert_walk alloc (j # is) frame flags n ?t fa1 = (t', fa', Ok ())"
    proof (rule 3(1) [OF refl True a [symmetric] refl refl refl])
      show "walk_open ?t n (j # is)" unfolding walk_open.simps(2) using u by blast
      show "length (drawn alloc (missing_tables ?t n (j # is)) fa1) = missing_tables ?t n (j # is)" unfolding w using l by simp
      show "distinct (map fst (walk_entries ?t n (j # is)) @ drawn alloc (missing_tables ?t n (j # is)) fa1)" unfolding w using d by simp
    qed
    then show ?thesis unfolding insert_walk.simps(3) Let_def using True a by simp
  next
    case False
    then have e: "fl_present (pte_flags (t f i))" "\<not> pte_huge (t f i)" and o: "walk_open t (pte_addr (t f i)) (j # is)" using 3(3) by auto
    have w: "walk_entries t f (i # j # is) = (f, i) # walk_entries t (pte_addr (t f i)) (j # is)" using e by (simp add: Let_def)
    then have k: "missing_tables t f (i # j # is) = missing_tables t (pte_addr (t f i)) (j # is)" by (simp del: walk_entries.simps)
    have "\<exists>t' fa'. insert_walk alloc (j # is) frame flags (pte_addr (t f i)) t fa = (t', fa', Ok ())"
      using 3(2) [OF refl False _ o] e 3(4,5) unfolding k unfolding w by (simp del: walk_entries.simps)
    then show ?thesis using e False by (simp add: Let_def)
  qed
qed simp

lemma insert_walk_clear:
  assumes "insert_walk alloc is frame flags f t fa = (t', fa', Ok ())" and "length (drawn alloc (missing_tables t f is) fa) = missing_tables t f is"
    and "distinct (map fst (walk_entries t f is) @ drawn alloc (missing_tables t f is) fa)"
  shows "(\<forall>g l. t' g l \<noteq> t g l \<longrightarrow> g \<in> set (drawn alloc (missing_tables t f is) fa) \<or> (g, l) \<in> set (walk_entries t f is))
    \<and> (\<forall>g l. g \<in> set (drawn alloc (missing_tables t f is) fa) \<longrightarrow> (g, l) \<notin> set (walk_entries t' f is) \<longrightarrow> is_unused (t' g l))"
  using assms
proof (induction alloc "is" frame flags f t fa rule: insert_walk.induct)
  case (2 alloc i frame flags f t fa)
  then show ?case by (auto split: if_splits)
next
  case (3 alloc i j "is" frame flags f t fa)
  show ?case
  proof (cases "is_unused (t f i)")
    case True
    have k: "missing_tables t f (i # j # is) = Suc (length is)" and w0: "walk_entries t f (i # j # is) = [(f, i)]"
      using unused_not_present [OF True] by simp_all
    obtain fa1 n where a: "alloc fa = (fa1, Some n)" and len: "length (drawn alloc (length is) fa1) = length is"
      and d: "distinct (f # n # drawn alloc (length is) fa1)"
      using 3(4,5) unfolding k w0 using length_drawn [of alloc "length is"]
      by (auto split: prod.splits option.splits) (metis Suc_n_not_le_n)
    let ?t0 = "t(n := \<lambda>k. unused_entry)"
    define t1 where "t1 = ?t0(f := (?t0 f)(i := \<lparr>pte_addr = n, pte_flags = present_writable, pte_huge = False\<rparr>))"
    have ins: "insert_walk alloc (j # is) frame flags n t1 fa1 = (t', fa', Ok ())"
      using 3(3) True a unfolding insert_walk.simps(3) Let_def by (simp add: t1_def)
    have u: "is_unused (t1 n l)" for l using d by (auto simp: is_unused_def t1_def)
    have w: "walk_entries t1 n (j # is) = [(n, j)]" using unused_not_present [OF u] by simp
    have m: "missing_tables t1 n (j # is) = length is" by (simp only: w) simp
    have IH: "\<forall>g l. t' g l \<noteq> t1 g l \<longrightarrow> g \<in> set (drawn alloc (length is) fa1) \<or> (g, l) \<in> set [(n, j)]"
      "\<forall>g l. g \<in> set (drawn alloc (length is) fa1) \<longrightarrow> (g, l) \<notin> set (walk_entries t' n (j # is)) \<longrightarrow> is_unused (t' g l)"
      using 3(1) [OF refl True a [symmetric] refl refl refl ins [unfolded t1_def]] len d unfolding t1_def [symmetric] m unfolding w by simp_all
    have "t' f i = t1 f i" using IH(1) d by fastforce
    then have w': "walk_entries t' f (i # j # is) = (f, i) # walk_entries t' n (j # is)"
      by (simp add: t1_def present_writable_def)
    have D: "drawn alloc (missing_tables t f (i # j # is)) fa = n # drawn alloc (length is) fa1" using a unfolding k by simp
    have old: "t1 g l = t g l" if "g \<noteq> n" "(g, l) \<noteq> (f, i)" for g l using that by (auto simp: t1_def)
    have cl: "is_unused (t' n l)" if "(n, l) \<notin> set (walk_entries t' n (j # is))" for l
    proof -
      have "l \<noteq> j" using that by auto
      then have "t' n l = t1 n l" using IH(1) d by fastforce
      then show ?thesis using u [of l] by simp
    qed
    have ch: "g \<in> set (n # drawn alloc (length is) fa1) \<or> (g, l) \<in> set [(f, i)]" if "t' g l \<noteq> t g l" for g l
      using IH(1) [rule_format, of g l] old [of g l] that by (cases "t' g l = t1 g l") auto
    show ?thesis unfolding D unfolding w0 w' using IH(2) cl ch by (auto simp del: walk_entries.simps)
  next
    case False
    then have e: "fl_present (pte_flags (t f i))" "\<not> pte_huge (t f i)" using 3(3) by (auto simp: Let_def split: if_splits)
    have w: "walk_entries t f (i # j # is) = (f, i) # walk_entries t (pte_addr (t f i)) (j # is)" using e by (simp add: Let_def)
    then have k: "missing_tables t f (i # j # is) = missing_tables t (pte_addr (t f i)) (j # is)" by (simp del: walk_entries.simps)
    have ins: "insert_walk alloc (j # is) frame flags (pte_addr (t f i)) t fa = (t', fa', Ok ())" using 3(3) False e by (simp add: Let_def)
    note IH = 3(2) [OF refl False _ ins] 
    have IH: "\<forall>g l. t' g l \<noteq> t g l \<longrightarrow> g \<in> set (drawn alloc (missing_tables t f (i # j # is)) fa) \<or> (g, l) \<in> set (walk_entries t (pte_addr (t f i)) (j # is))"
      "\<forall>g l. g \<in> set (drawn alloc (missing_tables t f (i # j # is)) fa) \<longrightarrow> (g, l) \<notin> set (walk_entries t' (pte_addr (t f i)) (j # is)) \<longrightarrow> is_unused (t' g l)"
      using IH e 3(4,5) unfolding k unfolding w by (simp_all del: walk_entries.simps)
    have "f \<notin> set (drawn alloc (missing_tables t f (i # j # is)) fa)" "f \<notin> fst ` set (walk_entries t (pte_addr (t f i)) (j # is))"
      using 3(5) unfolding w by auto
    then have "t' f i = t f i" using IH(1) by force
    then have "walk_entries t' f (i # j # is) = (f, i) # walk_entries t' (pte_addr (t f i)) (j # is)" using e by (simp add: Let_def)
    then show ?thesis using IH unfolding w by (auto simp del: walk_entries.simps)
  qed
qed simp

interpretation four_level_pages: page_mapper table_map_to table_unmap
proof unfold_locales
  fix t :: tables and l4 page frame :: u64 and k :: nat and alloc :: "physical_allocator allocate_frame" and fa :: physical_allocator
    and flags :: page_flags
  assume "walk_open t l4 (indices page)" "k = missing_tables t l4 (indices page)" "length (drawn alloc k fa) = k"
    "distinct (map fst (walk_entries t l4 (indices page)) @ drawn alloc k fa)"
  then show "\<exists>t' fa'. table_map_to l4 alloc page frame flags t fa = (t', fa', Ok ())"
    unfolding table_map_to_def using insert_walk_succeeds [of t l4 "indices page" alloc fa] by simp
next
  fix t t' :: tables and l4 page frame g :: u64 and k i :: nat and alloc :: "physical_allocator allocate_frame" and fa fa' :: physical_allocator
    and flags :: page_flags
  assume "table_map_to l4 alloc page frame flags t fa = (t', fa', Ok ())" "k = missing_tables t l4 (indices page)" "length (drawn alloc k fa) = k"
    "distinct (map fst (walk_entries t l4 (indices page)) @ drawn alloc k fa)" "g \<in> set (drawn alloc k fa)"
    "(g, i) \<notin> set (walk_entries t' l4 (indices page))"
  then show "is_unused (t' g i)"
    unfolding table_map_to_def using insert_walk_clear [of alloc "indices page" frame flags l4 t fa t' fa'] by blast
qed (simp add: table_unmap_def translate_page_def remove_walk_mapped)

section \<open>Properties\<close>

text \<open>
  C32: Address spaces are isolated. When no walk from the active table goes through a frame the allocator could hand out, and the
  private region is absent from the active table, a space that \<open>AddressSpace::new\<close> builds has its own top-level table; the active space translates every
  address as before and still lacks the private region; the new space translates every address outside the private page, also those next to it, as
  the active one does, and the private address to a frame that was free, that holds the private value, and that is writable and not
  accessible to ring 3. The boot check passes, with CR3 restored.
\<close>
theorem private_page_isolated:
  assumes "page_mapper map_to unmap" and "PHYS (sp_globals s) = Some phys" and "phys_ready phys"
    and "\<forall>f \<in> table_frames (sp_tables s) (sp_cr3 s). \<not> free_frame phys f"
    and "private_region_absent_from_active s"
    and "new_address_space map_to cpu s = (s', Some space)"
  shows "l4_frame space \<noteq> sp_cr3 s \<and> sp_cr3 s' = sp_cr3 s
    \<and> (\<forall>vaddr. translate_page (sp_tables s') (sp_cr3 s) vaddr = translate_page (sp_tables s) (sp_cr3 s) vaddr)
    \<and> private_region_absent_from_active s'
    \<and> (\<forall>vaddr. indices vaddr \<noteq> indices PRIVATE_REGION_ADDR \<longrightarrow>
         translate_page (sp_tables s') (l4_frame space) vaddr = translate_page (sp_tables s) (sp_cr3 s) vaddr)
    \<and> (\<exists>frame flags. translate_page (sp_tables s') (l4_frame space) PRIVATE_REGION_ADDR = Some (frame, flags, [])
         \<and> free_frame phys frame \<and> frame \<noteq> l4_frame space \<and> sp_data s' frame = PRIVATE_VALUE
         \<and> fl_writable flags \<and> \<not> fl_user_accessible flags \<and> fl_no_execute flags = NX_ENABLED cpu)
    \<and> address_space_check map_to cpu s = (s', Some True)"
proof -
  have tm: "table_mapper map_to" using assms(1) by (simp add: page_mapper_def)
  obtain phys1 phys2 phys3 l4 frame t' where
    a1: "adapter_allocate_frame phys = (phys1, Some l4)" and a2: "adapter_allocate_frame phys1 = (phys2, Some frame)"
    and m: "map_to l4 adapter_allocate_frame PRIVATE_REGION_ADDR frame (data_flags cpu)
       (clone_entries (sp_cr3 s) l4 ((sp_tables s)(l4 := \<lambda>i. unused_entry))) phys2 = (t', phys3, Ok ())"
    and s': "s' = s\<lparr>sp_globals := (sp_globals s)\<lparr>PHYS := Some phys3\<rparr>, sp_tables := t', sp_data := (sp_data s)(frame := PRIVATE_VALUE)\<rparr>"
    and l4: "l4_frame space = l4"
    by (rule new_address_space_steps [of map_to cpu s s' space phys, OF assms(6,2,3)])
  have page: "containing_address PRIVATE_REGION_ADDR = PRIVATE_REGION_ADDR" "PRIVATE_REGION_ADDR AND 0xFFF = 0"
    by (simp_all add: containing_address_def PRIVATE_REGION_ADDR_def)
  have absent: "is_unused (sp_tables s (sp_cr3 s) (p4_index PRIVATE_REGION_ADDR))"
    using assms(5) by (simp add: private_region_absent_from_active_def page split: option.splits)
  note e = private_mapping_effect [of map_to phys "table_frames (sp_tables s) (sp_cr3 s)" "sp_cr3 s" phys1 l4 phys2 frame PRIVATE_REGION_ADDR "data_flags cpu"
      "sp_tables s" t' phys3, OF tm assms(3,4) l4_in_table_frames a1 a2 m absent data_flags_fields(1)]
  have active: "translate_page t' (sp_cr3 s) vaddr = translate_page (sp_tables s) (sp_cr3 s) vaddr" for vaddr
    using e(4) by (rule translate_cong)
  have shared: "translate_page t' l4 vaddr = translate_page (sp_tables s) (sp_cr3 s) vaddr" if v: "indices vaddr \<noteq> indices PRIVATE_REGION_ADDR" for vaddr
  proof (cases "p4_index vaddr = p4_index PRIVATE_REGION_ADDR")
    case False
    then show ?thesis using e(5) by (intro translate_shared e(4)) simp
  next
    case True
    have "translate_page (sp_tables s) (sp_cr3 s) vaddr = None" by (rule unused_top_none) (simp add: True absent)
    moreover have "translate_page t' l4 vaddr = None"
      by (rule page_mapper.neighbours_absent [OF assms(1) m adapter_free(1) [OF adapter_free(1) [OF assms(3) a1] a2] _ _ data_flags_fields(1) v True])
        (use adapter_free(3) [OF assms(3) a1] adapter_free(4) [OF adapter_free(1) [OF assms(3) a1] a2] absent e(1) clone_entries_closed
         in \<open>auto simp: p4_index_def table_index_less\<close>)
    ultimately show ?thesis by simp
  qed
  have "t' (sp_cr3 s) = sp_tables s (sp_cr3 s)" using e(4) l4_in_table_frames by blast
  then have still: "private_region_absent_from_active s'"
    using assms(5) by (simp add: s' private_region_absent_from_active_def phys_mem_offset_def split: option.splits)
  have "address_space_check map_to cpu s = (s', Some True)"
    using e(6) assms(5,6) by (simp add: address_space_check_def switch_space_def restore_def read_active_def page l4 s')
  then show ?thesis using e(1-3,6) active shared still data_flags_fields(2-4) [of cpu] by (simp add: l4 s')
qed

theorem private_page_isolated_witness:
  "\<exists>s'. address_space_check table_map_to \<lparr>cpu_efer = 0, cpu_cr4 = 0, NX_ENABLED = True\<rparr> sample_space = (s', Some True)
     \<and> translate_page (sp_tables s') (sp_cr3 s') PRIVATE_REGION_ADDR = None"
proof -
  let ?cpu = "\<lparr>cpu_efer = 0, cpu_cr4 = 0, NX_ENABLED = True\<rparr>"
  obtain s' space where s': "new_address_space table_map_to ?cpu sample_space = (s', Some space)" using sample_space_built by blast
  have empty: "\<not> fl_present (pte_flags unused_entry)" by (simp add: unused_entry_def flags_empty_def)
  have "phys_ready sample_phys"
    unfolding phys_ready_def sample_phys_def by (simp add: new_allocator_inv)
  moreover have "table_frames (sp_tables sample_space) (sp_cr3 sample_space) = {0x101000}"
    by (simp add: table_frames_def sample_space_def indices_def empty Let_def)
  moreover have "\<not> free_frame sample_phys 0x101000" by (simp add: free_frame_def sample_phys_def)
  moreover have "private_region_absent_from_active sample_space"
    by (simp add: private_region_absent_from_active_def sample_space_def phys_mem_offset_def is_unused_def)
  moreover have "PHYS (sp_globals sample_space) = Some sample_phys" "translate_page (sp_tables sample_space) (sp_cr3 sample_space) PRIVATE_REGION_ADDR = None"
    by (simp_all add: sample_space_def translate_page_def indices_def empty Let_def)
  ultimately show ?thesis
    using private_page_isolated [OF four_level_pages.page_mapper_axioms _ _ _ _ s', of sample_phys] by auto
qed

end
