(* ===== verification/Task_Spaces.thy ===== *)
theory Task_Spaces
  imports Demo_Tasks Page_Mapper
begin

text \<open>
  The scheduler over real page tables: the mapper of the kernel is a view of the tables under the top-level table that is active at
  \<open>init\<close>, task stacks are mapped there, and the address space of the last task is built by \<open>AddressSpace::new\<close> on the same tables and
  the same allocator. The theorem at the end is what the comments of \<open>switch_address_space_to\<close> and \<open>spawn_task_impl\<close> argue: whichever
  task the timer switches to, its stack is mapped in the table that is loaded with it, and its private page is visible to it alone.
\<close>

section \<open>The kernel's view of the memory\<close>

text \<open>The page tables and the words of the data frames.\<close>

type_synonym memory = "tables \<times> (u64 \<Rightarrow> u64)"

definition view_map_to :: "(u64 \<Rightarrow> (tables, physical_allocator) map_to) \<Rightarrow> u64 \<Rightarrow> (memory, physical_allocator) map_to" where
  "view_map_to map_to l4 alloc page frame flags m fa =
     (case map_to l4 alloc page frame flags (fst m) fa of (t, fa', r) \<Rightarrow> ((t, snd m), fa', r))"

definition space_of :: "u64 \<Rightarrow> memory paging_globals \<Rightarrow> memory \<Rightarrow> memory space_state" where
  "space_of l4 g m = \<lparr>sp_globals = g, sp_tables = fst m, sp_data = snd m, sp_cr3 = l4\<rparr>"

definition view_new_space ::
    "(u64 \<Rightarrow> (tables, physical_allocator) map_to) \<Rightarrow> cpu_control \<Rightarrow> u64 \<Rightarrow> memory paging_globals \<Rightarrow> memory paging_globals \<times> u64 option" where
  "view_new_space map_to cpu l4 g =
     (case MAPPER g of
        None \<Rightarrow> (g, None)
      | Some m \<Rightarrow>
          (case new_address_space map_to cpu (space_of l4 g m) of
             (s, r) \<Rightarrow> ((sp_globals s)\<lparr>MAPPER := Some (sp_tables s, sp_data s)\<rparr>, map_option l4_frame r)))"

definition view_load :: "u64 \<Rightarrow> memory paging_globals \<Rightarrow> u64 \<Rightarrow> u64 option" where
  "view_load l4 g vaddr = Option.bind (MAPPER g) (\<lambda>m. read_active vaddr (space_of l4 g m))"

section \<open>The region of the stacks\<close>

text \<open>All stack pages share the tables of one walk.\<close>

lemma table_index_div: "table_index level vaddr = unat vaddr div 2 ^ (12 + 9 * (level - 1)) mod 512"
proof -
  have "drop_bit n vaddr AND 0x1FF = take_bit 9 (drop_bit n vaddr)" for n
    by (simp add: take_bit_eq_mask mask_eq_exp_minus_1)
  then have "unat (drop_bit n vaddr AND 0x1FF) = take_bit 9 (drop_bit n (unat vaddr))" for n
    by (simp only: unsigned_take_bit_eq unat_drop_bit_eq)
  then show ?thesis by (simp only: table_index_def take_bit_eq_mod drop_bit_eq_div) simp
qed

lemma region_indices: "p < 136 \<Longrightarrow> indices (page_at REGION_BASE p) = [102, 204, 409, 304 + p]"
proof -
  assume p: "p < 136"
  have u: "unat (page_at REGION_BASE p) = 0x333333330000 + p * 4096" using p by (simp add: unat_region_page)
  have 1: "(0x333333330000 + p * 4096) div 2 ^ 12 = 0x333333330 + p" by simp
  have "(0x333333330000 + p * 4096) div 2 ^ (12 + n) = (0x333333330 + p) div 2 ^ n" for n
    by (simp only: power_add div_mult2_eq 1)
  from this [of 27] this [of 18] this [of 9] 1 have
    "(0x333333330000 + p * 4096) div 2 ^ 39 = (0x333333330 + p) div 2 ^ 27"
    "(0x333333330000 + p * 4096) div 2 ^ 30 = (0x333333330 + p) div 2 ^ 18"
    "(0x333333330000 + p * 4096) div 2 ^ 21 = (0x333333330 + p) div 2 ^ 9"
    by simp_all
  moreover have "(0x333333330 + p) div 2 ^ 27 = 102" "(0x333333330 + p) div 2 ^ 18 = 0xCCCC" "(0x333333330 + p) div 2 ^ 9 = 0x1999999"
    using p by simp_all
  moreover have "(0x333333330 + p) mod 512 = 304 + p" 
    using calculation(6) mult_div_mod_eq [of 512 "0x333333330 + p"] by simp
  ultimately show ?thesis using p by (simp add: indices_def table_index_div u 1)
qed

lemma private_p4: "p4_index PRIVATE_REGION_ADDR = 34"
  by (simp add: p4_index_def table_index_div PRIVATE_REGION_ADDR_def)

lemma region_p4: "p < 136 \<Longrightarrow> p4_index (page_at REGION_BASE p) = 102"
  using region_indices [of p] by (simp add: indices_def p4_index_def)

subsection \<open>The tables of the region\<close>

definition links_to :: "tables \<Rightarrow> u64 \<Rightarrow> nat \<Rightarrow> u64 \<Rightarrow> bool" where
  "links_to t f i n \<longleftrightarrow> fl_present (pte_flags (t f i)) \<and> \<not> pte_huge (t f i) \<and> pte_addr (t f i) = n"

definition stack_path :: "tables \<Rightarrow> u64 \<Rightarrow> physical_allocator \<Rightarrow> u64 \<Rightarrow> u64 \<Rightarrow> u64 \<Rightarrow> bool" where
  "stack_path t l4 phys f3 f2 f1 \<longleftrightarrow> links_to t l4 102 f3 \<and> links_to t f3 204 f2 \<and> links_to t f2 409 f1
     \<and> distinct [l4, f3, f2, f1] \<and> (\<forall>f \<in> {l4, f3, f2, f1}. \<not> free_frame phys f)"

definition region_ready :: "tables \<Rightarrow> u64 \<Rightarrow> physical_allocator \<Rightarrow> bool" where
  "region_ready t l4 phys \<longleftrightarrow> \<not> free_frame phys l4 \<and> (is_unused (t l4 102) \<or> (\<exists>f3 f2 f1. stack_path t l4 phys f3 f2 f1))"

lemma stack_path_walk:
  assumes "stack_path t l4 phys f3 f2 f1" and "p < 136"
  shows "walk_entries t l4 (indices (page_at REGION_BASE p)) = [(l4, 102), (f3, 204), (f2, 409), (f1, 304 + p)]"
  using assms by (simp add: region_indices stack_path_def links_to_def Let_def)

lemma stack_path_region: "stack_path t l4 phys f3 f2 f1 \<Longrightarrow> region_ready t l4 phys"
  unfolding region_ready_def stack_path_def [of t l4 phys f3 f2 f1] by (metis insertI1 stack_path_def)

text \<open>A page of the region under a top-level table with the same entry for it.\<close>

lemma stack_path_translate:
  assumes "stack_path t l4 phys f3 f2 f1" and "links_to t top4 102 f3" and "p < 136"
  shows "translate_page t top4 (page_at REGION_BASE p) =
    (if fl_present (pte_flags (t f1 (304 + p))) then Some (pte_addr (t f1 (304 + p)), pte_flags (t f1 (304 + p)), []) else None)"
  using assms by (simp add: translate_page_def region_indices stack_path_def links_to_def Let_def)

text \<open>Mapping one page of the region.\<close>

lemma map_stack_page:
  assumes mapper: "table_mapper map_to" and ready: "phys_ready phys" and region: "region_ready t l4 phys" and p: "p < 136"
    and present: "fl_present flags"
    and m: "map_page_with (map_to l4) adapter_allocate_frame (page_at REGION_BASE p) flags t phys = (t', phys', Ok frame)"
  obtains f3 f2 f1 where "stack_path t' l4 phys' f3 f2 f1"
    "translate_page t' l4 (page_at REGION_BASE p) = Some (frame, flags, [])"
    "phys_ready phys'" "\<forall>a. free_frame phys' a \<longrightarrow> free_frame phys a"
    "\<forall>g i. t' g i \<noteq> t g i \<longrightarrow> free_frame phys g \<or> g \<in> {l4, f3, f2, f1} \<and> (g = l4 \<longrightarrow> i = 102) \<and> entry_kept (t g i) (t' g i)"
    "\<forall>g3 g2 g1. stack_path t l4 phys g3 g2 g1 \<longrightarrow> g3 = f3 \<and> g2 = f2 \<and> g1 = f1"
proof -
  let ?page = "page_at REGION_BASE p"
  have page: "containing_address ?page = ?page"
    using p by (intro containing_address_aligned) (simp add: unat_region_page)
  from m obtain phys1 where a: "adapter_allocate_frame phys = (phys1, Some frame)"
    and mt: "map_to l4 adapter_allocate_frame ?page frame flags t phys1 = (t', phys', Ok ())"
    by (auto simp: map_page_with_def page Let_def split: prod.splits option.splits sum.splits)
  note f1 = adapter_free [OF ready a]
  obtain n where n: "map_effect adapter_allocate_frame (indices ?page) frame flags l4 t phys1 t' phys' (Ok ()) n"
    using table_mapper.map_to_effect [OF mapper mt] by blast
  let ?w = "walk_entries t l4 (indices ?page)" and ?d = "drawn adapter_allocate_frame n phys1"
  have fresh: "distinct ?d" "set ?d \<subseteq> {f. free_frame phys f}" using drawn_fresh [OF f1(1), of n] f1(4) by blast+
  have p': "phys' = after_draws adapter_allocate_frame n phys1" using n by (simp add: map_effect_def)
  note used = after_draws_used [OF f1(1), of n, folded p']
  have w: "distinct (map fst ?w)" "\<forall>g \<in> fst ` set ?w. \<not> free_frame phys g" "\<forall>(g, i) \<in> set ?w. g = l4 \<longrightarrow> i = 102"
  proof -
    have "?w = [(l4, 102)] \<and> \<not> free_frame phys l4
        \<or> (\<exists>f3 f2 f1. ?w = [(l4, 102), (f3, 204), (f2, 409), (f1, 304 + p)] \<and> stack_path t l4 phys f3 f2 f1)"
    proof (cases "is_unused (t l4 102)")
      case True
      then show ?thesis using region unused_not_present by (simp add: region_ready_def region_indices [OF p])
    next
      case False
      then show ?thesis using region stack_path_walk [OF _ p] unfolding region_ready_def by blast
    qed
    then show "distinct (map fst ?w)" "\<forall>g \<in> fst ` set ?w. \<not> free_frame phys g" "\<forall>(g, i) \<in> set ?w. g = l4 \<longrightarrow> i = 102"
      by (auto simp: stack_path_def)
  qed
  have "distinct (map fst ?w @ ?d)" using w fresh by auto
  then have tr: "walk_tables t' l4 (indices ?page) = Some (frame, flags, [])" and path: "map fst (walk_entries t' l4 (indices ?page)) = map fst ?w @ ?d"
    using n present unfolding map_effect_def by blast+
  define f3 f2 f1 where f: "f3 = pte_addr (t' l4 102)" "f2 = pte_addr (t' f3 204)" "f1 = pte_addr (t' f2 409)"
  have links: "links_to t' l4 102 f3" "links_to t' f3 204 f2" "links_to t' f2 409 f1"
    using tr by (auto simp: region_indices [OF p] links_to_def f Let_def split: if_splits)
  then have "map fst (walk_entries t' l4 (indices ?page)) = [l4, f3, f2, f1]"
    by (simp add: region_indices [OF p] links_to_def Let_def)
  then have path': "[l4, f3, f2, f1] = map fst ?w @ ?d" using path by (simp only:)
  have nf: "\<not> free_frame phys' g" if "g \<in> set (map fst ?w @ ?d)" for g using that w(2) used(2) f1(4) by auto
  have sp: "stack_path t' l4 phys' f3 f2 f1"
    using links nf \<open>distinct (map fst ?w @ ?d)\<close> unfolding path' [symmetric] by (simp add: stack_path_def)
  have in_path: "g \<in> {l4, f3, f2, f1}" if "g \<in> fst ` set ?w" for g
    using that arg_cong [OF path', of set] by auto
  show thesis
  proof (rule that [OF sp])
    show "translate_page t' l4 ?page = Some (frame, flags, [])" using tr by (simp add: translate_page_def)
    show "phys_ready phys'" by (rule used(1))
    show "\<forall>a. free_frame phys' a \<longrightarrow> free_frame phys a" using used(2) f1(4) by blast
    show "\<forall>g i. t' g i \<noteq> t g i \<longrightarrow> free_frame phys g \<or> g \<in> {l4, f3, f2, f1} \<and> (g = l4 \<longrightarrow> i = 102) \<and> entry_kept (t g i) (t' g i)"
    proof (intro allI impI)
      fix g i assume that: "t' g i \<noteq> t g i"
      have "g \<in> set ?d \<or> (g, i) \<in> set ?w \<and> entry_kept (t g i) (t' g i)" using n that unfolding map_effect_def by blast
      then show "free_frame phys g \<or> g \<in> {l4, f3, f2, f1} \<and> (g = l4 \<longrightarrow> i = 102) \<and> entry_kept (t g i) (t' g i)"
        using fresh(2) in_path [of g] w(3) by (force simp del: insert_iff)
    qed
    show "\<forall>g3 g2 g1. stack_path t l4 phys g3 g2 g1 \<longrightarrow> g3 = f3 \<and> g2 = f2 \<and> g1 = f1"
    proof (intro allI impI)
      fix g3 g2 g1 assume "stack_path t l4 phys g3 g2 g1"
      then show "g3 = f3 \<and> g2 = f2 \<and> g1 = f1" using path' stack_path_walk [OF _ p] by simp
    qed
  qed
qed

section \<open>The memory invariant\<close>

definition stack_mapped :: "tables \<Rightarrow> u64 \<Rightarrow> nat \<Rightarrow> bool" where
  "stack_mapped t l4 p \<longleftrightarrow> (\<exists>frame flags. translate_page t l4 (page_at REGION_BASE p) = Some (frame, flags, []) \<and> fl_writable flags)"

text \<open>
  A space with a private page: it shares the tables of the stack region, and the walk to the private page goes
  through frames in use that are not those tables.
\<close>

definition private_ok :: "u64 \<Rightarrow> tables \<Rightarrow> (u64 \<Rightarrow> u64) \<Rightarrow> physical_allocator \<Rightarrow> u64 \<Rightarrow> bool" where
  "private_ok l4 t d phys pl4 \<longleftrightarrow>
     (\<exists>f3 f2 f1. stack_path t l4 phys f3 f2 f1 \<and> links_to t pl4 102 f3
        \<and> (\<forall>g \<in> fst ` set (walk_entries t pl4 (indices PRIVATE_REGION_ADDR)). g \<notin> {l4, f3, f2, f1} \<and> \<not> free_frame phys g))
     \<and> (\<exists>frame flags. translate_page t pl4 PRIVATE_REGION_ADDR = Some (frame, flags, []) \<and> d frame = PRIVATE_VALUE)"

definition space_inv :: "u64 \<Rightarrow> u64 option \<Rightarrow> nat set \<Rightarrow> tables \<Rightarrow> (u64 \<Rightarrow> u64) \<Rightarrow> physical_allocator \<Rightarrow> bool" where
  "space_inv l4 pl4 P t d phys \<longleftrightarrow>
     phys_ready phys \<and> region_ready t l4 phys \<and> is_unused (t l4 34) \<and> (\<forall>p \<in> P. p < 136 \<and> stack_mapped t l4 p)
     \<and> (\<forall>f \<in> set_option pl4. private_ok l4 t d phys f)"

lemma walk_entries_cong:
  assumes "\<forall>(g, i) \<in> set (walk_entries t f is). t' g i = t g i"
  shows "walk_entries t' f is = walk_entries t f is"
  using assms by (induction t f "is" rule: walk_entries.induct) (auto simp: Let_def split: if_splits)

lemma first_walk_entry: "l4 \<in> fst ` set (walk_entries t l4 (indices vaddr))"
  by (simp add: indices_def)

lemma stack_mapped_path:
  assumes "region_ready t l4 phys" and "p < 136" and "stack_mapped t l4 p"
  obtains f3 f2 f1 where "stack_path t l4 phys f3 f2 f1" "fl_present (pte_flags (t f1 (304 + p)))" "fl_writable (pte_flags (t f1 (304 + p)))"
proof -
  have "\<not> is_unused (t l4 102)"
    using assms(2,3) unused_not_present by (auto simp: stack_mapped_def translate_page_def region_indices)
  then obtain f3 f2 f1 where sp: "stack_path t l4 phys f3 f2 f1" using assms(1) by (auto simp: region_ready_def)
  then have "links_to t l4 102 f3" by (simp add: stack_path_def)
  then show thesis
    using that [OF sp] assms(3) stack_path_translate [OF sp _ assms(2)] by (auto simp: stack_mapped_def split: if_splits)
qed

lemma stack_mapped_shared:
  assumes "stack_path t l4 phys f3 f2 f1" and "links_to t top4 102 f3" and "p < 136"
  shows "stack_mapped t top4 p \<longleftrightarrow> fl_present (pte_flags (t f1 (304 + p))) \<and> fl_writable (pte_flags (t f1 (304 + p)))"
  using stack_path_translate [OF assms] by (auto simp: stack_mapped_def)

lemma private_ok_step:
  assumes "private_ok l4 t d phys pl4" and "stack_path t' l4 phys' f3 f2 f1" and "\<forall>a. free_frame phys' a \<longrightarrow> free_frame phys a"
    and changes: "\<forall>g i. t' g i \<noteq> t g i \<longrightarrow> free_frame phys g \<or> g \<in> {l4, f3, f2, f1}"
    and same: "\<forall>g3 g2 g1. stack_path t l4 phys g3 g2 g1 \<longrightarrow> g3 = f3 \<and> g2 = f2 \<and> g1 = f1"
  shows "private_ok l4 t' d phys' pl4"
proof -
  let ?w = "\<lambda>t. walk_entries t pl4 (indices PRIVATE_REGION_ADDR)"
  obtain frame flags where tr: "translate_page t pl4 PRIVATE_REGION_ADDR = Some (frame, flags, [])" "d frame = PRIVATE_VALUE"
    using assms(1) by (auto simp: private_ok_def)
  from assms(1) same have l: "links_to t pl4 102 f3" and w: "\<forall>g \<in> fst ` set (?w t). g \<notin> {l4, f3, f2, f1} \<and> \<not> free_frame phys g"
    unfolding private_ok_def by blast+
  have eq: "t' g i = t g i" if "g \<in> fst ` set (?w t)" for g i using changes w that by blast
  then have cong: "\<forall>(g, i) \<in> set (?w t). t' g i = t g i" by force
  have "links_to t' pl4 102 f3" using l eq [OF first_walk_entry] by (simp add: links_to_def)
  moreover have "?w t' = ?w t" by (rule walk_entries_cong [OF cong])
  moreover have "translate_page t' pl4 PRIVATE_REGION_ADDR = Some (frame, flags, [])"
    using tr(1) walk_cong [OF cong] by (simp add: translate_page_def)
  ultimately show ?thesis using assms(2,3) w tr(2) unfolding private_ok_def by metis
qed

lemma space_inv_map:
  assumes mapper: "table_mapper map_to" and inv: "space_inv l4 pl4 P t d phys" and p: "p < 136"
    and flags: "fl_present flags" "fl_writable flags"
    and m: "map_page_with (map_to l4) adapter_allocate_frame (page_at REGION_BASE p) flags t phys = (t', phys', Ok frame)"
  shows "space_inv l4 pl4 (insert p P) t' d phys'"
proof -
  have ready: "phys_ready phys" and region: "region_ready t l4 phys" using inv by (simp_all add: space_inv_def)
  obtain f3 f2 f1 where sp: "stack_path t' l4 phys' f3 f2 f1"
    and tr: "translate_page t' l4 (page_at REGION_BASE p) = Some (frame, flags, [])"
    and ready': "phys_ready phys'" and mono: "\<forall>a. free_frame phys' a \<longrightarrow> free_frame phys a"
    and ch: "\<forall>g i. t' g i \<noteq> t g i \<longrightarrow> free_frame phys g \<or> g \<in> {l4, f3, f2, f1} \<and> (g = l4 \<longrightarrow> i = 102) \<and> entry_kept (t g i) (t' g i)"
    and same: "\<forall>g3 g2 g1. stack_path t l4 phys g3 g2 g1 \<longrightarrow> g3 = f3 \<and> g2 = f2 \<and> g1 = f1"
    by (rule map_stack_page [OF mapper ready region p flags(1) m])
  have l4: "\<not> free_frame phys l4" using region by (simp add: region_ready_def)
  have "stack_mapped t' l4 q" if q: "q \<in> P" for q
  proof -
    have q136: "q < 136" and sm: "stack_mapped t l4 q" using inv q by (simp_all add: space_inv_def)
    obtain g3 g2 g1 where g: "stack_path t l4 phys g3 g2 g1" "fl_present (pte_flags (t g1 (304 + q)))" "fl_writable (pte_flags (t g1 (304 + q)))"
      by (rule stack_mapped_path [OF region q136 sm])
    have "g1 = f1" using same g(1) by blast
    moreover have "\<not> free_frame phys g1" using g(1) by (simp add: stack_path_def)
    ultimately have "t' f1 (304 + q) = t f1 (304 + q) \<or> entry_kept (t f1 (304 + q)) (t' f1 (304 + q))" using ch by blast
    then have "fl_present (pte_flags (t' f1 (304 + q)))" "fl_writable (pte_flags (t' f1 (304 + q)))"
      using g(2,3) \<open>g1 = f1\<close> by (auto simp: entry_kept_def)
    then show ?thesis using stack_mapped_shared [OF sp _ q136, of l4] sp by (simp add: stack_path_def)
  qed
  moreover have "stack_mapped t' l4 p" using tr flags(2) by (auto simp: stack_mapped_def)
  moreover have "t' l4 34 = t l4 34" using ch [rule_format, of l4 34] l4 by auto
  moreover have "region_ready t' l4 phys'" using sp by (rule stack_path_region)
  moreover have "private_ok l4 t' d phys' f" if "f \<in> set_option pl4" for f
    using inv that ch by (intro private_ok_step [OF _ sp mono _ same]) (simp add: space_inv_def, blast)
  ultimately show ?thesis using inv ready' p by (auto simp: space_inv_def)
qed

section \<open>The operations of the kernel on the memory\<close>

definition view_inv :: "u64 \<Rightarrow> u64 option \<Rightarrow> nat set \<Rightarrow> memory paging_globals \<Rightarrow> bool" where
  "view_inv l4 pl4 P g \<longleftrightarrow> (\<exists>t d phys. MAPPER g = Some (t, d) \<and> PHYS g = Some phys \<and> space_inv l4 pl4 P t d phys)"

lemma view_inv_mono: "view_inv l4 pl4 P g \<Longrightarrow> Q \<subseteq> P \<Longrightarrow> view_inv l4 pl4 Q g"
  unfolding view_inv_def space_inv_def by blast

lemma view_map_page:
  "map_page_with (view_map_to map_to l4) alloc v flags (t, d) phys =
     (case map_page_with (map_to l4) alloc v flags t phys of (t', phys', r) \<Rightarrow> ((t', d), phys', r))"
  by (simp add: map_page_with_def view_map_to_def Let_def split: prod.splits option.splits sum.splits)

lemma view_map_pages:
  assumes "table_mapper map_to" and "fl_present flags" and "fl_writable flags"
    and "map_pages (view_map_to map_to l4) flags (map (page_at REGION_BASE) ps) g = Some g'"
    and "view_inv l4 pl4 P g" and "\<forall>p \<in> set ps. p < 136"
  shows "view_inv l4 pl4 (set ps \<union> P) g'"
  using assms(4-)
proof (induction ps arbitrary: g P)
  case (Cons p ps)
  obtain t d phys where g: "MAPPER g = Some (t, d)" "PHYS g = Some phys" "space_inv l4 pl4 P t d phys"
    using Cons.prems(2) by (auto simp: view_inv_def)
  obtain t' phys' r where m: "map_page_with (map_to l4) adapter_allocate_frame (page_at REGION_BASE p) flags t phys = (t', phys', r)"
    by (metis prod_cases3)
  let ?g = "g\<lparr>MAPPER := Some (t', d), PHYS := Some phys'\<rparr>"
  obtain frame where r: "r = Ok frame" and rest: "map_pages (view_map_to map_to l4) flags (map (page_at REGION_BASE) ps) ?g = Some g'"
    using Cons.prems(1) g m by (auto simp: with_mapper_and_phys_def paging_map_page_def view_map_page split: sum.splits)
  have "space_inv l4 pl4 (insert p P) t' d phys'"
    using Cons.prems(3) by (intro space_inv_map [OF assms(1) g(3) _ assms(2,3) m [unfolded r]]) simp
  then have "view_inv l4 pl4 (insert p P) ?g" by (simp add: view_inv_def)
  from Cons.IH [OF rest this] Cons.prems(3) show ?case by simp
qed simp

text \<open>The pages of the slots that are flagged as mapped.\<close>

definition flag_pages :: "bool list \<Rightarrow> nat set" where
  "flag_pages mapped = {p. p < 136 \<and> mapped ! (p div 17) \<and> p mod 17 \<noteq> 0}"

lemma view_ensure_slot:
  assumes "table_mapper map_to" and "ensure_slot_mapped (view_map_to map_to l4) cpu i g mapped = Some (g', mapped', t)"
    and "view_inv l4 pl4 (flag_pages mapped) g" and "length mapped = 8"
  shows "view_inv l4 pl4 (flag_pages mapped') g'" and "length mapped' = 8"
proof -
  have i: "i < 8" and m': "mapped' = mapped[i := True]" using ensure_slot_mapped_flags [OF assms(2)] assms(4) by simp_all
  then show "length mapped' = 8" using assms(4) by simp
  show "view_inv l4 pl4 (flag_pages mapped') g'"
  proof (cases "mapped ! i")
    case True
    then have "g' = g" "mapped' = mapped" using assms(2,4) i by (auto simp: ensure_slot_mapped_def Let_def)
    then show ?thesis using assms(3) by simp
  next
    case False
    let ?ps = "map (\<lambda>k. 17 * i + 1 + k) [0..<16]"
    have "slot_pages i = map (page_at REGION_BASE) ?ps" by (simp add: slot_pages_def)
    then have run: "map_pages (view_map_to map_to l4) (data_flags cpu) (map (page_at REGION_BASE) ?ps) g = Some g'"
      using assms(2,4) False i by (auto simp: ensure_slot_mapped_def slot_pages_eq Let_def split: option.splits)
    have "\<forall>p \<in> set ?ps. p < 136" using i by auto
    from view_map_pages [OF assms(1) data_flags_fields(1,2) run assms(3) this]
    have "view_inv l4 pl4 (set ?ps \<union> flag_pages mapped) g'" .
    moreover have "flag_pages mapped' \<subseteq> set ?ps \<union> flag_pages mapped"
    proof
      fix p assume "p \<in> flag_pages mapped'"
      then have p: "p < 136" "mapped' ! (p div 17)" "p mod 17 \<noteq> 0" by (simp_all add: flag_pages_def)
      have "p div 17 < 8" using p(1) by linarith
      then have "p div 17 = i \<or> p \<in> flag_pages mapped" 
        using p by (cases "p div 17 = i") (auto simp: m' flag_pages_def)
      then show "p \<in> set ?ps \<union> flag_pages mapped" using p(3) slot_page_index [of p i] by (auto simp: image_iff)
    qed
    ultimately show ?thesis by (rule view_inv_mono)
  qed
qed

text \<open>\<open>AddressSpace::new\<close> once a stack is mapped: the new space shares the stacks and has the private page to itself.\<close>

lemma view_new_space_ok:
  assumes "table_mapper map_to" and "view_new_space map_to cpu l4 g = (g', Some pl4)"
    and "view_inv l4 None P g" and "p0 \<in> P"
  shows "view_inv l4 (Some pl4) P g'"
proof -
  obtain t d phys where g: "MAPPER g = Some (t, d)" "PHYS g = Some phys" "space_inv l4 None P t d phys"
    using assms(3) by (auto simp: view_inv_def)
  then have ready: "phys_ready phys" and region: "region_ready t l4 phys" and absent: "is_unused (t l4 34)"
    and P: "\<forall>p \<in> P. p < 136 \<and> stack_mapped t l4 p" by (simp_all add: space_inv_def)
  let ?s = "space_of l4 g (t, d)"
  obtain s' space where n: "new_address_space map_to cpu ?s = (s', Some space)" and pl4: "pl4 = l4_frame space"
    and g': "g' = (sp_globals s')\<lparr>MAPPER := Some (sp_tables s', sp_data s')\<rparr>"
    using assms(2) g(1) by (auto simp: view_new_space_def split: prod.splits)
  have ph: "PHYS (sp_globals ?s) = Some phys" using g(2) by (simp add: space_of_def)
  obtain phys1 phys2 phys3 top4 frame t' where
    a1: "adapter_allocate_frame phys = (phys1, Some top4)" and a2: "adapter_allocate_frame phys1 = (phys2, Some frame)"
    and m: "map_to top4 adapter_allocate_frame PRIVATE_REGION_ADDR frame (data_flags cpu)
       (clone_entries (sp_cr3 ?s) top4 ((sp_tables ?s)(top4 := \<lambda>i. unused_entry))) phys2 = (t', phys3, Ok ())"
    and s': "s' = ?s\<lparr>sp_globals := (sp_globals ?s)\<lparr>PHYS := Some phys3\<rparr>, sp_tables := t', sp_data := (sp_data ?s)(frame := PRIVATE_VALUE)\<rparr>"
    and l4: "l4_frame space = top4"
    by (rule new_address_space_steps [of map_to cpu ?s s' space phys, OF n ph ready])
  obtain f3 f2 f1 where sp: "stack_path t l4 phys f3 f2 f1"
    using stack_mapped_path [OF region] P assms(4) by metis
  let ?F = "{l4, f3, f2, f1}"
  have F: "\<forall>f \<in> ?F. \<not> free_frame phys f" and l4F: "l4 \<in> ?F" using sp by (simp_all add: stack_path_def)
  have m1: "map_to top4 adapter_allocate_frame PRIVATE_REGION_ADDR frame (data_flags cpu)
       (clone_entries l4 top4 (t(top4 := \<lambda>i. unused_entry))) phys2 = (t', phys3, Ok ())"
    using m by (simp add: space_of_def)
  note e = private_mapping_effect [of map_to phys ?F l4 phys1 top4 phys2 frame PRIVATE_REGION_ADDR "data_flags cpu" t t' phys3,
      OF assms(1) ready F l4F a1 a2 m1 absent [folded private_p4] data_flags_fields(1)]
  have same: "t' f i = t f i" if "f \<in> ?F" for f i using e(4) that by auto
  have sp': "stack_path t' l4 phys3 f3 f2 f1"
    using sp e(8) same unfolding stack_path_def links_to_def by (metis insertCI)
  have "t' top4 102 = t l4 102" using e(5) region_p4 [of 0] by (metis private_p4 numeral_eq_iff num.distinct num.inject zero_less_numeral)
  then have link: "links_to t' top4 102 f3" using sp by (simp add: stack_path_def links_to_def)
  have "private_ok l4 t' (d(frame := PRIVATE_VALUE)) phys3 top4"
    unfolding private_ok_def using sp' link e(6,9) F by fastforce
  moreover have "p < 136 \<and> stack_mapped t' l4 p" if "p \<in> P" for p
  proof -
    have p: "p < 136" "stack_mapped t l4 p" using P that by simp_all
    moreover have "links_to t l4 102 f3" "links_to t' l4 102 f3" using sp sp' by (simp_all add: stack_path_def)
    ultimately show ?thesis using stack_mapped_shared [OF sp, of l4 p] stack_mapped_shared [OF sp', of l4 p] same [of f1] by simp
  qed
  moreover have "t' l4 34 = t l4 34" using same [of l4] by simp
  ultimately have "space_inv l4 (Some top4) P t' (d(frame := PRIVATE_VALUE)) phys3"
    using e(7) absent stack_path_region [OF sp'] by (simp add: space_inv_def)
  then show ?thesis using l4 pl4 by (simp add: view_inv_def g' s' space_of_def)
qed

lemma spawn_memory:
  assumes "table_mapper map_to" and "spawn_task_impl (view_map_to map_to l4) cpu trampoline entry space k = Some (k', r)"
    and "view_inv l4 pl4 (flag_pages (MAPPED k)) (globals k)" and "length (MAPPED k) = 8"
  shows "view_inv l4 pl4 (flag_pages (MAPPED k')) (globals k') \<and> length (MAPPED k') = 8"
  using assms(2)
proof (cases rule: spawn_cases)
  case full
  then show ?thesis using assms(3,4) by simp
next
  case (ok i g mapped memory sp)
  then show ?thesis using view_ensure_slot [OF assms(1) ok(4) assms(3,4)] by simp
qed

lemma init_memory:
  assumes "table_mapper map_to" and "view_inv l4 None {} g"
    and "init_tasks (view_map_to map_to l4) cpu (view_new_space map_to cpu l4) trampoline a b c e (boot_kernel g l4 m) = Some (k, r)"
    and "slot_index_for_pid 3 k \<noteq> None"
  obtains pl4 where "view_inv l4 (Some pl4) (flag_pages (MAPPED k)) (globals k)"
    "pool_view k = demo_slots (Some 2, None) (Some 3, Some pl4)"
proof -
  let ?k = "(boot_kernel g l4 m)\<lparr>SCHEDULER := Some new_queue, DEFAULT_L4_FRAME := Some l4\<rparr>" and ?map = "view_map_to map_to l4"
  obtain k1 k2 k3 g' space where
    s: "spawn_task_impl ?map cpu trampoline a None ?k = Some (k1, Some 0)" "spawn_task_impl ?map cpu trampoline b None k1 = Some (k2, Some 1)"
      "spawn_task_impl ?map cpu trampoline c None k2 = Some (k3, Some 2)"
    and n: "view_new_space map_to cpu l4 (globals k3) = (g', space)"
    and rest: "case space of None \<Rightarrow> k = k3\<lparr>globals := g'\<rparr>
     | Some f \<Rightarrow> spawn_task_impl ?map cpu trampoline e (Some f) (k3\<lparr>globals := g'\<rparr>) = Some (k, Some 3)"
    and v3: "pool_view k3 = demo_slots (Some 2, None) (None, None)" and m3: "MAPPED k3 = replicate 3 True @ replicate 5 False"
    and n3: "NEXT_PID k3 = 3"
    by (rule init_stages [OF assms(3)])
  have "flag_pages (MAPPED ?k) = {}" "length (MAPPED ?k) = 8" "globals ?k = g"
    by (auto simp: boot_kernel_def flag_pages_def MAX_SLOTS_def)
  then have i0: "view_inv l4 None (flag_pages (MAPPED ?k)) (globals ?k)" "length (MAPPED ?k) = 8" using assms(2) by simp_all
  note i1 = spawn_memory [OF assms(1) s(1) i0]
  note i2 = spawn_memory [OF assms(1) s(2) conjunct1 [OF i1] conjunct2 [OF i1]]
  note i3 = spawn_memory [OF assms(1) s(3) conjunct1 [OF i2] conjunct2 [OF i2]]
  have "space \<noteq> None"
  proof
    assume "space = None"
    then have "pool_view k = demo_slots (Some 2, None) (None, None)" using rest v3 by simp
    then have "\<not> live k 3" using live_demo_slots [of k _ _ 3] by simp
    then show False using assms(4) by (simp add: live_slot)
  qed
  then obtain f where f: "space = Some f" by blast
  then have s4: "spawn_task_impl ?map cpu trampoline e (Some f) (k3\<lparr>globals := g'\<rparr>) = Some (k, Some 3)" using rest by simp
  have "35 \<in> flag_pages (MAPPED k3)" by (simp add: m3 flag_pages_def nth_append)
  then have "view_inv l4 (Some f) (flag_pages (MAPPED k3)) g'"
    by (rule view_new_space_ok [OF assms(1) n [unfolded f] conjunct1 [OF i3]])
  then have "view_inv l4 (Some f) (flag_pages (MAPPED k)) (globals k)"
    using spawn_memory [OF assms(1) s4] conjunct2 [OF i3] by simp
  moreover have f3: "position (\<lambda>e. fst e = None) (pool_view (k3\<lparr>globals := g'\<rparr>)) = Some 3" using v3 demo_slots_position(2) by simp
  have "pool_view k = demo_slots (Some 2, None) (Some 3, Some f)" using spawn_view(2) [OF s4 f3] v3 n3 by simp
  ultimately show thesis by (rule that)
qed

text \<open>The table that is loaded: the private one for the task bound to it, the default otherwise.\<close>

lemma loaded_table:
  assumes "demo_kernel (Some pl4) k0 d k" and "DEFAULT_L4_FRAME k0 = Some l4"
  shows "cr3 k = (if CURRENT k = 3 then pl4 else l4)"
proof -
  note kd = assms(1) [unfolded demo_kernel_def]
  let ?c = "(if d then Some (first_free_pid (Some pl4)) else if TASK_C_EXITED k then None else Some 2, None)"
  have v: "pool_view k = demo_slots ?c (Some 3, Some pl4)" using kd by (simp add: e_slot_def)
  have free: "replicate 4 (None :: u64 option, None :: u64 option) = [(None, None), (None, None), (None, None), (None, None)]"
    by (simp add: numeral_eq_Suc)
  have "fst ?c \<noteq> Some 3" by simp
  then have f: "Option.bind (find (\<lambda>e. fst e = Some p) (demo_slots ?c (Some 3, Some pl4))) snd = (if p = 3 then Some pl4 else None)" for p
    by (auto simp: demo_slots_def free)
  have "desired_l4_frame (CURRENT k) k = Some (cr3 k)" using kd by (simp add: pool_inv_def)
  moreover have "(3::u64) \<noteq> BOOT_PID" by (simp add: BOOT_PID_def u64_max_def)
  moreover have "DEFAULT_L4_FRAME k = Some l4" using kd assms(2) by simp
  ultimately show ?thesis unfolding desired_l4_frame_def Let_def find_space_map v f by (simp split: if_splits)
qed

text \<open>What the memory invariant gives for either table.\<close>

lemma view_inv_reads:
  assumes "view_inv l4 (Some pl4) P g"
  obtains t d where "MAPPER g = Some (t, d)" "\<forall>p \<in> P. stack_mapped t l4 p \<and> stack_mapped t pl4 p"
    "view_load l4 g PRIVATE_REGION_ADDR = None" "view_load pl4 g PRIVATE_REGION_ADDR = Some PRIVATE_VALUE"
proof -
  obtain t d phys where g: "MAPPER g = Some (t, d)" "space_inv l4 (Some pl4) P t d phys" using assms by (auto simp: view_inv_def)
  have region: "region_ready t l4 phys" and P: "\<forall>p \<in> P. p < 136 \<and> stack_mapped t l4 p" and absent: "is_unused (t l4 34)"
    and pr: "private_ok l4 t d phys pl4" using g(2) by (simp_all add: space_inv_def)
  obtain f3 f2 f1 where sp: "stack_path t l4 phys f3 f2 f1" and link: "links_to t pl4 102 f3" using pr by (auto simp: private_ok_def)
  have l: "links_to t l4 102 f3" using sp by (simp add: stack_path_def)
  obtain frame flags where tr: "translate_page t pl4 PRIVATE_REGION_ADDR = Some (frame, flags, [])" "d frame = PRIVATE_VALUE"
    using pr by (auto simp: private_ok_def)
  have off: "PRIVATE_REGION_ADDR AND 0xFFF = 0" by (simp add: PRIVATE_REGION_ADDR_def)
  have no: "translate_page t l4 PRIVATE_REGION_ADDR = None"
    using absent [folded private_p4] unused_not_present by (simp add: translate_page_def indices_def p4_index_def)
  show thesis
  proof (rule that [OF g(1)])
    show "\<forall>p \<in> P. stack_mapped t l4 p \<and> stack_mapped t pl4 p"
      using P stack_mapped_shared [OF sp l] stack_mapped_shared [OF sp link] by blast
    show "view_load l4 g PRIVATE_REGION_ADDR = None" using no by (simp add: view_load_def g(1) read_active_def space_of_def)
    show "view_load pl4 g PRIVATE_REGION_ADDR = Some PRIVATE_VALUE"
      using tr off by (simp add: view_load_def g(1) read_active_def space_of_def)
  qed
qed

text \<open>The memory while the demonstration runs.\<close>

lemma demo_inv_reads:
  assumes "demo_inv (Some pl4) k s" and "DEFAULT_L4_FRAME k = Some l4" and "view_inv l4 (Some pl4) (flag_pages (MAPPED k)) (globals k)"
  shows "\<exists>t' d'. MAPPER (globals (kern s)) = Some (t', d')
    \<and> (\<forall>i v. slot_index_for_pid (CURRENT (kern s)) (kern s) = Some i \<and> v \<in> set (slot_pages i) \<longrightarrow>
         (\<exists>frame flags. translate_page t' (cr3 (kern s)) v = Some (frame, flags, []) \<and> fl_writable flags))
    \<and> view_load (cr3 (kern s)) (globals (kern s)) PRIVATE_REGION_ADDR =
        (if CURRENT (kern s) = 3 then Some PRIVATE_VALUE else None)"
proof -
  have dk: "demo_kernel (Some pl4) k (TASK_D_SPAWNED s) (kern s)" using assms(1) by (simp add: demo_inv_def)
  have cr: "cr3 (kern s) = (if CURRENT (kern s) = 3 then pl4 else l4)" by (rule loaded_table [OF dk assms(2)])
  have same: "globals (kern s) = globals k" "MAPPED (kern s) = MAPPED k" and base: "pool_base (kern s)"
    using dk by (simp_all add: demo_kernel_def pool_inv_def)
  obtain t' d' where v: "MAPPER (globals k) = Some (t', d')" "\<forall>p \<in> flag_pages (MAPPED k). stack_mapped t' l4 p \<and> stack_mapped t' pl4 p"
    "view_load l4 (globals k) PRIVATE_REGION_ADDR = None" "view_load pl4 (globals k) PRIVATE_REGION_ADDR = Some PRIVATE_VALUE"
    by (rule view_inv_reads [OF assms(3)])
  have "\<exists>frame flags. translate_page t' (cr3 (kern s)) w = Some (frame, flags, []) \<and> fl_writable flags"
    if j: "slot_index_for_pid (CURRENT (kern s)) (kern s) = Some j" and w: "w \<in> set (slot_pages j)" for j w
  proof -
    have j8: "j < MAX_TASKS" "ts_pid (TASK_SLOTS (kern s) ! j) = Some (CURRENT (kern s))"
      using position_Some [OF j [unfolded slot_index_for_pid_def]] pool_baseD(1) [OF base] by simp_all
    obtain q where q: "q < 16" "w = page_at REGION_BASE (17 * j + 1 + q)" using w by (auto simp: slot_pages_def)
    have p: "17 * j + 1 + q < 136" using j8(1) q(1) by (simp add: MAX_TASKS_def MAX_SLOTS_def)
    have "(17 * j + 1 + q) div 17 = j \<and> (17 * j + 1 + q) mod 17 \<noteq> 0" using slot_page_index [of "17 * j + 1 + q" j] q(1) by blast
    moreover have "MAPPED k ! j" using pool_baseD(5) [OF base j8] same(2) by simp
    ultimately have "17 * j + 1 + q \<in> flag_pages (MAPPED k)" using p by (simp add: flag_pages_def)
    then have "stack_mapped t' (cr3 (kern s)) (17 * j + 1 + q)" using v(2) cr by simp
    then show ?thesis using q(2) by (simp add: stack_mapped_def)
  qed
  then show ?thesis using v(1,3,4) cr same(1) by auto
qed

lemma demo_init_memory:
  assumes "table_mapper map_to" and "MAPPER g = Some (t, d)" and "PHYS g = Some phys" and "phys_ready phys"
    and "\<not> free_frame phys l4" and "is_unused (t l4 (p4_index REGION_BASE))" and "is_unused (t l4 (p4_index PRIVATE_REGION_ADDR))"
    and "demo_init (view_map_to map_to l4) cpu (view_new_space map_to cpu l4) trampoline a b c e (boot_kernel g l4 m) = Some s0"
    and "slot_index_for_pid 3 (kern s0) \<noteq> None"
  obtains pl4 where "demo_inv (Some pl4) (kern s0) s0" "DEFAULT_L4_FRAME (kern s0) = Some l4"
    "view_inv l4 (Some pl4) (flag_pages (MAPPED (kern s0))) (globals (kern s0))"
proof -
  obtain k r where i: "init_tasks (view_map_to map_to l4) cpu (view_new_space map_to cpu l4) trampoline a b c e (boot_kernel g l4 m) = Some (k, r)"
    and k: "kern s0 = k" using assms(8) by (auto simp: demo_init_def)
  have "page_at REGION_BASE 0 = REGION_BASE" by (simp add: page_at_def)
  then have "p4_index REGION_BASE = 102" using region_p4 [of 0] by simp
  then have "view_inv l4 None {} g"
    using assms(2-7) by (simp add: view_inv_def space_inv_def region_ready_def private_p4)
  then obtain pl4 where vk: "view_inv l4 (Some pl4) (flag_pages (MAPPED k)) (globals k)"
    and pv: "pool_view k = demo_slots (Some 2, None) (Some 3, Some pl4)"
    by (rule init_memory [OF assms(1) _ i assms(9) [unfolded k]])
  obtain space where inv0: "demo_inv space (kern s0) s0" by (rule demo_inv_init [OF assms(8)])
  have "e_slot space = (Some 3, Some pl4)"
    using inv0 arg_cong [OF pv, of "\<lambda>l. l ! 3"] unfolding demo_inv_def demo_kernel_def k by simp
  then have space: "space = Some pl4" by (simp add: e_slot_def split: if_splits)
  have dflt: "DEFAULT_L4_FRAME k = Some l4" by (rule init_view [OF i])
  show thesis using that inv0 vk dflt unfolding space k by blast
qed

section \<open>Property\<close>

text \<open>
  C35: Every task runs in its own address space with its stack mapped. When the physical allocator is sound and owns neither the top-level
  table nor a table under it for the two regions, and \<open>init\<close> has spawned its four tasks, then at every point of every interleaving
  of ticks and task steps: all stack pages of the current task translate, writable, under the top-level table in \<open>CR3\<close>;
  the task with the private address space reads the private value through \<open>CR3\<close> whenever it is
  current, so its check never faults; and the private page is absent under \<open>CR3\<close> whenever any other task or the boot flow is current.
\<close>
theorem current_task_address_space:
  assumes "table_mapper map_to" and "MAPPER g = Some (t, d)" and "PHYS g = Some phys" and "phys_ready phys"
    and "\<not> free_frame phys l4" and "is_unused (t l4 (p4_index REGION_BASE))" and "is_unused (t l4 (p4_index PRIVATE_REGION_ADDR))"
    and "demo_init (view_map_to map_to l4) cpu (view_new_space map_to cpu l4) trampoline a b c e (boot_kernel g l4 m) = Some s0"
    and "slot_index_for_pid 3 (kern s0) \<noteq> None"
    and "demo_steps (view_map_to map_to l4) cpu view_load trampoline task_d s0 s"
  shows "\<exists>t' d'. MAPPER (globals (kern s)) = Some (t', d')
    \<and> (\<forall>i v. slot_index_for_pid (CURRENT (kern s)) (kern s) = Some i \<and> v \<in> set (slot_pages i) \<longrightarrow>
         (\<exists>frame flags. translate_page t' (cr3 (kern s)) v = Some (frame, flags, []) \<and> fl_writable flags))
    \<and> view_load (cr3 (kern s)) (globals (kern s)) PRIVATE_REGION_ADDR =
        (if CURRENT (kern s) = 3 then Some PRIVATE_VALUE else None)"
proof -
  obtain pl4 where i: "demo_inv (Some pl4) (kern s0) s0" and d: "DEFAULT_L4_FRAME (kern s0) = Some l4"
    and v: "view_inv l4 (Some pl4) (flag_pages (MAPPED (kern s0))) (globals (kern s0))"
    by (rule demo_init_memory [OF assms(1-9)])
  show ?thesis by (rule demo_inv_reads [OF demo_inv_steps [OF assms(10) i] d v])
qed

section \<open>Init with enough frames\<close>

text \<open>
  With enough frames the four spawns succeed: one frame for a stack page and three for the first tables
  of the region, one for the new top-level table, one for the private page and three for its tables. \<open>U\<close> are pages of the region that
  are not mapped yet.
\<close>

definition stacks_open :: "u64 \<Rightarrow> nat set \<Rightarrow> nat \<Rightarrow> nat set \<Rightarrow> memory paging_globals \<Rightarrow> bool" where
  "stacks_open l4 S n U g \<longleftrightarrow>
     (\<exists>t d phys f3 f2 f1. MAPPER g = Some (t, d) \<and> PHYS g = Some phys \<and> PHYS_MEM_OFFSET g \<noteq> None \<and> phys_ready phys
        \<and> frames_available n phys \<and> stack_path t l4 phys f3 f2 f1 \<and> (\<forall>p \<in> U. is_unused (t f1 (304 + p))) \<and> 102 \<notin> S \<and> (\<forall>i \<in> S. is_unused (t l4 i)))"

lemma page_of_region: "p < 136 \<Longrightarrow> containing_address (page_at REGION_BASE p) = page_at REGION_BASE p"
  by (intro containing_address_aligned) (simp add: unat_region_page)

abbreviation pages_of_slot :: "nat \<Rightarrow> nat list" where
  "pages_of_slot i \<equiv> map (\<lambda>k. 17 * i + 1 + k) [0..<16]"

lemma ensure_slot_pages:
  assumes "map_pages map_to (data_flags cpu) (map (page_at REGION_BASE) (pages_of_slot i)) g = Some g'"
    and "\<not> mapped ! i" and "i < length mapped"
  shows "\<exists>t. ensure_slot_mapped map_to cpu i g mapped = Some (g', mapped[i := True], t)"
proof -
  have "map (page_at REGION_BASE) (pages_of_slot i) = slot_pages i" by (simp add: slot_pages_def)
  then show ?thesis using assms by (simp add: ensure_slot_mapped_def slot_pages_eq Let_def)
qed

lemma stacks_open_mono: "stacks_open l4 S n U g \<Longrightarrow> V \<subseteq> U \<Longrightarrow> stacks_open l4 S n V g"
  unfolding stacks_open_def by (meson subsetD)

lemma spawn_succeeds:
  assumes "position (\<lambda>e. fst e = None) (pool_view k) = Some i"
    and "ensure_slot_mapped map_to cpu i (globals k) (MAPPED k) = Some (g', mapped', t)"
  obtains k' where "spawn_task_impl map_to cpu trampoline entry space k = Some (k', Some (NEXT_PID k))" "globals k' = g'"
proof -
  have "\<exists>k' r. spawn_task_impl map_to cpu trampoline entry space k = Some (k', r)"
    using assms by (auto simp: spawn_task_impl_def free_position Let_def split: prod.splits)
  then obtain k' r where s: "spawn_task_impl map_to cpu trampoline entry space k = Some (k', r)" by blast
  note v = spawn_view [OF s assms(1)]
  have "globals k' = g'" using v(10) assms(2) by simp
  then show thesis using that s v(1) by simp
qed

context page_mapper
begin

lemma stacks_open_map:
  assumes "stacks_open l4 S (Suc n) U g" and "p \<in> U" and "p < 136" and "fl_present flags"
  obtains g' frame where "with_mapper_and_phys (paging_map_page (view_map_to map_to l4) (page_at REGION_BASE p) flags) g = (g', Some (Ok frame))"
    "stacks_open l4 S n (U - {p}) g'"
proof -
  let ?page = "page_at REGION_BASE p"
  obtain t d phys f3 f2 f1 where g: "MAPPER g = Some (t, d)" "PHYS g = Some phys" "PHYS_MEM_OFFSET g \<noteq> None" and ready: "phys_ready phys"
    and fr: "frames_available (Suc n) phys" and sp: "stack_path t l4 phys f3 f2 f1"
    and U: "\<forall>p \<in> U. is_unused (t f1 (304 + p))" and absent: "102 \<notin> S" "\<forall>i \<in> S. is_unused (t l4 i)"
    using assms(1) unfolding stacks_open_def by blast
  note w = stack_path_walk [OF sp assms(3)]
  have opened: "walk_open t l4 (indices ?page)" using sp U assms(2) by (simp add: region_indices [OF assms(3)] stack_path_def links_to_def)
  have used: "walk_used t l4 (indices ?page) phys" unfolding walk_used_def w using sp by (simp add: stack_path_def)
  have miss: "missing_tables t l4 (indices ?page) = 0" unfolding w by (simp add: indices_def)
  have fr0: "frames_available (Suc (missing_tables t l4 (indices ?page) + n)) phys" using fr by (simp only: miss add_0)
  obtain t' phys' frame where
    m: "map_page_with (map_to l4) adapter_allocate_frame ?page flags t phys = (t', phys', Ok frame)"
    and ch: "\<forall>g i. t' g i \<noteq> t g i \<longrightarrow> free_frame phys g \<or> (g, i) \<in> set (walk_entries t l4 (indices ?page)) \<and> entry_kept (t g i) (t' g i)"
    and fr': "frames_available n phys'"
    by (rule page_mapped [OF ready page_of_region [OF assms(3)] opened used fr0 assms(4)])
  obtain g3 g2 g1 where sp': "stack_path t' l4 phys' g3 g2 g1" and ready': "phys_ready phys'"
    and same: "\<forall>h3 h2 h1. stack_path t l4 phys h3 h2 h1 \<longrightarrow> h3 = g3 \<and> h2 = g2 \<and> h1 = g1"
    by (rule map_stack_page [OF table_mapper_axioms ready stack_path_region [OF sp] assms(3,4) m])
  have eq: "g3 = f3" "g2 = f2" "g1 = f1" using same sp by blast+
  have nf: "\<not> free_frame phys l4" "\<not> free_frame phys f1" "l4 \<noteq> f1" "f3 \<noteq> f1" "f2 \<noteq> f1" "l4 \<noteq> f3" "l4 \<noteq> f2" using sp by (auto simp: stack_path_def)
  have "t' f1 (304 + q) = t f1 (304 + q)" if "q \<noteq> p" for q
    using ch [rule_format, of f1 "304 + q"] nf that unfolding w by auto
  then have "\<forall>q \<in> U - {p}. is_unused (t' f1 (304 + q))" using U by simp
  moreover have "t' l4 i = t l4 i" if "i \<in> S" for i using ch [rule_format, of l4 i] nf absent(1) that unfolding w by auto
  then have "\<forall>i \<in> S. is_unused (t' l4 i)" using absent(2) by simp
  ultimately have "stacks_open l4 S n (U - {p}) (g\<lparr>MAPPER := Some (t', d), PHYS := Some phys'\<rparr>)"
    unfolding stacks_open_def using ready' fr' g(3) absent sp' unfolding eq by simp blast
  moreover have "with_mapper_and_phys (paging_map_page (view_map_to map_to l4) ?page flags) g = (g\<lparr>MAPPER := Some (t', d), PHYS := Some phys'\<rparr>, Some (Ok frame))"
    using g m by (simp add: with_mapper_and_phys_def paging_map_page_def view_map_page)
  ultimately show thesis using that by blast
qed

lemma stacks_open_map_pages:
  assumes "stacks_open l4 S (length ps + n) U g" and "set ps \<subseteq> U" and "distinct ps" and "\<forall>p \<in> set ps. p < 136" and "fl_present flags"
  shows "\<exists>g'. map_pages (view_map_to map_to l4) flags (map (page_at REGION_BASE) ps) g = Some g' \<and> stacks_open l4 S n (U - set ps) g'"
  using assms
proof (induction ps arbitrary: g U)
  case (Cons p ps)
  have "stacks_open l4 S (Suc (length ps + n)) U g" "p \<in> U" "p < 136" "fl_present flags" using Cons.prems by simp_all
  then obtain g' frame where
    m: "with_mapper_and_phys (paging_map_page (view_map_to map_to l4) (page_at REGION_BASE p) flags) g = (g', Some (Ok frame))"
    and o: "stacks_open l4 S (length ps + n) (U - {p}) g'" by (rule stacks_open_map)
  have "set ps \<subseteq> U - {p}" using Cons.prems(2,3) by auto
  then obtain g'' where "map_pages (view_map_to map_to l4) flags (map (page_at REGION_BASE) ps) g' = Some g''"
    "stacks_open l4 S n (U - {p} - set ps) g''"
    using Cons.IH [OF o] Cons.prems(3-5) by auto
  moreover have "U - set (p # ps) = U - {p} - set ps" by auto
  ultimately show ?case using m by simp
qed simp

text \<open>The first page of the region draws its three tables.\<close>

lemma stacks_open_first:
  assumes "MAPPER g = Some (t, d)" and "PHYS g = Some phys" and "PHYS_MEM_OFFSET g \<noteq> None" and "phys_ready phys"
    and "frames_available (Suc (3 + n)) phys" and "\<not> free_frame phys l4" and "is_unused (t l4 102)" and "p < 136"
    and "fl_present flags" and "102 \<notin> S" and "\<forall>i \<in> S. is_unused (t l4 i)"
  obtains g' frame where "with_mapper_and_phys (paging_map_page (view_map_to map_to l4) (page_at REGION_BASE p) flags) g = (g', Some (Ok frame))"
    "stacks_open l4 S n (- {p}) g'"
proof -
  let ?page = "page_at REGION_BASE p"
  note top = unused_top_open [of t l4 ?page, unfolded region_p4 [OF assms(8)], OF assms(7)]
  have used: "walk_used t l4 (indices ?page) phys" unfolding walk_used_def top(2) using assms(6) by simp
  have miss: "missing_tables t l4 (indices ?page) = 3" unfolding top(2) by (simp add: indices_def)
  have fr: "frames_available (Suc (missing_tables t l4 (indices ?page) + n)) phys" using assms(5) by (simp only: miss)
  obtain t' phys' frame where
    m: "map_page_with (map_to l4) adapter_allocate_frame ?page flags t phys = (t', phys', Ok frame)"
    and path: "\<exists>ds. map fst (walk_entries t' l4 (indices ?page)) = map fst (walk_entries t l4 (indices ?page)) @ ds \<and> (\<forall>g \<in> set ds. free_frame phys g)"
    and fr': "frames_available n phys'"
    and clear: "\<forall>(g, i) \<in> set (walk_entries t' l4 (indices ?page)). \<forall>j. free_frame phys g \<longrightarrow> j \<noteq> i \<longrightarrow> is_unused (t' g j)"
    by (rule page_mapped [OF assms(4) page_of_region [OF assms(8)] top(1) used fr assms(9)])
  have region: "region_ready t l4 phys" using assms(6,7) by (simp add: region_ready_def)
  obtain f3 f2 f1 where sp: "stack_path t' l4 phys' f3 f2 f1" and ready': "phys_ready phys'"
    and ch: "\<forall>g i. t' g i \<noteq> t g i \<longrightarrow> free_frame phys g \<or> g \<in> {l4, f3, f2, f1} \<and> (g = l4 \<longrightarrow> i = 102) \<and> entry_kept (t g i) (t' g i)"
    by (rule map_stack_page [OF table_mapper_axioms assms(4) region assms(8,9) m])
  note w' = stack_path_walk [OF sp assms(8)]
  have "free_frame phys f1" using path unfolding top(2) w' by auto
  then have "\<forall>q \<in> - {p}. is_unused (t' f1 (304 + q))" using clear unfolding w' by simp
  moreover have "t' l4 i = t l4 i" if "i \<in> S" for i using ch [rule_format, of l4 i] assms(6,10) that by auto
  then have "\<forall>i \<in> S. is_unused (t' l4 i)" using assms(11) by simp
  ultimately have "stacks_open l4 S n (- {p}) (g\<lparr>MAPPER := Some (t', d), PHYS := Some phys'\<rparr>)"
    unfolding stacks_open_def using ready' fr' assms(3,10) sp by simp blast
  moreover have "with_mapper_and_phys (paging_map_page (view_map_to map_to l4) ?page flags) g = (g\<lparr>MAPPER := Some (t', d), PHYS := Some phys'\<rparr>, Some (Ok frame))"
    using assms(1,2) m by (simp add: with_mapper_and_phys_def paging_map_page_def view_map_page)
  ultimately show thesis using that by blast
qed

text \<open>Slots are taken in order, so the pages above the last slot in use are open.\<close>

lemma stacks_open_ensure:
  assumes "stacks_open l4 S (16 + n) {p. 17 * i < p} g" and "\<not> mapped ! i" and "i < length mapped" and "i < 8"
  obtains g' t where "ensure_slot_mapped (view_map_to map_to l4) cpu i g mapped = Some (g', mapped[i := True], t)"
    "stacks_open l4 S n {p. 17 * Suc i < p} g'"
proof -
  have "stacks_open l4 S (length (pages_of_slot i) + n) {p. 17 * i < p} g" "set (pages_of_slot i) \<subseteq> {p. 17 * i < p}"
    "distinct (pages_of_slot i)" "\<forall>p \<in> set (pages_of_slot i). p < 136"
    using assms(1,4) by (auto simp: distinct_map inj_on_def)
  from stacks_open_map_pages [OF this data_flags_fields(1)] obtain g' where
    m: "map_pages (view_map_to map_to l4) (data_flags cpu) (map (page_at REGION_BASE) (pages_of_slot i)) g = Some g'"
    and o: "stacks_open l4 S n ({p. 17 * i < p} - set (pages_of_slot i)) g'" by blast
  have "stacks_open l4 S n {p. 17 * Suc i < p} g'" by (rule stacks_open_mono [OF o]) auto
  with ensure_slot_pages [OF m assms(2,3)] that show thesis by blast
qed

lemma stacks_open_ensure_first:
  assumes "MAPPER g = Some (t, d)" and "PHYS g = Some phys" and "PHYS_MEM_OFFSET g \<noteq> None" and "phys_ready phys"
    and "frames_available (19 + n) phys" and "\<not> free_frame phys l4" and "is_unused (t l4 102)"
    and "\<not> mapped ! 0" and "mapped \<noteq> []" and "102 \<notin> S" and "\<forall>i \<in> S. is_unused (t l4 i)"
  obtains g' t' where "ensure_slot_mapped (view_map_to map_to l4) cpu 0 g mapped = Some (g', mapped[0 := True], t')"
    "stacks_open l4 S n {p. 17 * Suc 0 < p} g'"
proof -
  define ps :: "nat list" where "ps = map (\<lambda>k. 2 + k) [0..<15]"
  have ps: "pages_of_slot 0 = 1 # ps" unfolding ps_def by code_simp
  have ps': "length ps = 15" "set ps \<subseteq> - {1}" "distinct ps" "\<forall>p \<in> set ps. p < 17" by (auto simp: ps_def distinct_map inj_on_def)
  have fr: "frames_available (Suc (3 + (15 + n))) phys" using assms(5) by (simp del: frames_available.simps)
  obtain g1 frame where
    m1: "with_mapper_and_phys (paging_map_page (view_map_to map_to l4) (page_at REGION_BASE 1) (data_flags cpu)) g = (g1, Some (Ok frame))"
    and o1: "stacks_open l4 S (15 + n) (- {1}) g1"
    by (rule stacks_open_first [OF assms(1-4) fr assms(6,7), of 1 "data_flags cpu" S]) (use assms(10,11) in \<open>auto simp: data_flags_fields\<close>)
  have "stacks_open l4 S (length ps + n) (- {1}) g1" "\<forall>p \<in> set ps. p < 136" using o1 ps'(1,4) by auto
  from stacks_open_map_pages [OF this(1) ps'(2,3) this(2) data_flags_fields(1)] obtain g' where
    m: "map_pages (view_map_to map_to l4) (data_flags cpu) (map (page_at REGION_BASE) ps) g1 = Some g'"
    and o: "stacks_open l4 S n (- {1} - set ps) g'" by blast
  have "map_pages (view_map_to map_to l4) (data_flags cpu) (map (page_at REGION_BASE) (pages_of_slot 0)) g = Some g'"
    using m m1 unfolding ps by simp
  from ensure_slot_pages [OF this assms(8)] assms(9) obtain t' where
    e: "ensure_slot_mapped (view_map_to map_to l4) cpu 0 g mapped = Some (g', mapped[0 := True], t')" by auto
  have "stacks_open l4 S n {p. 17 * Suc 0 < p} g'" by (rule stacks_open_mono [OF o]) (use ps'(4) in auto)
  then show thesis by (rule that [OF e])
qed

text \<open>A new space leaves the stacks as open as they were.\<close>

lemma stacks_open_new_space:
  assumes "stacks_open l4 S (5 + n) U g" and "34 \<in> S"
  obtains g' pl4 where "view_new_space map_to cpu l4 g = (g', Some pl4)" "stacks_open l4 S n U g'"
proof -
  obtain t d phys f3 f2 f1 where g: "MAPPER g = Some (t, d)" "PHYS g = Some phys" "PHYS_MEM_OFFSET g \<noteq> None" and ready: "phys_ready phys"
    and fr: "frames_available (Suc (Suc (3 + n))) phys" and sp: "stack_path t l4 phys f3 f2 f1"
    and U: "\<forall>p \<in> U. is_unused (t f1 (304 + p))" and absent: "102 \<notin> S" "\<forall>i \<in> S. is_unused (t l4 i)"
    using assms(1) unfolding stacks_open_def by (simp del: frames_available.simps add: eval_nat_numeral) blast
  have unpriv: "is_unused (t l4 34)" using absent(2) assms(2) by blast
  obtain s' space phys' where n: "new_address_space map_to cpu (space_of l4 g (t, d)) = (s', Some space)"
    and p': "PHYS (sp_globals s') = Some phys'" "frames_available n phys'"
    by (rule new_space_built [of "space_of l4 g (t, d)" phys n cpu])
      (use g ready fr sp unpriv in \<open>simp_all add: space_of_def stack_path_def phys_mem_offset_def private_p4 del: frames_available.simps\<close>)
  let ?g' = "(sp_globals s')\<lparr>MAPPER := Some (sp_tables s', sp_data s')\<rparr>"
  let ?F = "{l4, f3, f2, f1}"
  have F: "\<forall>f \<in> ?F. \<not> free_frame phys f" using sp by (simp add: stack_path_def)
  obtain phys3 frame where e: "sp_globals s' = g\<lparr>PHYS := Some phys3\<rparr>" "phys_ready phys3" "\<forall>a. free_frame phys3 a \<longrightarrow> free_frame phys a"
    "\<forall>f \<in> ?F. sp_tables s' f = t f"
    by (rule new_space_keeps [OF table_mapper_axioms n, of phys ?F]) (use g ready F unpriv in \<open>simp_all add: space_of_def private_p4\<close>)
  have [simp]: "phys3 = phys'" using e(1) p'(1) by simp
  have same: "sp_tables s' l4 = t l4" "sp_tables s' f3 = t f3" "sp_tables s' f2 = t f2" "sp_tables s' f1 = t f1" using e(4) by simp_all
  have "stack_path (sp_tables s') l4 phys' f3 f2 f1" using sp e(3) by (auto simp: stack_path_def links_to_def same)
  moreover have "\<forall>p \<in> U. is_unused (sp_tables s' f1 (304 + p))" using U by (simp add: same)
  ultimately have "stacks_open l4 S n U ?g'" unfolding stacks_open_def using e(1,2) p' absent g(3) same(1) by simp blast
  moreover have "view_new_space map_to cpu l4 g = (?g', Some (l4_frame space))" using g(1) n by (simp add: view_new_space_def)
  ultimately show thesis using that by blast
qed

lemma spawn_open:
  assumes "position (\<lambda>e. fst e = None) (pool_view k) = Some i" and "stacks_open l4 S (16 + n) {p. 17 * i < p} (globals k)"
    and "\<not> MAPPED k ! i" and "length (MAPPED k) = 8" and "i < 8"
  obtains k' where "spawn_task_impl (view_map_to map_to l4) cpu trampoline entry space k = Some (k', Some (NEXT_PID k))"
    "stacks_open l4 S n {p. 17 * Suc i < p} (globals k')"
proof -
  have i: "i < length (MAPPED k)" using assms(4,5) by simp
  obtain g' t where e: "ensure_slot_mapped (view_map_to map_to l4) cpu i (globals k) (MAPPED k) = Some (g', (MAPPED k)[i := True], t)"
    and o: "stacks_open l4 S n {p. 17 * Suc i < p} g'"
    by (rule stacks_open_ensure [OF assms(2,3) i assms(5)])
  obtain k' where "spawn_task_impl (view_map_to map_to l4) cpu trampoline entry space k = Some (k', Some (NEXT_PID k))" "globals k' = g'"
    by (rule spawn_succeeds [OF assms(1) e])
  with o that show thesis by blast
qed

text \<open>Seventy-two frames are enough for \<open>init\<close>; the other frames and the entries \<open>S\<close> are left.\<close>

lemma init_succeeds:
  assumes "MAPPER g = Some (t, d)" and "PHYS g = Some phys" and "PHYS_MEM_OFFSET g \<noteq> None" and "phys_ready phys"
    and "frames_available (72 + n) phys" and "\<not> free_frame phys l4" and "is_unused (t l4 102)" and "34 \<in> S" and "102 \<notin> S" and "\<forall>i \<in> S. is_unused (t l4 i)"
  obtains k where "init_tasks (view_map_to map_to l4) cpu (view_new_space map_to cpu l4) trampoline a b c e (boot_kernel g l4 m) = Some (k, Some 2)"
    "slot_index_for_pid 3 k \<noteq> None" "stacks_open l4 S n {} (globals k)"
proof -
  let ?k = "(boot_kernel g l4 m)\<lparr>SCHEDULER := Some new_queue, DEFAULT_L4_FRAME := Some l4\<rparr>" and ?map = "view_map_to map_to l4"
  have k: "globals ?k = g" "MAPPED ?k = replicate 8 False" "pool_view ?k = replicate 8 (None, None)" "NEXT_PID ?k = 0" "cr3 (boot_kernel g l4 m) = l4"
    by (simp_all add: boot_kernel_def MAX_SLOTS_def MAX_TASKS_def EMPTY_def)
  have f0: "position (\<lambda>e. fst e = None) (pool_view ?k) = Some 0" unfolding k(3) by (simp add: numeral_eq_Suc)
  have fr: "frames_available (19 + (53 + n)) phys" using assms(5) by (simp del: frames_available.simps)
  have m0: "\<not> MAPPED ?k ! 0" "MAPPED ?k \<noteq> []" by (simp_all add: k(2))
  obtain g1 t1 where e1: "ensure_slot_mapped ?map cpu 0 g (MAPPED ?k) = Some (g1, (MAPPED ?k)[0 := True], t1)"
    and o1: "stacks_open l4 S (53 + n) {p. 17 * Suc 0 < p} g1"
    by (rule stacks_open_ensure_first [OF assms(1-4) fr assms(6,7) m0 assms(9,10)])
  obtain k1 where s1: "spawn_task_impl ?map cpu trampoline a None ?k = Some (k1, Some (NEXT_PID ?k))" and g1: "globals k1 = g1"
    by (rule spawn_succeeds [OF f0, of ?map cpu g1 "(MAPPED ?k)[0 := True]" t1]) (use e1 in \<open>simp only: k(1)\<close>)
  note w1 = spawn_view(2-4) [OF s1 f0]
  have v1: "pool_view k1 = (Some 0, None) # replicate 7 (None, None)" using w1(1) k by (simp add: numeral_eq_Suc)
  have f1: "position (\<lambda>e. fst e = None) (pool_view k1) = Some 1" unfolding v1 by (simp add: numeral_eq_Suc)
  have m1: "MAPPED k1 = True # replicate 7 False" using w1(3) k by (simp add: numeral_eq_Suc)
  obtain k2 where s2: "spawn_task_impl ?map cpu trampoline b None k1 = Some (k2, Some (NEXT_PID k1))"
    and o2: "stacks_open l4 S (37 + n) {p. 17 * Suc 1 < p} (globals k2)"
    by (rule spawn_open [OF f1, of l4 S "37 + n"]) (use o1 g1 m1 in \<open>simp_all add: add.assoc [symmetric]\<close>)
  note w2 = spawn_view(2-4) [OF s2 f1]
  have v2: "pool_view k2 = (Some 0, None) # (Some 1, None) # replicate 6 (None, None)" using w2(1) v1 w1(2) k by (simp add: numeral_eq_Suc)
  have f2: "position (\<lambda>e. fst e = None) (pool_view k2) = Some 2" unfolding v2 by (simp add: numeral_eq_Suc)
  have m2: "MAPPED k2 = True # True # replicate 6 False" using w2(3) m1 by (simp add: numeral_eq_Suc)
  obtain k3 where s3: "spawn_task_impl ?map cpu trampoline c None k2 = Some (k3, Some (NEXT_PID k2))"
    and o3: "stacks_open l4 S (21 + n) {p. 17 * Suc 2 < p} (globals k3)"
    by (rule spawn_open [OF f2, of l4 S "21 + n"]) (use o2 m2 in \<open>simp_all add: add.assoc [symmetric]\<close>)
  note w3 = spawn_view(2-4) [OF s3 f2]
  have n: "NEXT_PID k1 = 1" "NEXT_PID k2 = 2" "NEXT_PID k3 = 3" using w1(2) w2(2) w3(2) k(4) by simp_all
  have v3: "pool_view k3 = demo_slots (Some 2, None) (None, None)" using w3(1) v2 n by (simp add: demo_slots_def numeral_eq_Suc)
  have m3: "MAPPED k3 = True # True # True # replicate 5 False" using w3(3) m2 by (simp add: numeral_eq_Suc)
  have o3': "stacks_open l4 S (5 + (16 + n)) {p. 17 * Suc 2 < p} (globals k3)" using o3 by (simp add: add.assoc [symmetric])
  obtain g4 pl4 where sp: "view_new_space map_to cpu l4 (globals k3) = (g4, Some pl4)" and o4: "stacks_open l4 S (16 + n) {p. 17 * Suc 2 < p} g4"
    by (rule stacks_open_new_space [OF o3' assms(8)])
  let ?k3 = "k3\<lparr>globals := g4\<rparr>"
  have f3: "position (\<lambda>e. fst e = None) (pool_view ?k3) = Some 3" using v3 demo_slots_position(2) by simp
  obtain k4 where s4: "spawn_task_impl ?map cpu trampoline e (Some pl4) ?k3 = Some (k4, Some (NEXT_PID ?k3))"
    and o5: "stacks_open l4 S n {p. 17 * Suc 3 < p} (globals k4)"
    by (rule spawn_open [OF f3, of l4 S n]) (use o4 m3 in simp_all)
  have "init_tasks ?map cpu (view_new_space map_to cpu l4) trampoline a b c e (boot_kernel g l4 m) = Some (k4, Some 2)"
    using s1 s2 s3 sp s4 k(5) n by (simp add: init_tasks_def spawn_task_def spawn_task_with_address_space_def Let_def)
  moreover have "pool_view k4 = demo_slots (Some 2, None) (Some 3, Some pl4)" using spawn_view(2) [OF s4 f3] v3 n(3) by simp
  then have "live k4 3" using live_demo_slots [of k4 _ _ 3] by simp
  then have "slot_index_for_pid 3 k4 \<noteq> None" by (simp add: live_slot)
  ultimately show thesis by (rule that) (rule stacks_open_mono [OF o5], simp)
qed

end

definition sample_memory :: "memory paging_globals" where
  "sample_memory = \<lparr>MAPPER = Some (\<lambda>f i. unused_entry, \<lambda>a. 0), PHYS = Some (new_allocator 0x100000 128),
     PHYS_MEM_OFFSET = Some 0x18000000000, PAGE_FAULTS_DEMAND_PAGED = 0\<rparr>"

lemma sample_memory_fields:
  "MAPPER sample_memory = Some (\<lambda>f i. unused_entry, \<lambda>a. 0)" "PHYS sample_memory = Some (new_allocator 0x100000 128)"
  "PHYS_MEM_OFFSET sample_memory \<noteq> None"
  by (simp_all add: sample_memory_def)

lemma sample_memory_phys:
  "phys_ready (new_allocator 0x100000 128)" "frames_available 72 (new_allocator 0x100000 128)" "\<not> free_frame (new_allocator 0x100000 128) 0x1000"
proof -
  show "phys_ready (new_allocator 0x100000 128)" unfolding phys_ready_def by (simp add: new_allocator_inv)
  show "frames_available 72 (new_allocator 0x100000 128)" by code_simp
  show "\<not> free_frame (new_allocator 0x100000 128) 0x1000" by (simp add: free_frame_def)
qed

lemma sample_memory_empty: "is_unused ((\<lambda>(f :: u64) (i :: nat). unused_entry) l i)"
  by (simp add: is_unused_def)

lemma sample_memory_init:
  obtains s0 where "demo_init (view_map_to table_map_to 0x1000) sample_cpu (view_new_space table_map_to sample_cpu 0x1000) 0x400 0x500 0x600 0x700 0x800
      (boot_kernel sample_memory 0x1000 (sample_machine 0x9000)) = Some s0" "slot_index_for_pid 3 (kern s0) \<noteq> None"
proof -
  obtain k where "init_tasks (view_map_to table_map_to 0x1000) sample_cpu (view_new_space table_map_to sample_cpu 0x1000) 0x400 0x500 0x600 0x700 0x800
      (boot_kernel sample_memory 0x1000 (sample_machine 0x9000)) = Some (k, Some 2)" "slot_index_for_pid 3 k \<noteq> None"
    by (rule four_level_pages.init_succeeds [OF sample_memory_fields sample_memory_phys(1), where n = 0 and S = "{34}"])
      (use sample_memory_phys(2,3) sample_memory_empty in \<open>simp_all del: frames_available.simps\<close>)
  then show thesis using that by (simp add: demo_init_def)
qed

theorem current_task_address_space_witness:
  "\<exists>s0. demo_init (view_map_to table_map_to 0x1000) sample_cpu (view_new_space table_map_to sample_cpu 0x1000) 0x400 0x500 0x600 0x700 0x800
      (boot_kernel sample_memory 0x1000 (sample_machine 0x9000)) = Some s0
    \<and> view_load (cr3 (kern s0)) (globals (kern s0)) PRIVATE_REGION_ADDR = (if CURRENT (kern s0) = 3 then Some PRIVATE_VALUE else None)"
proof -
  obtain s0 where s0: "demo_init (view_map_to table_map_to 0x1000) sample_cpu (view_new_space table_map_to sample_cpu 0x1000) 0x400 0x500 0x600 0x700 0x800
      (boot_kernel sample_memory 0x1000 (sample_machine 0x9000)) = Some s0" and e: "slot_index_for_pid 3 (kern s0) \<noteq> None"
    by (rule sample_memory_init)
  from current_task_address_space [OF four_level.table_mapper_axioms sample_memory_fields(1,2) sample_memory_phys(1,3) sample_memory_empty sample_memory_empty s0 e demo_steps.demo_start]
  show ?thesis using s0 by blast
qed

end
