(* ===== verification/Ipc.thy ===== *)
theory Ipc
  imports Capability Ring_Buffer
begin

text \<open>
  Ports (\<open>ipc.rs\<close>): a table of message queues, where creating a port issues its owner a capability
  over it, and sending and receiving consult the broker. The resource path of port \<open>n\<close> is
  the text \<open>port:n\<close>, with \<open>n\<close> in decimal as \<open>format!\<close> prints it.
\<close>

section \<open>The code\<close>

fun show_decimal :: "nat \<Rightarrow> string" where
  "show_decimal n =
     (if n < 10 then [char_of (48 + n)] else show_decimal (n div 10) @ [char_of (48 + n mod 10)])"

declare show_decimal.simps [simp del]

record port =
  prt_port_id :: u64
  prt_owner_pid :: u64
  prt_queue :: ring_buffer

record port_table =
  pt_ports :: "(u64, port) btree_map"
  pt_next_port_id :: u64

definition new_port_table :: port_table where
  "new_port_table = \<lparr>pt_ports = bt_empty, pt_next_port_id = 1\<rparr>"

definition port_resource_path :: "u64 \<Rightarrow> string" where
  "port_resource_path port_id = ''port:'' @ show_decimal (unat port_id)"

definition create_port ::
    "u64 \<Rightarrow> usize \<Rightarrow> timestamp \<Rightarrow> port_table \<Rightarrow> capability_broker \<Rightarrow> port_table \<times> capability_broker \<times> u64" where
  "create_port owner_pid capacity now t caps =
     (let port_id = pt_next_port_id t;
          t1 = t\<lparr>pt_next_port_id := pt_next_port_id t + 1\<rparr>;
          t2 = t1\<lparr>pt_ports := bt_insert port_id
                 \<lparr>prt_port_id = port_id, prt_owner_pid = owner_pid, prt_queue = new_ring capacity\<rparr> (pt_ports t1)\<rparr>;
          caps1 = fst (issue 0 owner_pid Ipc (port_resource_path port_id)
                 (NONE\<lparr>perm_read := True, perm_write := True, perm_delegate := True\<rparr>) now u64_max caps)
      in (t2, caps1, port_id))"

definition delete_port :: "u64 \<Rightarrow> port_table \<Rightarrow> port_table \<times> (ipc_error, unit) result" where
  "delete_port port_id t =
     (t\<lparr>pt_ports := bt_remove port_id (pt_ports t)\<rparr>,
      ok_or PortNotFound (map_option (\<lambda>p. ()) (bt_get (pt_ports t) port_id)))"

text \<open>The queue lives inside the table and is updated in place (\<open>&self\<close> with interior mutability).\<close>

definition set_queue :: "u64 \<Rightarrow> port \<Rightarrow> ring_buffer \<Rightarrow> port_table \<Rightarrow> port_table" where
  "set_queue port_id p q t = t\<lparr>pt_ports := bt_insert port_id (p\<lparr>prt_queue := q\<rparr>) (pt_ports t)\<rparr>"

definition send_message ::
    "u64 \<Rightarrow> u64 \<Rightarrow> u8 list \<Rightarrow> timestamp \<Rightarrow> port_table \<Rightarrow> capability_broker
     \<Rightarrow> port_table \<times> capability_broker \<times> (ipc_error, unit) result" where
  "send_message sender dest_port payload now t caps =
     (case check_access sender Ipc (port_resource_path dest_port) (NONE\<lparr>perm_write := True\<rparr>) now caps of
        (caps1, decision) \<Rightarrow>
          if decision \<noteq> Allowed then (t, caps1, Err CapabilityDenied)
          else (case bt_get (pt_ports t) dest_port of
             None \<Rightarrow> (t, caps1, Err PortNotFound)
           | Some p \<Rightarrow>
               (case enqueue \<lparr>msg_sender = sender, msg_payload = payload\<rparr> (prt_queue p) of
                  (q, r) \<Rightarrow> (set_queue dest_port p q t, caps1, r))))"

definition receive_message ::
    "u64 \<Rightarrow> u64 \<Rightarrow> timestamp \<Rightarrow> port_table \<Rightarrow> capability_broker
     \<Rightarrow> port_table \<times> capability_broker \<times> (ipc_error, message) result" where
  "receive_message receiver port_id now t caps =
     (case check_access receiver Ipc (port_resource_path port_id) (NONE\<lparr>perm_read := True\<rparr>) now caps of
        (caps1, decision) \<Rightarrow>
          if decision \<noteq> Allowed then (t, caps1, Err CapabilityDenied)
          else (case bt_get (pt_ports t) port_id of
             None \<Rightarrow> (t, caps1, Err PortNotFound)
           | Some p \<Rightarrow>
               (case dequeue (prt_queue p) of
                  (q, r) \<Rightarrow> (set_queue port_id p q t, caps1, r))))"

section \<open>Resource paths name ports one to one\<close>

lemma show_decimal_digits: "set (show_decimal n) \<subseteq> char_of ` {48..57::nat}"
proof (induction n rule: show_decimal.induct)
  case (1 n)
  have "n mod 10 < 10" by simp
  then have "48 + n mod 10 \<in> {48..57}" by auto
  then show ?case
    using 1 by (subst show_decimal.simps) auto
qed

lemma show_decimal_nonempty [simp]: "show_decimal n \<noteq> []"
  by (subst show_decimal.simps) simp

lemma char_of_digit_inject: "i < 10 \<Longrightarrow> j < 10 \<Longrightarrow> char_of (48 + i) = char_of (48 + (j::nat)) \<longleftrightarrow> i = j"
  by (simp add: char_of_eq_iff take_bit_nat_eq_self)

lemma show_decimal_small: "n < 10 \<Longrightarrow> show_decimal n = [char_of (48 + n)]"
  by (subst show_decimal.simps) simp

lemma show_decimal_big: "\<not> n < 10 \<Longrightarrow> show_decimal n = show_decimal (n div 10) @ [char_of (48 + n mod 10)]"
  by (subst show_decimal.simps) simp

lemma show_decimal_length:
  "n < 10 \<Longrightarrow> length (show_decimal n) = 1"
  "\<not> n < 10 \<Longrightarrow> length (show_decimal n) = Suc (length (show_decimal (n div 10)))"
  by (subst show_decimal_small; simp) (subst show_decimal_big; simp)

lemma show_decimal_inject: "show_decimal m = show_decimal n \<longleftrightarrow> m = n"
proof
  show "show_decimal m = show_decimal n \<Longrightarrow> m = n"
  proof (induction m arbitrary: n rule: show_decimal.induct)
    case (1 m)
    show ?case
    proof (cases "m < 10"; cases "n < 10")
      assume s: "m < 10" "n < 10"
      then have "char_of (48 + m) = char_of (48 + n)" using "1.prems" by (simp only: show_decimal_small list.inject)
      then show ?thesis using s char_of_digit_inject [of m n] by blast
    next
      assume s: "\<not> m < 10" "\<not> n < 10"
      have "show_decimal (m div 10) @ [char_of (48 + m mod 10)] = show_decimal (n div 10) @ [char_of (48 + n mod 10)]"
        using "1.prems" unfolding show_decimal_big [OF s(1)] show_decimal_big [OF s(2)] .
      then have e: "show_decimal (m div 10) = show_decimal (n div 10)" "char_of (48 + m mod 10) = char_of (48 + n mod 10)"
        unfolding append1_eq_conv by blast+
      have "m div 10 = n div 10" by (rule "1.IH" [OF s(1) e(1)])
      moreover have "m mod 10 = n mod 10" using e(2) char_of_digit_inject [of "m mod 10" "n mod 10"] by simp
      ultimately have "m div 10 = n div 10" "m mod 10 = n mod 10" by blast+
      then show ?thesis by (metis div_mult_mod_eq)
    next
      assume s: "m < 10" "\<not> n < 10"
      show ?thesis using "1.prems" show_decimal_length(1) [OF s(1)] show_decimal_length(2) [OF s(2)] by simp
    next
      assume s: "\<not> m < 10" "n < 10"
      show ?thesis using "1.prems" show_decimal_length(1) [OF s(2)] show_decimal_length(2) [OF s(1)] by simp
    qed
  qed
qed simp

lemma port_path_inject: "port_resource_path m = port_resource_path n \<longleftrightarrow> m = n"
  by (simp add: port_resource_path_def show_decimal_inject word_unat_eq_iff)

lemma port_path_no_wildcard: "last (port_resource_path n) \<noteq> CHR ''*''"
proof -
  have "last (show_decimal (unat n)) \<in> char_of ` {48..57::nat}"
    using show_decimal_digits [of "unat n"] last_in_set [of "show_decimal (unat n)"] by auto
  moreover have "CHR ''*'' \<notin> char_of ` {48..57::nat}"
  proof
    assume "CHR ''*'' \<in> char_of ` {48..57::nat}"
    then obtain x :: nat where x: "CHR ''*'' = char_of x" "48 \<le> x" "x \<le> 57" by auto
    have "(of_char (CHR ''*'') :: nat) = x mod 256" unfolding x(1) by (rule of_char_of)
    then show False using x(2,3) by simp
  qed
  ultimately have "last (show_decimal (unat n)) \<noteq> CHR ''*''" by metis
  then show ?thesis by (simp add: port_resource_path_def)
qed

lemma port_path_covers: "path_covers (port_resource_path m) path \<longleftrightarrow> path = port_resource_path m"
  using port_path_no_wildcard [of m] by (auto simp: path_covers_def)

section \<open>The table\<close>

definition port_holds :: "port_table \<Rightarrow> u64 \<Rightarrow> message list \<Rightarrow> bool" where
  "port_holds t p q \<longleftrightarrow> (\<exists>port. bt_get (pt_ports t) p = Some port \<and> ring_holds (prt_queue port) q)"

definition port_capacity :: "port_table \<Rightarrow> u64 \<Rightarrow> nat" where
  "port_capacity t p = (case bt_get (pt_ports t) p of None \<Rightarrow> 0 | Some port \<Rightarrow> unat (rb_capacity (prt_queue port)))"

definition port_sent :: "port_table \<Rightarrow> u64 \<Rightarrow> nat" where
  "port_sent t p = (case bt_get (pt_ports t) p of None \<Rightarrow> 0 | Some port \<Rightarrow> unat (rb_write_index (prt_queue port)))"

interpretation prt: id_registry pt_ports pt_next_port_id
  "\<lambda>(pid, cap, now, caps) t. case create_port pid cap now t caps of (t', caps', k) \<Rightarrow> (t', k)"
  "\<lambda>(pid, cap, now, caps) k. \<lparr>prt_port_id = k, prt_owner_pid = pid, prt_queue = new_ring cap\<rparr>"
  by unfold_locales (auto simp: create_port_def Let_def split: prod.split)

lemma set_queue_get [simp]:
  "bt_get (pt_ports (set_queue k p q t)) j = (if j = k then Some (p\<lparr>prt_queue := q\<rparr>) else bt_get (pt_ports t) j)"
  by (simp add: set_queue_def)

abbreviation may_send :: "capability_broker \<Rightarrow> u64 \<Rightarrow> u64 \<Rightarrow> timestamp \<Rightarrow> bool" where
  "may_send caps pid p now \<equiv> \<exists>t\<in>held caps. grants t pid Ipc (port_resource_path p) (NONE\<lparr>perm_write := True\<rparr>) now"

abbreviation may_receive :: "capability_broker \<Rightarrow> u64 \<Rightarrow> u64 \<Rightarrow> timestamp \<Rightarrow> bool" where
  "may_receive caps pid p now \<equiv> \<exists>t\<in>held caps. grants t pid Ipc (port_resource_path p) (NONE\<lparr>perm_read := True\<rparr>) now"

lemma held_issue:
  assumes "broker_ok b"
  shows "held (fst (issue i s r p q n e b)) =
    insert \<lparr>tok_id = next_token_id b, tok_issuer = i, tok_subject = s, tok_resource_type = r,
        tok_resource_path = p, tok_permissions = q, tok_issued_at = n, tok_expires_at = e, tok_revoked = False\<rparr> (held b)"
proof -
  have "bt_get (tokens b) (next_token_id b) = None" using assms by (simp add: broker_ok_def fresh_ids_unused)
  then show ?thesis by (simp add: held_def set_bt_values_insert_fresh)
qed

section \<open>Properties\<close>

text \<open>
  Creating a port gives its owner, and nobody else, exactly the authority over exactly that
  port: after \<open>create_port\<close> a request is allowed if and only if it was allowed before, or it is the
  owner's, for the new port, within read, write and delegate, before the end of time. Authority
  over other ports and other resources is untouched.
\<close>

lemma create_port_authority:
  assumes "broker_ok caps" and "create_port owner capacity now t caps = (t', caps', p)"
  shows "snd (check_access s rtype path needs now' caps') = Allowed \<longleftrightarrow>
     snd (check_access s rtype path needs now' caps) = Allowed
     \<or> (s = owner \<and> rtype = Ipc \<and> path = port_resource_path p \<and> now' < u64_max
        \<and> covers (NONE\<lparr>perm_read := True, perm_write := True, perm_delegate := True\<rparr>) needs)"
proof -
  let ?q = "NONE\<lparr>perm_read := True, perm_write := True, perm_delegate := True\<rparr>"
  have p: "p = pt_next_port_id t" and c: "caps' = fst (issue 0 owner Ipc (port_resource_path p) ?q now u64_max caps)"
    using assms(2) by (auto simp: create_port_def Let_def)
  show ?thesis
    unfolding c check_access_simps decide_Allowed_iff held_issue [OF assms(1)]
    by (auto simp: grants_def matches_def is_live_def port_path_covers)
qed

text \<open>
  Sending on every branch. Without write authority over the port the answer is \<open>CapabilityDenied\<close>;
  with it, \<open>PortNotFound\<close> for a port that does not exist, \<open>QueueFull\<close> for a
  full one, none of which changes a queue; otherwise the message, stamped with the sender that was
  checked, is appended to that port's queue and no other port changes.
\<close>

lemma send_message_outcome:
  assumes "send_message sender p payload now t caps = (t', caps', r)"
  shows "if \<not> may_send caps sender p now then r = Err CapabilityDenied \<and> t' = t
    else if bt_get (pt_ports t) p = None then r = Err PortNotFound \<and> t' = t
    else \<forall>q. port_holds t p q \<longrightarrow> port_sent t p + 1 < 2 ^ 64 \<longrightarrow>
      (\<forall>p' q'. p' \<noteq> p \<longrightarrow> port_holds t' p' q' = port_holds t p' q')
      \<and> (if length q = port_capacity t p then r = Err QueueFull \<and> port_holds t' p q
         else r = Ok () \<and> port_holds t' p (q @ [\<lparr>msg_sender = sender, msg_payload = payload\<rparr>]))"
proof (cases "may_send caps sender p now")
  case False
  then show ?thesis using assms by (auto simp: send_message_def decide_Allowed_iff case_prod_beta)
next
  case al: True
  show ?thesis
  proof (cases "bt_get (pt_ports t) p")
    case None
    then show ?thesis using assms al by (auto simp: send_message_def decide_Allowed_iff case_prod_beta)
  next
    case (Some port)
    let ?m = "\<lparr>msg_sender = sender, msg_payload = payload\<rparr>"
    have t': "t' = set_queue p port (fst (enqueue ?m (prt_queue port))) t" and r: "r = snd (enqueue ?m (prt_queue port))"
      using assms al Some by (auto simp: send_message_def decide_Allowed_iff case_prod_beta)
    have other: "port_holds t' p' q' = port_holds t p' q'" if "p' \<noteq> p" for p' q'
      using that t' by (simp add: port_holds_def)
    show ?thesis
    proof (simp only: al Some option.distinct simp_thms if_True if_False, intro allI impI)
      fix q assume q: "port_holds t p q" and lim: "port_sent t p + 1 < 2 ^ 64"
      have h: "ring_holds (prt_queue port) q" using q Some by (simp add: port_holds_def)
      have cap: "port_capacity t p = unat (rb_capacity (prt_queue port))" using Some by (simp add: port_capacity_def)
      have "length q \<le> port_capacity t p" using h cap by (simp add: ring_holds_def)
      then show "(\<forall>p' q'. p' \<noteq> p \<longrightarrow> port_holds t' p' q' = port_holds t p' q')
        \<and> (if length q = port_capacity t p then r = Err QueueFull \<and> port_holds t' p q
           else r = Ok () \<and> port_holds t' p (q @ [?m]))"
        using h enqueue_full [OF h, of ?m] enqueue_ok [OF h, of ?m] lim other Some
        by (auto simp: cap t' r port_holds_def port_sent_def)
    qed
  qed
qed

text \<open>A table with one port, owned by process 7, and the broker that goes with it.\<close>

definition demo_ipc :: "port_table \<times> capability_broker \<times> u64" where
  "demo_ipc = create_port 7 4 0 new_port_table new_broker"

lemma demo_ipc_facts:
  "port_holds (fst demo_ipc) 1 []" "port_sent (fst demo_ipc) 1 = 0" "port_capacity (fst demo_ipc) 1 = 4"
  "may_send (fst (snd demo_ipc)) 7 1 5" "may_receive (fst (snd demo_ipc)) 7 1 5"
  "\<not> may_send (fst (snd demo_ipc)) 8 1 5"
proof -
  have get: "bt_get (pt_ports (fst demo_ipc)) 1 = Some \<lparr>prt_port_id = 1, prt_owner_pid = 7, prt_queue = new_ring 4\<rparr>"
    by (simp add: demo_ipc_def create_port_def new_port_table_def Let_def)
  then show "port_holds (fst demo_ipc) 1 []" "port_sent (fst demo_ipc) 1 = 0" "port_capacity (fst demo_ipc) 1 = 4"
    using new_ring_holds [of 4] by (simp_all add: port_holds_def port_sent_def port_capacity_def) (simp_all add: new_ring_def)
  have "decide (fst (snd demo_ipc)) 7 Ipc (port_resource_path 1) (NONE\<lparr>perm_write := True\<rparr>) 5 = Allowed"
    "decide (fst (snd demo_ipc)) 7 Ipc (port_resource_path 1) (NONE\<lparr>perm_read := True\<rparr>) 5 = Allowed"
    "decide (fst (snd demo_ipc)) 8 Ipc (port_resource_path 1) (NONE\<lparr>perm_write := True\<rparr>) 5 \<noteq> Allowed"
    by code_simp+
  then show "may_send (fst (snd demo_ipc)) 7 1 5" "may_receive (fst (snd demo_ipc)) 7 1 5"
    "\<not> may_send (fst (snd demo_ipc)) 8 1 5"
    unfolding decide_Allowed_iff by blast+
qed

text \<open>
  Receiving on every branch. Without read authority the answer is \<open>CapabilityDenied\<close>; with
  it, \<open>PortNotFound\<close> for a port that does not exist and \<open>QueueEmpty\<close> for an empty one; otherwise
  the oldest message of that port is returned and removed, and no other port changes.
\<close>

lemma receive_message_outcome:
  assumes "receive_message receiver p now t caps = (t', caps', r)"
  shows "if \<not> may_receive caps receiver p now then r = Err CapabilityDenied \<and> t' = t
    else if bt_get (pt_ports t) p = None then r = Err PortNotFound \<and> t' = t
    else \<forall>q. port_holds t p q \<longrightarrow>
      (\<forall>p' q'. p' \<noteq> p \<longrightarrow> port_holds t' p' q' = port_holds t p' q')
      \<and> (case q of [] \<Rightarrow> r = Err QueueEmpty \<and> port_holds t' p []
         | m # q' \<Rightarrow> r = Ok m \<and> port_holds t' p q')"
proof (cases "may_receive caps receiver p now")
  case False
  then show ?thesis using assms by (auto simp: receive_message_def decide_Allowed_iff case_prod_beta)
next
  case al: True
  show ?thesis
  proof (cases "bt_get (pt_ports t) p")
    case None
    then show ?thesis using assms al by (auto simp: receive_message_def decide_Allowed_iff case_prod_beta)
  next
    case (Some port)
    have t': "t' = set_queue p port (fst (dequeue (prt_queue port))) t" and r: "r = snd (dequeue (prt_queue port))"
      using assms al Some by (auto simp: receive_message_def decide_Allowed_iff case_prod_beta)
    have other: "port_holds t' p' q' = port_holds t p' q'" if "p' \<noteq> p" for p' q'
      using that t' by (simp add: port_holds_def)
    show ?thesis
    proof (simp only: al Some option.distinct simp_thms if_True if_False, intro allI impI)
      fix q assume q: "port_holds t p q"
      have h: "ring_holds (prt_queue port) q" using q Some by (simp add: port_holds_def)
      show "(\<forall>p' q'. p' \<noteq> p \<longrightarrow> port_holds t' p' q' = port_holds t p' q')
        \<and> (case q of [] \<Rightarrow> r = Err QueueEmpty \<and> port_holds t' p [] | m # q' \<Rightarrow> r = Ok m \<and> port_holds t' p q')"
      proof (cases q)
        case Nil
        then show ?thesis using h dequeue_empty [of "prt_queue port"] other by (auto simp: t' r port_holds_def)
      next
        case (Cons m q')
        then show ?thesis
          using h dequeue_ok [of "prt_queue port" m q'] unat_u64_less other by (auto simp: t' r port_holds_def)
      qed
    qed
  qed
qed

text \<open>
  C14: Messages pass through ports only with authority. Sending without write authority over the port and receiving without read authority
  is \<open>CapabilityDenied\<close>; with authority, a port that does not exist is \<open>PortNotFound\<close>, a full one \<open>QueueFull\<close> and an empty one \<open>QueueEmpty\<close>, and none of these
  changes a queue. Otherwise a sent message, stamped with the sender that was checked, is appended to that port's queue,
  and a receive returns and removes the oldest message of that port; no other port changes.
\<close>

theorem message_exchange:
  assumes "send_message sender p payload now t caps = (t1, c1, r1)" and "receive_message receiver p now t caps = (t2, c2, r2)"
  shows "(if \<not> may_send caps sender p now then r1 = Err CapabilityDenied \<and> t1 = t
      else if bt_get (pt_ports t) p = None then r1 = Err PortNotFound \<and> t1 = t
      else \<forall>q. port_holds t p q \<longrightarrow> port_sent t p + 1 < 2 ^ 64 \<longrightarrow>
        (\<forall>p' q'. p' \<noteq> p \<longrightarrow> port_holds t1 p' q' = port_holds t p' q')
        \<and> (if length q = port_capacity t p then r1 = Err QueueFull \<and> port_holds t1 p q
           else r1 = Ok () \<and> port_holds t1 p (q @ [\<lparr>msg_sender = sender, msg_payload = payload\<rparr>])))
    \<and> (if \<not> may_receive caps receiver p now then r2 = Err CapabilityDenied \<and> t2 = t
      else if bt_get (pt_ports t) p = None then r2 = Err PortNotFound \<and> t2 = t
      else \<forall>q. port_holds t p q \<longrightarrow>
        (\<forall>p' q'. p' \<noteq> p \<longrightarrow> port_holds t2 p' q' = port_holds t p' q')
        \<and> (case q of [] \<Rightarrow> r2 = Err QueueEmpty \<and> port_holds t2 p []
           | m # q' \<Rightarrow> r2 = Ok m \<and> port_holds t2 p q'))"
  using send_message_outcome [OF assms(1)] receive_message_outcome [OF assms(2)] by (rule conjI)

theorem message_exchange_witness:
  "case send_message 7 1 [42] 5 (fst demo_ipc) (fst (snd demo_ipc)) of (t1, c1, r1) \<Rightarrow>
     r1 = Ok () \<and> port_holds t1 1 [\<lparr>msg_sender = 7, msg_payload = [42]\<rparr>]
     \<and> (case receive_message 7 1 5 (fst demo_ipc) (fst (snd demo_ipc)) of (t2, c2, r2) \<Rightarrow> r2 = Err QueueEmpty)"
proof -
  obtain t1 c1 r1 where s: "send_message 7 1 [42] 5 (fst demo_ipc) (fst (snd demo_ipc)) = (t1, c1, r1)" by (metis prod_cases3)
  obtain t2 c2 r2 where r: "receive_message 7 1 5 (fst demo_ipc) (fst (snd demo_ipc)) = (t2, c2, r2)" by (metis prod_cases3)
  have "bt_get (pt_ports (fst demo_ipc)) 1 \<noteq> None" using demo_ipc_facts(1) by (auto simp: port_holds_def)
  with message_exchange [OF s r] have "(\<forall>q. port_holds (fst demo_ipc) 1 q \<longrightarrow> port_sent (fst demo_ipc) 1 + 1 < 2 ^ 64 \<longrightarrow>
        (if length q = port_capacity (fst demo_ipc) 1 then r1 = Err QueueFull \<and> port_holds t1 1 q
         else r1 = Ok () \<and> port_holds t1 1 (q @ [\<lparr>msg_sender = 7, msg_payload = [42]\<rparr>])))
    \<and> (\<forall>q. port_holds (fst demo_ipc) 1 q \<longrightarrow> (case q of [] \<Rightarrow> r2 = Err QueueEmpty \<and> port_holds t2 1 []
           | m # q' \<Rightarrow> r2 = Ok m \<and> port_holds t2 1 q'))"
    using demo_ipc_facts(4,5) by (simp only: simp_thms if_True if_False) blast
  then show ?thesis using demo_ipc_facts(1-3) s r by force
qed

end
