(* ===== verification/Sanctum.thy ===== *)
theory Sanctum
  imports BTree_Map
begin

text \<open>
  Sanctum vaults (\<open>sanctum.rs\<close>): a registry of vault configurations, each with the attestation
  hash taken at creation or at the last \<open>attest_vault\<close>. Entering a vault recomputes the hash and
  compares. The hash is 64-bit FNV-1a over five words; every step of it is a bijection, which is why a change
  of any single field is always detected, and why two fields can be changed so that it is not.
\<close>

section \<open>The code\<close>

type_synonym vault_id = u64

datatype vault_type = Standard | Privileged | Isolated

datatype vault_error = VaultNotFound | AttestationFailed | OutsideVaultRegion

record vault_config =
  vc_vault_id :: vault_id
  vc_owner_pid :: u64
  vc_vault_type :: vault_type
  vc_memory_start :: u64
  vc_memory_end :: u64

text \<open>\<open>vault_type as u64\<close>: the discriminant, counted from zero.\<close>

fun vault_type_code :: "vault_type \<Rightarrow> u64" where
  "vault_type_code Standard = 0"
| "vault_type_code Privileged = 1"
| "vault_type_code Isolated = 2"

definition fnv_step :: "u64 \<Rightarrow> u64 \<Rightarrow> u64" where
  "fnv_step word h = (h XOR word) * 0x100000001b3"

definition attest :: "vault_config \<Rightarrow> u64" where
  "attest config =
     fold fnv_step
       [vc_vault_id config, vc_owner_pid config, vault_type_code (vc_vault_type config),
        vc_memory_start config, vc_memory_end config] 0xcbf29ce484222325"

record vault_state =
  vs_config :: vault_config
  vs_attestation_hash :: u64

record vault_manager =
  vm_vaults :: "(vault_id, vault_state) btree_map"
  vm_next_vault_id :: vault_id

definition new_manager :: vault_manager where
  "new_manager = \<lparr>vm_vaults = bt_empty, vm_next_vault_id = 1\<rparr>"

definition create_vault :: "u64 \<Rightarrow> vault_type \<Rightarrow> u64 \<Rightarrow> u64 \<Rightarrow> vault_manager \<Rightarrow> vault_manager \<times> vault_id" where
  "create_vault owner_pid vault_type memory_start memory_end m =
     (let vault_id = vm_next_vault_id m;
          m = m\<lparr>vm_next_vault_id := vm_next_vault_id m + 1\<rparr>;
          config = \<lparr>vc_vault_id = vault_id, vc_owner_pid = owner_pid, vc_vault_type = vault_type,
                    vc_memory_start = memory_start, vc_memory_end = memory_end\<rparr>;
          attestation_hash = attest config
      in (m\<lparr>vm_vaults := bt_insert vault_id
             \<lparr>vs_config = config, vs_attestation_hash = attestation_hash\<rparr> (vm_vaults m)\<rparr>, vault_id))"

definition enter_vault :: "vault_id \<Rightarrow> vault_manager \<Rightarrow> (vault_error, unit) result" where
  "enter_vault vault_id m =
     (case bt_get (vm_vaults m) vault_id of
        None \<Rightarrow> Err VaultNotFound
      | Some vault \<Rightarrow>
          if attest (vs_config vault) \<noteq> vs_attestation_hash vault then Err AttestationFailed else Ok ())"

definition attest_vault :: "vault_id \<Rightarrow> vault_manager \<Rightarrow> vault_manager \<times> (vault_error, u64) result" where
  "attest_vault vault_id m =
     (case bt_get (vm_vaults m) vault_id of
        None \<Rightarrow> (m, Err VaultNotFound)
      | Some vault \<Rightarrow>
          let vault = vault\<lparr>vs_attestation_hash := attest (vs_config vault)\<rparr>
          in (m\<lparr>vm_vaults := bt_insert vault_id vault (vm_vaults m)\<rparr>, Ok (vs_attestation_hash vault)))"

definition check_vault_access :: "vault_id \<Rightarrow> u64 \<Rightarrow> vault_manager \<Rightarrow> (vault_error, unit) result" where
  "check_vault_access vault_id vaddr m =
     (case bt_get (vm_vaults m) vault_id of
        None \<Rightarrow> Err VaultNotFound
      | Some vault \<Rightarrow>
          if vc_memory_start (vs_config vault) \<le> vaddr \<and> vaddr < vc_memory_end (vs_config vault)
          then Ok () else Err OutsideVaultRegion)"

definition vault_config_of :: "vault_id \<Rightarrow> vault_manager \<Rightarrow> vault_config option" where
  "vault_config_of vault_id m = map_option vs_config (bt_get (vm_vaults m) vault_id)"

section \<open>Sequences of operations\<close>

datatype vault_op = CreateVault u64 vault_type u64 u64 | AttestVault vault_id

fun vault_step :: "vault_op \<Rightarrow> vault_manager \<Rightarrow> vault_manager" where
  "vault_step (CreateVault pid ty a b) m = fst (create_vault pid ty a b m)"
| "vault_step (AttestVault k) m = fst (attest_vault k m)"

fun vault_run :: "vault_op list \<Rightarrow> vault_manager \<Rightarrow> vault_manager" where
  "vault_run [] m = m"
| "vault_run (x # xs) m = vault_run xs (vault_step x m)"

interpretation vlt: id_registry vm_vaults vm_next_vault_id
  "\<lambda>(pid, ty, a, b). create_vault pid ty a b"
  "\<lambda>(pid, ty, a, b) k. let c = \<lparr>vc_vault_id = k, vc_owner_pid = pid, vc_vault_type = ty,
     vc_memory_start = a, vc_memory_end = b\<rparr> in \<lparr>vs_config = c, vs_attestation_hash = attest c\<rparr>"
  by unfold_locales (auto simp: create_vault_def Let_def split: prod.split)

definition vaults_attested :: "vault_manager \<Rightarrow> bool" where
  "vaults_attested m \<longleftrightarrow> (\<forall>k v. bt_get (vm_vaults m) k = Some v \<longrightarrow> vs_attestation_hash v = attest (vs_config v))"

lemma vaults_attested_step: "vaults_attested m \<Longrightarrow> vaults_attested (vault_step x m)"
  by (cases x) (auto simp: vaults_attested_def create_vault_def attest_vault_def Let_def split: option.splits if_splits)

lemma vaults_attested_run: "vaults_attested m \<Longrightarrow> vaults_attested (vault_run xs m)"
  by (induction xs arbitrary: m) (simp_all add: vaults_attested_step)

lemma vault_fresh_step:
  assumes "vlt.fresh m" and "vm_next_vault_id m \<noteq> u64_max"
  shows "vlt.fresh (vault_step x m) \<and> unat (vm_next_vault_id (vault_step x m)) \<le> unat (vm_next_vault_id m) + 1
    \<and> (vault_config_of k m = Some c \<longrightarrow> vault_config_of k (vault_step x m) = Some c)"
proof (cases x)
  case (CreateVault pid ty a b)
  have "vlt.fresh (fst (create_vault pid ty a b m))" using vlt.create_fresh [OF assms, of "(pid, ty, a, b)"] by simp
  moreover have "bt_get (vm_vaults m) (vm_next_vault_id m) = None" using assms(1) by (rule fresh_ids_unused)
  ultimately show ?thesis
    using CreateVault unat_succ [OF assms(2)] by (auto simp: vault_config_of_def create_vault_def Let_def)
next
  case (AttestVault j)
  then show ?thesis
    using assms by (auto simp: vault_config_of_def attest_vault_def Let_def fresh_ids_update split: option.splits)
qed

lemma vault_fresh_run:
  "vlt.fresh m \<Longrightarrow> unat (vm_next_vault_id m) + length xs < 2 ^ 64 \<Longrightarrow>
     vlt.fresh (vault_run xs m) \<and> unat (vm_next_vault_id (vault_run xs m)) \<le> unat (vm_next_vault_id m) + length xs
     \<and> (vault_config_of k m = Some c \<longrightarrow> vault_config_of k (vault_run xs m) = Some c)"
proof (induction xs arbitrary: m)
  case (Cons x xs)
  have "vm_next_vault_id m \<noteq> u64_max" using Cons.prems(2) by (intro not_u64_max) simp
  note st = vault_fresh_step [OF Cons.prems(1) this, of x k c]
  then have "unat (vm_next_vault_id (vault_step x m)) + length xs < 2 ^ 64" using Cons.prems(2) by simp
  with st Cons.IH [of "vault_step x m"] show ?case by auto
qed simp

section \<open>The hash\<close>

lemma fnv_prime_inverse: "(0x100000001b3 :: u64) * 0xce965057aff6957b = 1"
  by simp

lemma mult_fnv_prime_inject: "(a::u64) * 0x100000001b3 = b * 0x100000001b3 \<longleftrightarrow> a = b"
proof
  assume "a * 0x100000001b3 = b * 0x100000001b3"
  then have "a * 0x100000001b3 * 0xce965057aff6957b = b * 0x100000001b3 * 0xce965057aff6957b" by (simp only:)
  then show "a = b" by (simp only: mult.assoc fnv_prime_inverse mult_1_right)
qed simp

lemma xor_right_inject: "(a::u64) XOR w = b XOR w \<longleftrightarrow> a = b"
proof
  assume "a XOR w = b XOR w"
  then have "(a XOR w) XOR w = (b XOR w) XOR w" by (simp only:)
  then show "a = b" by (simp only: xor.assoc xor_self_eq xor.right_neutral)
qed simp

lemma fnv_step_inject [simp]: "fnv_step w a = fnv_step w b \<longleftrightarrow> a = b" "fnv_step w h = fnv_step v h \<longleftrightarrow> w = v"
  by (simp_all add: fnv_step_def mult_fnv_prime_inject xor_right_inject xor.commute [of h])

lemma vault_type_code_inject [simp]: "vault_type_code a = vault_type_code b \<longleftrightarrow> a = b"
  by (cases a; cases b) simp_all

text \<open>The configurations that differ from \<open>c\<close> in exactly one field.\<close>

definition one_field_changed :: "vault_config \<Rightarrow> vault_config \<Rightarrow> bool" where
  "one_field_changed c c' \<longleftrightarrow> c' \<noteq> c \<and>
     ((\<exists>x. c' = c\<lparr>vc_vault_id := x\<rparr>) \<or> (\<exists>x. c' = c\<lparr>vc_owner_pid := x\<rparr>) \<or> (\<exists>x. c' = c\<lparr>vc_vault_type := x\<rparr>)
      \<or> (\<exists>x. c' = c\<lparr>vc_memory_start := x\<rparr>) \<or> (\<exists>x. c' = c\<lparr>vc_memory_end := x\<rparr>))"

lemma attest_one_field: "one_field_changed c c' \<Longrightarrow> attest c' \<noteq> attest c"
  by (cases c) (auto simp: one_field_changed_def attest_def)

section \<open>Properties\<close>

text \<open>
  The vault life cycle. Once \<open>create_vault\<close> has returned an identifier, then after any further
  creations and attestations, as long as the identifier counter does not wrap around, the vault can be entered,
  it still has the configuration it was created with, and it gives access to exactly the addresses
  of its region. An identifier that is in the table is the only way in: all others are \<open>VaultNotFound\<close>.
\<close>

lemma vault_lifecycle:
  assumes "m = vault_run ys new_manager" and "create_vault pid ty a b m = (m1, k)" and "m2 = vault_run xs m1"
    and "length ys + length xs + 2 < 2 ^ 64"
  shows "enter_vault k m2 = Ok ()
    \<and> vault_config_of k m2 = Some \<lparr>vc_vault_id = k, vc_owner_pid = pid, vc_vault_type = ty, vc_memory_start = a, vc_memory_end = b\<rparr>
    \<and> (check_vault_access k v m2 = Ok () \<longleftrightarrow> a \<le> v \<and> v < b)
    \<and> (vault_config_of j m2 = None \<longrightarrow> enter_vault j m2 = Err VaultNotFound \<and> check_vault_access j v m2 = Err VaultNotFound)"
proof -
  have m: "vlt.fresh m" "unat (vm_next_vault_id m) \<le> 1 + length ys" "vaults_attested m"
    using vault_fresh_run [of new_manager ys] vaults_attested_run [of new_manager ys] assms(1,4)
    by (simp_all add: new_manager_def vaults_attested_def)
  then have nm: "vm_next_vault_id m \<noteq> u64_max" using assms(4) by (intro not_u64_max [of _ 0]) simp
  have m1: "m1 = vault_step (CreateVault pid ty a b) m" and k: "k = vm_next_vault_id m"
    using assms(2) by (auto simp: create_vault_def Let_def)
  let ?c = "\<lparr>vc_vault_id = k, vc_owner_pid = pid, vc_vault_type = ty, vc_memory_start = a, vc_memory_end = b\<rparr>"
  have "vault_config_of k m1 = Some ?c" using m1 k by (simp add: vault_config_of_def create_vault_def Let_def)
  moreover have "vlt.fresh m1" "unat (vm_next_vault_id m1) \<le> 2 + length ys"
    using vault_fresh_step [OF m(1) nm, of "CreateVault pid ty a b" k ?c] m(2) unfolding m1 by linarith+
  ultimately have c: "vault_config_of k m2 = Some ?c"
    using vault_fresh_run [of m1 xs k ?c] assms(3,4) by simp
  have "vaults_attested m2"
    unfolding assms(3) m1 by (intro vaults_attested_run vaults_attested_step m(3))
  then show ?thesis
    using c by (auto simp: vault_config_of_def enter_vault_def check_vault_access_def vaults_attested_def split: if_splits)
qed

text \<open>
  C17: Tamper detection. If the stored configuration of an attested vault is changed in any
  single field, in any way, the vault can no longer be entered until it is attested again.
\<close>

theorem single_tamper_detected:
  assumes "m = vault_run xs new_manager" and "bt_get (vm_vaults m) k = Some v" and "one_field_changed (vs_config v) c'"
  shows "enter_vault k (m\<lparr>vm_vaults := bt_insert k (v\<lparr>vs_config := c'\<rparr>) (vm_vaults m)\<rparr>) = Err AttestationFailed"
proof -
  have "vaults_attested m" using vaults_attested_run [of new_manager xs] assms(1) by (simp add: vaults_attested_def new_manager_def)
  then have "vs_attestation_hash v = attest (vs_config v)" using assms(2) by (simp add: vaults_attested_def)
  then show ?thesis using attest_one_field [OF assms(3)] by (simp add: enter_vault_def)
qed

theorem single_tamper_detected_witness:
  "let m = vault_run [CreateVault 7 Isolated 0x1000 0x2000] new_manager;
       c = \<lparr>vc_vault_id = 1, vc_owner_pid = 7, vc_vault_type = Isolated, vc_memory_start = 0x1000, vc_memory_end = 0x2000\<rparr>
   in enter_vault 1 (m\<lparr>vm_vaults := bt_insert 1
        \<lparr>vs_config = c\<lparr>vc_memory_end := 0x9000\<rparr>, vs_attestation_hash = attest c\<rparr> (vm_vaults m)\<rparr>) = Err AttestationFailed"
proof -
  let ?c = "\<lparr>vc_vault_id = 1, vc_owner_pid = 7, vc_vault_type = Isolated, vc_memory_start = 0x1000, vc_memory_end = 0x2000\<rparr>"
  let ?m = "vault_run [CreateVault 7 Isolated 0x1000 0x2000] new_manager"
  have g: "bt_get (vm_vaults ?m) 1 = Some \<lparr>vs_config = ?c, vs_attestation_hash = attest ?c\<rparr>"
    by (simp add: create_vault_def new_manager_def Let_def)
  have "one_field_changed ?c (?c\<lparr>vc_memory_end := 0x9000\<rparr>)" by (auto simp: one_field_changed_def)
  then show ?thesis
    using single_tamper_detected [OF refl g, of "?c\<lparr>vc_memory_end := 0x9000\<rparr>"] by (simp only: Let_def vault_state.simps)
qed

text \<open>The hash does not detect every tampering: two fields can be changed against each other.\<close>

lemma two_field_collision:
  "attest \<lparr>vc_vault_id = 1, vc_owner_pid = 0, vc_vault_type = Standard, vc_memory_start = 0, vc_memory_end = 0\<rparr> =
   attest \<lparr>vc_vault_id = 2, vc_owner_pid = fnv_step 1 0xcbf29ce484222325 XOR fnv_step 2 0xcbf29ce484222325,
           vc_vault_type = Standard, vc_memory_start = 0, vc_memory_end = 0\<rparr>"
  by (simp add: attest_def fnv_step_def)

end
