(* ===== verification/Boot.thy ===== *)
theory Boot
  imports UOSC_Prelude
begin

text \<open>
  The boot sequencer (\<open>boot.rs\<close>): six phases with a fixed order, a flag per phase, and one
  operation that marks a phase complete if every earlier phase is. The invariant of the
  source, \<open>satisfies_ordering_invariant\<close>, holds after any sequence of attempts.
\<close>

section \<open>The code\<close>

datatype boot_phase = EarlyBoot | LateBoot | SchedulerBoot | SanctumBoot | IpcBoot | SyscallBoot

definition ORDER :: "boot_phase list" where
  "ORDER = [EarlyBoot, LateBoot, SchedulerBoot, SanctumBoot, IpcBoot, SyscallBoot]"

text \<open>The search always succeeds, so \<open>expect\<close> never panics (\<open>index_total\<close>).\<close>

definition index :: "boot_phase \<Rightarrow> nat" where
  "index phase = (case position (\<lambda>p. p = phase) ORDER of Some i \<Rightarrow> i | None \<Rightarrow> 6)"

datatype boot_error = OutOfOrder boot_phase boot_phase | AlreadyComplete boot_phase

record boot_sequencer =
  bs_completed :: "bool list"

definition new_sequencer :: boot_sequencer where
  "new_sequencer = \<lparr>bs_completed = replicate 6 False\<rparr>"

definition complete :: "boot_phase \<Rightarrow> boot_sequencer \<Rightarrow> boot_sequencer \<times> (boot_error, unit) result" where
  "complete phase s =
     (let idx = index phase
      in if bs_completed s ! idx then (s, Err (AlreadyComplete phase))
         else (case find (\<lambda>earlier. \<not> bs_completed s ! index earlier) (take idx ORDER) of
             Some earlier \<Rightarrow> (s, Err (OutOfOrder phase earlier))
           | None \<Rightarrow> (s\<lparr>bs_completed := (bs_completed s)[idx := True]\<rparr>, Ok ())))"

definition is_complete :: "boot_phase \<Rightarrow> boot_sequencer \<Rightarrow> bool" where
  "is_complete phase s = bs_completed s ! index phase"

definition satisfies_ordering_invariant :: "boot_sequencer \<Rightarrow> bool" where
  "satisfies_ordering_invariant s =
     list_all (\<lambda>(idx, phase). \<not> bs_completed s ! idx \<or> list_all (\<lambda>earlier. bs_completed s ! index earlier) (take idx ORDER))
       (enumerate 0 ORDER)"

fun boot_run :: "boot_phase list \<Rightarrow> boot_sequencer \<Rightarrow> boot_sequencer" where
  "boot_run [] s = s"
| "boot_run (p # ps) s = boot_run ps (fst (complete p s))"

text \<open>The order \<open>derive(PartialOrd, Ord)\<close> gives the phases is the order of \<open>ORDER\<close>.\<close>

lemma index_simps [simp]:
  "index EarlyBoot = 0" "index LateBoot = 1" "index SchedulerBoot = 2"
  "index SanctumBoot = 3" "index IpcBoot = 4" "index SyscallBoot = 5"
  by (simp_all add: index_def ORDER_def)

lemma index_inject: "index p = index q \<longleftrightarrow> p = q"
  by (cases p; cases q) simp_all

lemma index_total: "position (\<lambda>p. p = phase) ORDER = Some (index phase)"
  by (cases phase) (simp_all add: ORDER_def)

instantiation boot_phase :: linorder
begin

definition less_eq_boot_phase :: "boot_phase \<Rightarrow> boot_phase \<Rightarrow> bool" where
  "less_eq_boot_phase p q \<longleftrightarrow> index p \<le> index q"

definition less_boot_phase :: "boot_phase \<Rightarrow> boot_phase \<Rightarrow> bool" where
  "less_boot_phase p q \<longleftrightarrow> index p < index q"

instance
  by standard (auto simp: less_eq_boot_phase_def less_boot_phase_def index_inject [symmetric])

end

section \<open>The flags are a prefix\<close>

text \<open>After any attempts the first \<open>n\<close> phases are complete and the others are not.\<close>

definition prefix_state :: "nat \<Rightarrow> boot_sequencer" where
  "prefix_state n = \<lparr>bs_completed = replicate n True @ replicate (6 - n) False\<rparr>"

lemma index_less: "index p < 6"
  by (cases p) simp_all

lemma nth_prefix_state: "i < 6 \<Longrightarrow> n \<le> 6 \<Longrightarrow> bs_completed (prefix_state n) ! i \<longleftrightarrow> i < n"
  by (auto simp: prefix_state_def nth_append)

lemma index_nth_ORDER: "i < 6 \<Longrightarrow> index (ORDER ! i) = i"
  by (auto simp: ORDER_def less_Suc_eq numeral_eq_Suc)

lemma nth_ORDER_index: "ORDER ! index p = p"
  by (cases p) (simp_all add: ORDER_def)

lemma find_take_ORDER:
  assumes "n < i" and "i \<le> 6"
  shows "find (\<lambda>e. \<not> bs_completed (prefix_state n) ! index e) (take i ORDER) = Some (ORDER ! n)"
proof -
  have "n \<in> {0,1,2,3,4,5}" "i \<in> {1,2,3,4,5,6}" using assms by auto
  then show ?thesis using assms by (auto simp: ORDER_def prefix_state_def nth_append)
qed

lemma find_take_ORDER_None:
  assumes "n \<le> 6" and "i \<le> n"
  shows "find (\<lambda>e. \<not> bs_completed (prefix_state n) ! index e) (take i ORDER) = None"
proof -
  have "bs_completed (prefix_state n) ! index e" if "e \<in> set (take i ORDER)" for e
  proof -
    from that obtain j where "j < i" "e = ORDER ! j" using assms by (auto simp: in_set_conv_nth)
    then show ?thesis using assms by (simp add: index_nth_ORDER nth_prefix_state)
  qed
  then show ?thesis by (simp add: find_None_iff)
qed

lemma complete_prefix:
  assumes "n \<le> 6"
  shows "complete p (prefix_state n) =
    (if index p < n then (prefix_state n, Err (AlreadyComplete p))
     else if index p = n then (prefix_state (Suc n), Ok ())
     else (prefix_state n, Err (OutOfOrder p (ORDER ! n))))"
proof -
  have b: "bs_completed (prefix_state n) ! index p \<longleftrightarrow> index p < n" using assms index_less [of p] by (simp add: nth_prefix_state)
  have upd: "(prefix_state n)\<lparr>bs_completed := (bs_completed (prefix_state n))[n := True]\<rparr> = prefix_state (Suc n)" if "n < 6"
  proof -
    have "6 - n = Suc (6 - Suc n)" using that by simp
    then show ?thesis by (simp add: prefix_state_def list_update_append replicate_append_same)
  qed
  show ?thesis
    using b upd index_less [of p] find_take_ORDER [of n "index p"] find_take_ORDER_None [of n "index p"] assms
    by (auto simp: complete_def Let_def)
qed

lemma boot_run_prefix: "\<exists>n\<le>6. boot_run ps new_sequencer = prefix_state n"
proof -
  have "\<exists>m\<le>6. boot_run ps (prefix_state n) = prefix_state m" if "n \<le> 6" for n
    using that
  proof (induction ps arbitrary: n)
    case (Cons p ps)
    then show ?case using index_less [of p] by (auto simp: complete_prefix)
  qed auto
  from this [of 0] show ?thesis by (simp add: prefix_state_def new_sequencer_def)
qed

section \<open>Properties\<close>

text \<open>
  C18: Boot order integrity. After any sequence of attempts, successful or not, in any order and
  with any repetitions, every phase before a complete phase is complete, and the executable check
  \<open>satisfies_ordering_invariant\<close> of the source says so.
\<close>

theorem boot_sequence_integrity:
  "satisfies_ordering_invariant (boot_run ps new_sequencer)
   \<and> (is_complete q (boot_run ps new_sequencer) \<longrightarrow> p \<le> q \<longrightarrow> is_complete p (boot_run ps new_sequencer))"
proof -
  obtain n where n: "n \<le> 6" "boot_run ps new_sequencer = prefix_state n" using boot_run_prefix by blast
  have "is_complete p (prefix_state n) \<longleftrightarrow> index p < n" for p
    using n(1) index_less [of p] by (simp add: is_complete_def nth_prefix_state)
  moreover have "satisfies_ordering_invariant (prefix_state n)"
  proof -
    have "bs_completed (prefix_state n) ! index e" if "e \<in> set (take i ORDER)" "i < n" for e i
      using find_take_ORDER_None [of n i] that n(1) by (auto simp: find_None_iff)
    then show ?thesis
      using n(1) unfolding satisfies_ordering_invariant_def list_all_iff
      by (auto simp: in_set_enumerate_eq nth_prefix_state ORDER_def)
  qed
  ultimately show ?thesis using n(2) by (auto simp: less_eq_boot_phase_def)
qed

theorem boot_sequence_integrity_witness:
  "let s = boot_run [EarlyBoot, IpcBoot, LateBoot] new_sequencer
   in is_complete LateBoot s \<and> EarlyBoot \<le> LateBoot \<and> is_complete EarlyBoot s"
proof -
  have "is_complete LateBoot (boot_run [EarlyBoot, IpcBoot, LateBoot] new_sequencer)" "EarlyBoot \<le> LateBoot" by code_simp+
  then show ?thesis
    using boot_sequence_integrity [of "[EarlyBoot, IpcBoot, LateBoot]" LateBoot EarlyBoot] by (simp only: Let_def simp_thms)
qed

text \<open>
  What \<open>complete\<close> returns in any reachable state: \<open>AlreadyComplete\<close> for a phase that is complete,
  success if every earlier phase is complete, otherwise \<open>OutOfOrder\<close> naming the first phase that
  is missing. A refused attempt changes nothing, and an accepted one completes exactly that phase.
\<close>

lemma complete_outcome:
  assumes "s = boot_run ps new_sequencer"
  shows "case complete p s of
     (s', Inr _) \<Rightarrow> \<not> is_complete p s \<and> (\<forall>q<p. is_complete q s) \<and> (\<forall>q. is_complete q s' \<longleftrightarrow> q = p \<or> is_complete q s)
   | (s', Inl (AlreadyComplete q)) \<Rightarrow> s' = s \<and> q = p \<and> is_complete p s
   | (s', Inl (OutOfOrder attempted missing)) \<Rightarrow> s' = s \<and> attempted = p \<and> missing < p
       \<and> \<not> is_complete missing s \<and> (\<forall>q<missing. is_complete q s)"
proof -
  obtain n where n: "n \<le> 6" "s = prefix_state n" using boot_run_prefix assms by blast
  have ic: "is_complete q (prefix_state k) \<longleftrightarrow> index q < k" if "k \<le> 6" for q k
    using that index_less [of q] by (simp add: is_complete_def nth_prefix_state)
  show ?thesis
    unfolding n(2) complete_prefix [OF n(1)]
    using n(1) index_less [of p] index_nth_ORDER [of n]
    by (auto simp: ic less_boot_phase_def less_Suc_eq index_inject)
qed

end
