(* ===== verification/Port_Io.thy ===== *)
theory Port_Io
  imports UOSC_Prelude
begin

text \<open>
  Input and output ports. What a device answers is not part of the kernel: it is the argument \<open>device\<close>, a function of the accesses made
  so far, the width in bits and the port. The state is the history of accesses, newest last.
\<close>

datatype port_event = PortIn nat u16 | PortOut nat u16 u32

type_synonym port_trace = "port_event list"
type_synonym port_device = "port_trace \<Rightarrow> nat \<Rightarrow> u16 \<Rightarrow> u32"

definition port_read :: "port_device \<Rightarrow> nat \<Rightarrow> u16 \<Rightarrow> port_trace \<Rightarrow> port_trace \<times> u32" where
  "port_read device width port t = (t @ [PortIn width port], take_bit width (device t width port))"

definition port_write :: "nat \<Rightarrow> u16 \<Rightarrow> u32 \<Rightarrow> port_trace \<Rightarrow> port_trace" where
  "port_write width port v t = t @ [PortOut width port (take_bit width v)]"

text \<open>A device that keeps the last value written to a port of the given width.\<close>

fun last_out :: "port_trace \<Rightarrow> nat \<Rightarrow> u16 \<Rightarrow> u32" where
  "last_out [] width port = 0"
| "last_out (PortIn w p # t) width port = last_out t width port"
| "last_out (PortOut w p v # t) width port = (if w = width \<and> p = port then v else last_out t width port)"

definition latch_device :: port_device where
  "latch_device t = last_out (rev t)"

lemma port_write_read [simp]:
  "snd (port_read latch_device width port (port_write width port v t)) = take_bit width v"
  by (simp add: port_read_def port_write_def latch_device_def)

end
