(* ===== verification/Self_Test.thy ===== *)
theory Self_Test
  imports Paging Ipc Sanctum Boot Port_Io
begin

text \<open>
  The boot self-test of \<open>main.rs\<close>: the tally of the checks, the checks that run the kernel's own components
  against each other, and the exit. \<open>Kernel_Main\<close> composes them in the order of \<open>kernel_main\<close>. An access to virtual memory is resolved the way the processor does: through the
  translation, with a page fault first when there is none. The translation is that of \<open>MAPPER\<close>, which
  views the table that CR3 holds. A panic is \<open>None\<close>.
\<close>

section \<open>The tally\<close>

record check_results =
  cr_total :: u32
  cr_passed :: u32

definition new_results :: check_results where
  "new_results = \<lparr>cr_total = 0, cr_passed = 0\<rparr>"

definition record_check :: "bool \<Rightarrow> check_results \<Rightarrow> check_results" where
  "record_check ok s =
     (let s = s\<lparr>cr_total := cr_total s + 1\<rparr>
      in if ok then s\<lparr>cr_passed := cr_passed s + 1\<rparr> else s)"

datatype exit_code = Success | Failed

text \<open>\<open>exit_qemu\<close> never returns: its result is the history of port accesses at which the machine stops. A panic ends there too.\<close>

fun exit_code_value :: "exit_code \<Rightarrow> u32" where
  "exit_code_value Success = 0x10"
| "exit_code_value Failed = 0x11"

definition exit_qemu :: "exit_code \<Rightarrow> port_trace \<Rightarrow> port_trace" where
  "exit_qemu code t = port_write 32 0xF4 (exit_code_value code) t"

definition panic_handler :: "port_trace \<Rightarrow> port_trace" where
  "panic_handler t = exit_qemu Failed t"

definition verdict_of :: "check_results \<Rightarrow> exit_code" where
  "verdict_of results = (if cr_passed results = cr_total results then Success else Failed)"

section \<open>The checks\<close>

definition cpu_security_check :: "cpu_control \<Rightarrow> cpu_security_features \<Rightarrow> bool" where
  "cpu_security_check c f \<longleftrightarrow>
     cf_nx f = bit (cpu_efer c) 11 \<and> cf_smep f = bit (cpu_cr4 c) 20 \<and> cf_smap f = bit (cpu_cr4 c) 21"

definition phys_alloc_check :: "physical_allocator \<Rightarrow> physical_allocator \<times> bool" where
  "phys_alloc_check phys =
     (let before = free_page_count phys
      in (case allocate 0 phys of (phys, r1) \<Rightarrow>
          (case allocate 0 phys of (phys, r2) \<Rightarrow>
           (case (r1, r2) of
              (Inr p1, Inr p2) \<Rightarrow>
                if p1 \<noteq> p2 then
                  (case deallocate p1 phys of (phys, d1) \<Rightarrow>
                     if is_ok d1 then
                       (case deallocate p2 phys of (phys, d2) \<Rightarrow> (phys, is_ok d2 \<and> free_page_count phys = before))
                     else (phys, False))
                else (phys, False)
            | _ \<Rightarrow> (phys, False)))))"

text \<open>
  Where the processor finds the address, restarting the instruction after a fault that the handler has
  resolved; the fuel bounds the restarts.
\<close>

fun resolve ::
    "nat \<Rightarrow> ('m \<Rightarrow> u64 \<Rightarrow> (u64 \<times> page_flags) option) \<Rightarrow> ('m, physical_allocator) map_to \<Rightarrow> cpu_control \<Rightarrow> u64
     \<Rightarrow> 'm paging_globals \<Rightarrow> ('m paging_globals \<times> u64) option" where
  "resolve 0 lookup map_to cpu vaddr g = None"
| "resolve (Suc n) lookup map_to cpu vaddr g =
     (case MAPPER g of
        None \<Rightarrow> None
      | Some m \<Rightarrow>
          (case lookup m (containing_address vaddr) of
             Some (frame, _) \<Rightarrow> Some (g, frame + (vaddr AND 0xFFF))
           | None \<Rightarrow>
               (case page_fault_handler map_to cpu vaddr g of
                  (g', Resumed) \<Rightarrow> resolve n lookup map_to cpu vaddr g'
                | (g', Panicked) \<Rightarrow> None)))"

text \<open>The write and the read back of a value through a volatile pointer. \<open>data\<close> is physical memory.\<close>

definition write_then_read ::
    "nat \<Rightarrow> ('m \<Rightarrow> u64 \<Rightarrow> (u64 \<times> page_flags) option) \<Rightarrow> ('m, physical_allocator) map_to \<Rightarrow> cpu_control \<Rightarrow> u64 \<Rightarrow> u64
     \<Rightarrow> 'm paging_globals \<Rightarrow> (u64 \<Rightarrow> u64) \<Rightarrow> ('m paging_globals \<times> (u64 \<Rightarrow> u64) \<times> u64) option" where
  "write_then_read fuel lookup map_to cpu vaddr v g data =
     (case resolve fuel lookup map_to cpu vaddr g of
        None \<Rightarrow> None
      | Some (g, pa) \<Rightarrow>
          let data = data(pa := v)
          in (case resolve fuel lookup map_to cpu vaddr g of
                None \<Rightarrow> None
              | Some (g, pa) \<Rightarrow> Some (g, data, data pa)))"

definition page_fault_check ::
    "nat \<Rightarrow> ('m \<Rightarrow> u64 \<Rightarrow> (u64 \<times> page_flags) option) \<Rightarrow> ('m, physical_allocator) map_to \<Rightarrow> cpu_control
     \<Rightarrow> 'm paging_globals \<Rightarrow> (u64 \<Rightarrow> u64) \<Rightarrow> ('m paging_globals \<times> (u64 \<Rightarrow> u64) \<times> bool) option" where
  "page_fault_check fuel lookup map_to cpu g data =
     map_option
       (\<lambda>(g, data, v). (g, data, v = 0xDEADBEEFCAFED00D \<and> PAGE_FAULTS_DEMAND_PAGED g = 1))
       (write_then_read fuel lookup map_to cpu DEMAND_PAGE_REGION_START 0xDEADBEEFCAFED00D g data)"

definition free_pages_now :: "'m paging_globals \<Rightarrow> 'm paging_globals \<times> u64" where
  "free_pages_now g =
     (case with_phys (\<lambda>phys. (phys, free_page_count phys)) g of (g, r) \<Rightarrow> (g, case r of Some n \<Rightarrow> n | None \<Rightarrow> 0))"

definition unmap_check ::
    "nat \<Rightarrow> ('m \<Rightarrow> u64 \<Rightarrow> (u64 \<times> page_flags) option) \<Rightarrow> ('m, physical_allocator) map_to \<Rightarrow> 'm unmap \<Rightarrow> cpu_control
     \<Rightarrow> 'm paging_globals \<Rightarrow> (u64 \<Rightarrow> u64) \<Rightarrow> ('m paging_globals \<times> (u64 \<Rightarrow> u64) \<times> bool) option" where
  "unmap_check fuel lookup map_to unmap cpu g data =
     (case free_pages_now g of (g, free_before) \<Rightarrow>
      (case with_mapper_and_phys (paging_unmap_page unmap DEMAND_PAGE_REGION_START) g of (g, r) \<Rightarrow>
       let unmapped = (case map_option is_ok r of Some b \<Rightarrow> b | None \<Rightarrow> False)
       in (case free_pages_now g of (g, free_after) \<Rightarrow>
           map_option
             (\<lambda>(g, data, v). (g, data, unmapped \<and> free_after = free_before + 1 \<and> v = 0xFEEDFACE0BADF00D
                \<and> PAGE_FAULTS_DEMAND_PAGED g = 2))
             (write_then_read fuel lookup map_to cpu DEMAND_PAGE_REGION_START 0xFEEDFACE0BADF00D g data))))"

text \<open>A \<open>Vec\<close> of 4096 values is filled and compared; the memory behind it is the heap crate.\<close>

definition heap_check :: bool where
  "heap_check \<longleftrightarrow>
     (let v = fold (\<lambda>i v. v @ [of_nat i * (0x9E3779B97F4A7C15 :: u64)]) [0..<4096] []
      in list_all (\<lambda>(i, x). x = of_nat i * 0x9E3779B97F4A7C15) (enumerate 0 v))"

definition capability_check :: bool where
  "capability_check \<longleftrightarrow>
     (case issue 0 1 Memory ''heap'' (NONE\<lparr>perm_read := True, perm_write := True\<rparr>) 0 u64_max new_broker of (caps, token) \<Rightarrow>
      (case check_access 1 Memory ''heap'' (NONE\<lparr>perm_read := True\<rparr>) 0 caps of (caps, decision) \<Rightarrow>
       (case check_access 2 Memory ''heap'' (NONE\<lparr>perm_read := True\<rparr>) 0 caps of (caps, denied) \<Rightarrow>
          decision = Allowed \<and> denied = Denied)))"

definition sanctum_check :: bool where
  "sanctum_check \<longleftrightarrow>
     (case create_vault 1 Standard 0x1000 0x2000 new_manager of (vaults, vault_id) \<Rightarrow>
        is_ok (enter_vault vault_id vaults) \<and> is_ok (check_vault_access vault_id 0x1500 vaults)
        \<and> \<not> is_ok (check_vault_access vault_id 0x5000 vaults))"

definition ipc_check :: bool where
  "ipc_check \<longleftrightarrow>
     (case create_port 1 4 0 new_port_table new_broker of (ports, caps, port_id) \<Rightarrow>
      (case send_message 1 port_id [1, 2, 3] 0 ports caps of (ports, caps, s) \<Rightarrow>
       (case receive_message 1 port_id 0 ports caps of (ports, caps, r) \<Rightarrow>
          is_ok s \<and> (case r of Inr m \<Rightarrow> msg_payload m = [1, 2, 3] | Inl _ \<Rightarrow> False))))"

section \<open>The verdict\<close>

definition kernel_main_exit :: "bool list \<Rightarrow> exit_code" where
  "kernel_main_exit checks = verdict_of (fold record_check checks new_results)"

section \<open>Allocation\<close>

lemma has_free_page:
  assumes "phys_inv s" and "0 < unat (free_page_count s)"
  shows "has_block_for 0 (pa_free_lists s)"
proof (rule ccontr)
  assume "\<not> has_block_for 0 (pa_free_lists s)"
  then have "(\<Sum>k<length (pa_free_lists s). length (pa_free_lists s ! k) * 2 ^ k) = 0"
    using arena_length [OF phys_invD(1) [OF assms(1)]] by (auto simp: has_block_for_def)
  then show False using assms(2) free_page_count_nat [of s] by simp
qed

lemma allocate_page:
  assumes "phys_inv s" and "0 < unat (free_page_count s)"
  obtains s' a where "allocate 0 s = (s', Ok a)" "phys_inv s'" "bt_get (pa_live_blocks s) a = None"
    "pa_live_blocks s' = bt_insert a 0 (pa_live_blocks s)" "pa_base s' = pa_base s"
    "unat (free_page_count s') + 1 = unat (free_page_count s)" "pa_total_pages s' = pa_total_pages s"
  using assms(1)
proof (cases rule: allocate_cases [where order = 0])
  case (ok fls a)
  let ?s = "s\<lparr>pa_free_lists := fls, pa_live_blocks := bt_insert a 0 (pa_live_blocks s)\<rparr>"
  have "unat (free_page_count ?s) + 1 = unat (free_page_count s)"
    using page_accounting [OF assms(1)] page_accounting [OF ok(5)] live_pages_insert [OF ok(4), of 0 fls] by simp
  then show thesis using that [OF ok(3) ok(5) ok(4)] by simp
qed (use has_free_page [OF assms] in simp_all)

lemma deallocate_page:
  assumes "phys_inv s" and "bt_get (pa_live_blocks s) a = Some 0"
  obtains s' where "deallocate a s = (s', Ok ())" "phys_inv s'" "pa_live_blocks s' = bt_remove a (pa_live_blocks s)"
    "pa_base s' = pa_base s" "unat (free_page_count s') = unat (free_page_count s) + 1" "pa_total_pages s' = pa_total_pages s"
  using assms(1)
proof (cases rule: deallocate_cases [where a = a])
  case (ok fls k)
  let ?s = "s\<lparr>pa_live_blocks := bt_remove a (pa_live_blocks s), pa_free_lists := fls\<rparr>"
  have k: "k = 0" using ok(1) assms(2) by simp
  have "unat (free_page_count ?s) = unat (free_page_count s) + 1"
    using page_accounting [OF assms(1)] page_accounting [OF ok(3)] live_pages_remove [OF ok(1), of fls] k by simp
  then show thesis using that [OF ok(2) ok(3)] by simp
qed (use assms(2) in simp)

lemma phys_alloc_check_passes:
  assumes "phys_inv phys" and "2 \<le> unat (free_page_count phys)"
  obtains phys' where "phys_alloc_check phys = (phys', True)" "phys_inv phys'" "pa_base phys' = pa_base phys"
    "\<forall>a. bt_get (pa_live_blocks phys') a = bt_get (pa_live_blocks phys) a" "free_page_count phys' = free_page_count phys"
    "pa_total_pages phys' = pa_total_pages phys"
proof -
  have "0 < unat (free_page_count phys)" using assms(2) by simp
  from allocate_page [OF assms(1) this] obtain s1 p1 where a1: "allocate 0 phys = (s1, Ok p1)" "phys_inv s1"
    "bt_get (pa_live_blocks phys) p1 = None" "pa_live_blocks s1 = bt_insert p1 0 (pa_live_blocks phys)" "pa_base s1 = pa_base phys"
    "unat (free_page_count s1) + 1 = unat (free_page_count phys)" "pa_total_pages s1 = pa_total_pages phys" by metis
  then have "0 < unat (free_page_count s1)" using assms(2) by simp
  from allocate_page [OF a1(2) this] obtain s2 p2 where a2: "allocate 0 s1 = (s2, Ok p2)" "phys_inv s2"
    "bt_get (pa_live_blocks s1) p2 = None" "pa_live_blocks s2 = bt_insert p2 0 (pa_live_blocks s1)" "pa_base s2 = pa_base s1"
    "unat (free_page_count s2) + 1 = unat (free_page_count s1)" "pa_total_pages s2 = pa_total_pages s1" by metis
  have ne: "p1 \<noteq> p2" using a1(4) a2(3) by auto
  have "bt_get (pa_live_blocks s2) p1 = Some 0" using a1(4) a2(4) by simp
  from deallocate_page [OF a2(2) this] obtain s3 where d1: "deallocate p1 s2 = (s3, Ok ())" "phys_inv s3"
    "pa_live_blocks s3 = bt_remove p1 (pa_live_blocks s2)" "pa_base s3 = pa_base s2"
    "unat (free_page_count s3) = unat (free_page_count s2) + 1" "pa_total_pages s3 = pa_total_pages s2" by metis
  have "bt_get (pa_live_blocks s3) p2 = Some 0" using ne a2(4) d1(3) by simp
  from deallocate_page [OF d1(2) this] obtain s4 where d2: "deallocate p2 s3 = (s4, Ok ())" "phys_inv s4"
    "pa_live_blocks s4 = bt_remove p2 (pa_live_blocks s3)" "pa_base s4 = pa_base s3"
    "unat (free_page_count s4) = unat (free_page_count s3) + 1" "pa_total_pages s4 = pa_total_pages s3" by metis
  have cnt: "free_page_count s4 = free_page_count phys"
    using a1(6) a2(6) d1(5) d2(5) by (simp add: word_unat_eq_iff)
  have "phys_alloc_check phys = (s4, True)" using cnt a1(1) a2(1) d1(1) d2(1) ne by (simp add: phys_alloc_check_def)
  moreover have "bt_get (pa_live_blocks s4) a = bt_get (pa_live_blocks phys) a" for a
    using ne a1(3,4) a2(3,4) d1(3) d2(3) by auto
  ultimately show thesis using that d2(2) a1(5,7) a2(5,7) d1(4,6) d2(4,6) cnt by simp
qed

section \<open>Paging\<close>

lemma demand_region [simp]:
  "containing_address DEMAND_PAGE_REGION_START = DEMAND_PAGE_REGION_START"
  "DEMAND_PAGE_REGION_START AND 0xFFF = 0" "DEMAND_PAGE_REGION_START < DEMAND_PAGE_REGION_END"
  by (simp_all add: containing_address_def DEMAND_PAGE_REGION_START_def DEMAND_PAGE_REGION_END_def)

lemma write_then_read_faults:
  assumes g: "MAPPER g = Some m" "PHYS g = Some phys" and absent: "lookup m DEMAND_PAGE_REGION_START = None"
    and map: "paging_map_page map_to DEMAND_PAGE_REGION_START (data_flags cpu) m phys = (m', phys', Ok frame)"
    and mapped: "lookup m' DEMAND_PAGE_REGION_START = Some (frame, flags)" and fuel: "2 \<le> fuel"
  shows "write_then_read fuel lookup map_to cpu DEMAND_PAGE_REGION_START v g data =
    Some (g\<lparr>MAPPER := Some m', PHYS := Some phys', PAGE_FAULTS_DEMAND_PAGED := PAGE_FAULTS_DEMAND_PAGED g + 1\<rparr>,
          data(frame := v), v)"
proof -
  obtain n where n: "fuel = Suc (Suc n)" using fuel by (metis add_2_eq_Suc le_Suc_ex)
  let ?g = "g\<lparr>MAPPER := Some m', PHYS := Some phys', PAGE_FAULTS_DEMAND_PAGED := PAGE_FAULTS_DEMAND_PAGED g + 1\<rparr>"
  have fault: "page_fault_handler map_to cpu DEMAND_PAGE_REGION_START g = (?g, Resumed)"
    using page_fault_ready [OF _ g map] by simp
  have "resolve fuel lookup map_to cpu DEMAND_PAGE_REGION_START g = Some (?g, frame)"
    "resolve fuel lookup map_to cpu DEMAND_PAGE_REGION_START ?g = Some (?g, frame)"
    using g absent mapped fault by (simp_all add: n)
  then show ?thesis by (simp add: write_then_read_def)
qed

lemma free_pages_now_ready: "PHYS g = Some phys \<Longrightarrow> free_pages_now g = (g, free_page_count phys)"
  by (cases g) (simp add: free_pages_now_def with_phys_def)

text \<open>Unmapping the demand-paged page frees exactly one page and lets it be faulted in again.\<close>

lemma unmap_check_passes:
  assumes inv: "phys_inv phys" and g: "MAPPER g = Some m" "PHYS g = Some phys" "PAGE_FAULTS_DEMAND_PAGED g = 1"
    and u: "unmap DEMAND_PAGE_REGION_START m = (m2, Ok frame)" "lookup m2 DEMAND_PAGE_REGION_START = None"
    and live: "bt_get (pa_live_blocks phys) frame = Some 0" and d: "deallocate frame phys = (phys2, Ok ())"
    and map: "paging_map_page map_to DEMAND_PAGE_REGION_START (data_flags cpu) m2 phys2 = (m3, phys3, Ok frame2)"
    and mapped: "lookup m3 DEMAND_PAGE_REGION_START = Some (frame2, flags)" and fuel: "2 \<le> fuel"
  shows "unmap_check fuel lookup map_to unmap cpu g data =
    Some (g\<lparr>MAPPER := Some m3, PHYS := Some phys3, PAGE_FAULTS_DEMAND_PAGED := 2\<rparr>, data(frame2 := 0xFEEDFACE0BADF00D), True)"
proof -
  have free: "unat (free_page_count phys2) = unat (free_page_count phys) + 1"
    by (rule deallocate_page [OF inv live]) (use d in simp)
  have "unat (free_page_count phys + 1) = unat (free_page_count phys) + 1"
    using free unat_u64_less [of "free_page_count phys2"] by (simp add: unat_add_u64)
  then have "free_page_count phys2 = free_page_count phys + 1" using free by (simp add: word_unat_eq_iff)
  moreover let ?g = "g\<lparr>MAPPER := Some m2, PHYS := Some phys2\<rparr>"
  have "write_then_read fuel lookup map_to cpu DEMAND_PAGE_REGION_START 0xFEEDFACE0BADF00D ?g data =
      Some (g\<lparr>MAPPER := Some m3, PHYS := Some phys3, PAGE_FAULTS_DEMAND_PAGED := 2\<rparr>, data(frame2 := 0xFEEDFACE0BADF00D), 0xFEEDFACE0BADF00D)"
    using write_then_read_faults [where lookup = lookup and g = ?g and v = "0xFEEDFACE0BADF00D" and data = data, OF _ _ u(2) map mapped fuel] g(3) by simp
  moreover have "paging_unmap_page unmap DEMAND_PAGE_REGION_START m phys = (m2, phys2, Ok ())"
    using u(1) d by (simp add: paging_unmap_page_def)
  then have "with_mapper_and_phys (paging_unmap_page unmap DEMAND_PAGE_REGION_START) g = (?g, Some (Ok ()))"
    using g by (simp add: with_mapper_and_phys_def)
  ultimately show ?thesis
    using g by (simp add: unmap_check_def free_pages_now_ready)
qed

section \<open>The other checks\<close>

lemma bit_set_flag: "n < 64 \<Longrightarrow> bit (set_flag n b w) i = (if i = n then b else bit w i)"
  by (auto simp: set_flag_def bit_or_iff bit_and_iff bit_not_iff bit_exp_iff dest: bit_imp_le_length)

lemma cpu_security_check_passes:
  assumes "cpu_features_init edx ebx c = (c', f)" and "bit (cpu_efer c) 11 \<longrightarrow> edx AND push_bit 20 1 \<noteq> 0"
  shows "cpu_security_check c' f"
  using assms by (auto simp: cpu_features_init_def cpu_security_check_def Let_def bit_set_flag)

lemma component_checks: "capability_check" "sanctum_check" "ipc_check"
  by code_simp+

lemma heap_check_passes: heap_check
proof -
  have "fold (\<lambda>i v. v @ [f i]) xs acc = acc @ map f xs" for f :: "nat \<Rightarrow> u64" and xs acc
    by (induction xs arbitrary: acc) simp_all
  then show ?thesis by (auto simp: heap_check_def list_all_iff in_set_enumerate_eq simp del: upt_Suc upt_conv_Cons)
qed

lemma tally:
  "fold record_check checks new_results =
    \<lparr>cr_total = of_nat (length checks), cr_passed = of_nat (length (filter id checks))\<rparr>"
  by (induction checks rule: rev_induct) (simp_all add: record_check_def new_results_def)

lemma kernel_main_exit_iff:
  assumes "length checks < 2 ^ 32"
  shows "kernel_main_exit checks = Success \<longleftrightarrow> list_all id checks"
proof -
  have small: "length (filter id checks) < 2 ^ 32" using length_filter_le [of id checks] assms by linarith
  have "unat (of_nat n :: u32) = n" if "n < 2 ^ 32" for n using that by (simp add: unat_of_nat)
  then have "(of_nat (length (filter id checks)) :: u32) = of_nat (length checks) \<longleftrightarrow> length (filter id checks) = length checks"
    using assms small by (metis)
  also have "\<dots> \<longleftrightarrow> list_all id checks"
    by (metis (no_types, lifting) filter_id_conv length_filter_less less_irrefl list_all_iff)
  finally show ?thesis by (simp add: kernel_main_exit_def verdict_of_def tally)
qed

text \<open>What the emulator sees: the code of success exactly when every check passed, and never after a panic.\<close>

lemma exit_code_reported:
  assumes "length checks < 2 ^ 32"
  shows "exit_qemu (kernel_main_exit checks) t = t @ [PortOut 32 0xF4 0x10] \<longleftrightarrow> list_all id checks"
    and "panic_handler t \<noteq> t @ [PortOut 32 0xF4 0x10]"
  using kernel_main_exit_iff [OF assms]
  by (cases "kernel_main_exit checks", simp_all add: exit_qemu_def port_write_def take_bit_length_eq panic_handler_def)

lemma boot_phases:
  "complete EarlyBoot new_sequencer = (prefix_state 1, Ok ())"
  "complete LateBoot (prefix_state 1) = (prefix_state 2, Ok ())"
  "complete SchedulerBoot (prefix_state 2) = (prefix_state 3, Ok ())"
  "complete SanctumBoot (prefix_state 3) = (prefix_state 4, Ok ())"
  "complete IpcBoot (prefix_state 4) = (prefix_state 5, Ok ())"
  by code_simp+

end
