(* ===== verification/Syscall.thy ===== *)
theory Syscall
  imports Context Paging
begin

text \<open>
  The system call interface and the ring-3 demonstration (\<open>syscall.rs\<close>): the dispatch table, the entry stub
  with its register shuffle, the transition to ring 3 and back, and the hand-assembled user program, which is decoded from
  its bytes and executed instruction by instruction.

  Registers are numbered as the processor encodes them: 0 \<open>rax\<close>, 1 \<open>rcx\<close>, 2 \<open>rdx\<close>, 3 \<open>rbx\<close>, 4 \<open>rsp\<close>,
  5 \<open>rbp\<close>, 6 \<open>rsi\<close>, 7 \<open>rdi\<close>, 8 to 15 \<open>r8\<close> to \<open>r15\<close>. \<open>dispatch_syscall\<close> is an ordinary C-ABI function: after
  the call \<open>rax\<close> holds its result, the callee-saved registers are unchanged, and the argument \<open>clobber\<close> says what the
  compiled code leaves in the others. The interrupt frame of a trap lies on the stack of the task
  state segment and not on the kernel stack that \<open>enter_ring3\<close> leaves. Console output is not modelled.
\<close>

section \<open>The table\<close>

definition USER_CODE_ADDR :: u64 where
  "USER_CODE_ADDR = 0x666666660000"

definition USER_STACK_ADDR :: u64 where
  "USER_STACK_ADDR = 0x777777770000"

definition USER_STACK_SIZE :: u64 where
  "USER_STACK_SIZE = 4096"

definition SYS_ADD :: u64 where "SYS_ADD = 1"
definition SYS_ECHO :: u64 where "SYS_ECHO = 2"
definition SYS_REPORT :: u64 where "SYS_REPORT = 3"
definition EXIT_SYSCALL :: u64 where "EXIT_SYSCALL = 999"

text \<open>A handler takes three arguments and the value of \<open>REPORTED_VALUE\<close>, and returns its result and the new value.\<close>

type_synonym handler = "u64 \<Rightarrow> u64 \<Rightarrow> u64 \<Rightarrow> u64 \<Rightarrow> u64 \<times> u64"

definition sys_add :: handler where "sys_add a b _ reported = (a + b, reported)"
definition sys_echo :: handler where "sys_echo a _ _ reported = (a, reported)"
definition sys_report :: handler where "sys_report a _ _ reported = (0, a)"
definition sys_exit :: handler where "sys_exit _ _ _ reported = (0, reported)"

definition dispatch_syscall :: "u64 \<Rightarrow> u64 \<Rightarrow> u64 \<Rightarrow> u64 \<Rightarrow> u64 \<Rightarrow> u64 \<times> u64" where
  "dispatch_syscall number arg0 arg1 arg2 reported =
     (case (if number = SYS_ADD then Some sys_add
            else if number = SYS_ECHO then Some sys_echo
            else if number = SYS_REPORT then Some sys_report
            else if number = EXIT_SYSCALL then Some sys_exit
            else None) of
        None \<Rightarrow> (u64_max, reported)
      | Some handler \<Rightarrow> handler arg0 arg1 arg2 reported)"

section \<open>Traps\<close>

record user_state =
  u_rip :: u64
  u_reg :: "nat \<Rightarrow> u64"
  u_cs :: u64
  u_ss :: u64
  u_rflags :: u64

definition caller_saved :: "nat \<Rightarrow> bool" where
  "caller_saved i \<longleftrightarrow> i \<in> {1, 2, 6, 7, 8, 9, 10, 11}"

definition shuffle :: "(nat \<Rightarrow> u64) \<Rightarrow> nat \<Rightarrow> u64" where
  "shuffle r =
     (let r = r(1 := r 2);
          r = r(2 := r 6);
          r = r(6 := r 7);
          r = r(7 := r 0)
      in r)"

definition call_dispatch ::
    "((nat \<Rightarrow> u64) \<Rightarrow> nat \<Rightarrow> u64) \<Rightarrow> (nat \<Rightarrow> u64) \<Rightarrow> u64 \<Rightarrow> (nat \<Rightarrow> u64) \<times> u64" where
  "call_dispatch clobber r reported =
     (case dispatch_syscall (r 7) (r 6) (r 2) (r 1) reported of
        (result, reported') \<Rightarrow>
          ((\<lambda>i. if i = 0 then result else if caller_saved i then clobber r i else r i), reported'))"

text \<open>The stub either resumes ring 3 with the new registers (\<open>Inr\<close>) or abandons it (\<open>Inl\<close>).\<close>

definition syscall_entry_stub ::
    "((nat \<Rightarrow> u64) \<Rightarrow> nat \<Rightarrow> u64) \<Rightarrow> (nat \<Rightarrow> u64) \<Rightarrow> u64 \<Rightarrow> (u64 + (nat \<Rightarrow> u64)) \<times> u64" where
  "syscall_entry_stub clobber r reported =
     (if (ucast (r 0) :: u32) = ucast EXIT_SYSCALL
      then (case call_dispatch clobber (shuffle r) reported of (r', reported') \<Rightarrow> (Inl (r' 0), reported'))
      else (case call_dispatch clobber (shuffle r) reported of (r', reported') \<Rightarrow> (Inr r', reported')))"

section \<open>Ring 3\<close>

definition USER_PROGRAM :: "u8 list" where
  "USER_PROGRAM =
    [0xB8, 0x01, 0x00, 0x00, 0x00,
     0xBF, 0x07, 0x00, 0x00, 0x00,
     0xBE, 0x08, 0x00, 0x00, 0x00,
     0xCD, 0x80,
     0x89, 0xC3,
     0xB8, 0x02, 0x00, 0x00, 0x00,
     0xBF, 0xD2, 0x04, 0x00, 0x00,
     0xCD, 0x80,
     0x01, 0xC3,
     0xB8, 0x03, 0x00, 0x00, 0x00,
     0x89, 0xDF,
     0xCD, 0x80,
     0xB8, 0xE7, 0x03, 0x00, 0x00,
     0xCD, 0x80,
     0xEB, 0xFE]"

datatype instr = MovImm nat u32 | MovReg nat nat | AddReg nat nat | IntN u8 | JmpRel u8

text \<open>The encodings the program uses; the second component is the length. Only register operands are decoded.\<close>

fun imm32 :: "u8 list \<Rightarrow> u32 option" where
  "imm32 (a # b # c # d # _) = Some (ucast a OR push_bit 8 (ucast b) OR push_bit 16 (ucast c) OR push_bit 24 (ucast d))"
| "imm32 _ = None"

definition modrm :: "u8 \<Rightarrow> (nat \<times> nat) option" where
  "modrm b = (if drop_bit 6 b = 3 then Some (unat (drop_bit 3 b AND 7), unat (b AND 7)) else None)"

fun decode :: "u8 list \<Rightarrow> (instr \<times> nat) option" where
  "decode [] = None"
| "decode (op # rest) =
     (if 0xB8 \<le> op \<and> op \<le> 0xBF then map_option (\<lambda>v. (MovImm (unat (op - 0xB8)) v, 5)) (imm32 rest)
      else (case rest of
              [] \<Rightarrow> None
            | b # _ \<Rightarrow>
                if op = 0x89 then map_option (\<lambda>(src, dst). (MovReg dst src, 2)) (modrm b)
                else if op = 0x01 then map_option (\<lambda>(src, dst). (AddReg dst src, 2)) (modrm b)
                else if op = 0xCD then Some (IntN b, 2)
                else if op = 0xEB then Some (JmpRel b, 2)
                else None))"

datatype user_outcome = Running user_state u64 | Exited u64 | Faulted

text \<open>A write to a 32-bit register clears the upper half. \<open>add\<close> also sets flags, which nothing reads.\<close>

definition set32 :: "nat \<Rightarrow> u32 \<Rightarrow> (nat \<Rightarrow> u64) \<Rightarrow> nat \<Rightarrow> u64" where
  "set32 i v r = r(i := ucast v)"

definition user_step ::
    "((nat \<Rightarrow> u64) \<Rightarrow> nat \<Rightarrow> u64) \<Rightarrow> u8 list \<Rightarrow> user_state \<Rightarrow> u64 \<Rightarrow> user_outcome" where
  "user_step clobber code s reported =
     (case decode (drop (unat (u_rip s - USER_CODE_ADDR)) code) of
        None \<Rightarrow> Faulted
      | Some (i, len) \<Rightarrow>
          let r = u_reg s; s' = s\<lparr>u_rip := u_rip s + of_nat len\<rparr>
          in (case i of
                MovImm d v \<Rightarrow> Running (s'\<lparr>u_reg := set32 d v r\<rparr>) reported
              | MovReg d c \<Rightarrow> Running (s'\<lparr>u_reg := set32 d (ucast (r c)) r\<rparr>) reported
              | AddReg d c \<Rightarrow> Running (s'\<lparr>u_reg := set32 d (ucast (r d) + ucast (r c)) r\<rparr>) reported
              | JmpRel b \<Rightarrow> Running (s'\<lparr>u_rip := u_rip s' + scast b\<rparr>) reported
              | IntN v \<Rightarrow>
                  if v = 0x80 then
                    (case syscall_entry_stub clobber r reported of
                       (Inl _, reported') \<Rightarrow> Exited reported'
                     | (Inr r', reported') \<Rightarrow> Running (s'\<lparr>u_reg := r'\<rparr>) reported')
                  else Faulted))"

fun user_run ::
    "nat \<Rightarrow> ((nat \<Rightarrow> u64) \<Rightarrow> nat \<Rightarrow> u64) \<Rightarrow> u8 list \<Rightarrow> user_state \<Rightarrow> u64 \<Rightarrow> u64 option" where
  "user_run 0 clobber code s reported = None"
| "user_run (Suc n) clobber code s reported =
     (case user_step clobber code s reported of
        Running s' reported' \<Rightarrow> user_run n clobber code s' reported'
      | Exited reported' \<Rightarrow> Some reported'
      | Faulted \<Rightarrow> None)"

text \<open>
  \<open>enter_ring3\<close> saves the kernel context, returns the stack pointer it stores in \<open>KERNEL_RETURN_RSP\<close>, and
  starts ring 3 through an interrupt-return frame; the general registers keep what the kernel had in them. \<open>leave_ring3\<close> is the exit
  path of the stub after the dispatch.
\<close>

definition enter_ring3 ::
    "u64 \<Rightarrow> u64 \<Rightarrow> u64 \<Rightarrow> u64 \<Rightarrow> u64 \<Rightarrow> (nat \<Rightarrow> u64) \<Rightarrow> machine \<Rightarrow> u64 \<times> machine \<times> user_state" where
  "enter_ring3 user_code user_stack_top user_cs user_ss rflags r m =
     (let m = push (rbp m) m;
          m = push (rbx m) m;
          m = push (r12 m) m;
          m = push (r13 m) m;
          m = push (r14 m) m;
          m = push (r15 m) m;
          kernel_rsp = rsp m;
          m = push user_ss m;
          m = push user_stack_top m;
          flags = rflags OR 0x200;
          m = push flags m;
          m = push user_cs m;
          m = push user_code m;
          f = mem m; s = rsp m
      in (kernel_rsp, m\<lparr>rsp := s + 40\<rparr>,
          \<lparr>u_rip = f s, u_reg = (r(0 := flags))(4 := f (s + 24)), u_cs = f (s + 8), u_ss = f (s + 32), u_rflags = f (s + 16)\<rparr>))"

definition leave_ring3 :: "u64 \<Rightarrow> machine \<Rightarrow> machine" where
  "leave_ring3 kernel_rsp m =
     (let m = m\<lparr>rsp := kernel_rsp\<rparr>;
          m = pop (m\<lparr>r15 := peek m\<rparr>);
          m = pop (m\<lparr>r14 := peek m\<rparr>);
          m = pop (m\<lparr>r13 := peek m\<rparr>);
          m = pop (m\<lparr>r12 := peek m\<rparr>);
          m = pop (m\<lparr>rbx := peek m\<rparr>);
          m = pop (m\<lparr>rbp := peek m\<rparr>);
          m = m\<lparr>interrupts := True\<rparr>
      in pop (m\<lparr>rip := peek m\<rparr>))"

text \<open>
  \<open>run_demo_syscall\<close>: \<open>Some (g, m, None)\<close> when a page could not be mapped, \<open>Some (g, m, Some v)\<close> with the
  reported value when ring 3 has exited, \<open>None\<close> when ring 3 does not exit within the fuel.
\<close>

definition run_demo_syscall ::
    "nat \<Rightarrow> ((nat \<Rightarrow> u64) \<Rightarrow> nat \<Rightarrow> u64) \<Rightarrow> ('m, physical_allocator) map_to \<Rightarrow> cpu_control
     \<Rightarrow> u64 \<Rightarrow> u64 \<Rightarrow> u64 \<Rightarrow> (nat \<Rightarrow> u64) \<Rightarrow> u64 \<Rightarrow> 'm paging_globals \<Rightarrow> machine
     \<Rightarrow> ('m paging_globals \<times> machine \<times> u64 option) option" where
  "run_demo_syscall fuel clobber map_to cpu user_cs user_ss rflags r reported g m =
     (let code_flags = present_writable\<lparr>fl_user_accessible := True\<rparr>;
          stack_flags = flags_or code_flags (nx_flag cpu)
      in (case with_mapper_and_phys (paging_map_page map_to USER_CODE_ADDR code_flags) g of
            (g1, Some (Inr _)) \<Rightarrow>
              (case with_mapper_and_phys (paging_map_page map_to USER_STACK_ADDR stack_flags) g1 of
                 (g2, Some (Inr _)) \<Rightarrow>
                   let user_stack_top = USER_STACK_ADDR + USER_STACK_SIZE;
                       (kernel_rsp, m1, s) = enter_ring3 USER_CODE_ADDR user_stack_top user_cs user_ss rflags r m
                   in map_option (\<lambda>v. (g2, leave_ring3 kernel_rsp m1, Some v)) (user_run fuel clobber USER_PROGRAM s reported)
               | (g2, _) \<Rightarrow> Some (g2, m, None))
          | (g1, _) \<Rightarrow> Some (g1, m, None)))"

section \<open>The register shuffle\<close>

lemma shuffle_delivers [simp]:
  "shuffle r 7 = r 0" "shuffle r 6 = r 7" "shuffle r 2 = r 6" "shuffle r 1 = r 2" "shuffle r (Suc 0) = r 2"
  by (simp_all add: shuffle_def Let_def)

lemma shuffle_keeps: "i \<notin> {1, 2, 6, 7} \<Longrightarrow> shuffle r i = r i"
  by (simp add: shuffle_def Let_def)

lemma call_dispatch_closed:
  "call_dispatch clobber r reported =
     ((\<lambda>i. if i = 0 then fst (dispatch_syscall (r 7) (r 6) (r 2) (r 1) reported)
           else if caller_saved i then clobber r i else r i),
      snd (dispatch_syscall (r 7) (r 6) (r 2) (r 1) reported))"
  by (simp add: call_dispatch_def split_beta del: One_nat_def)

lemma stub_exit:
  assumes "(ucast (r 0) :: u32) = 999"
  shows "syscall_entry_stub clobber r reported =
     (let d = dispatch_syscall (r 0) (r 7) (r 6) (r 2) reported in (Inl (fst d), snd d))"
  using assms by (simp add: syscall_entry_stub_def EXIT_SYSCALL_def call_dispatch_closed Let_def)

lemma stub_continue:
  assumes "(ucast (r 0) :: u32) \<noteq> 999"
  shows "syscall_entry_stub clobber r reported =
     (let d = dispatch_syscall (r 0) (r 7) (r 6) (r 2) reported
      in (Inr (\<lambda>i. if i = 0 then fst d else if caller_saved i then clobber (shuffle r) i else r i), snd d))"
proof -
  have "shuffle r i = r i" if "\<not> caller_saved i" for i
    using that by (intro shuffle_keeps) (auto simp: caller_saved_def)
  then show ?thesis
    using assms by (simp add: syscall_entry_stub_def EXIT_SYSCALL_def call_dispatch_closed Let_def fun_eq_iff
      del: One_nat_def)
qed

section \<open>The demonstration program\<close>

lemma program_decodes:
  "decode (drop 0 USER_PROGRAM) = Some (MovImm 0 1, 5)"
  "decode (drop 5 USER_PROGRAM) = Some (MovImm 7 7, 5)"
  "decode (drop 10 USER_PROGRAM) = Some (MovImm 6 8, 5)"
  "decode (drop 15 USER_PROGRAM) = Some (IntN 0x80, 2)"
  "decode (drop 17 USER_PROGRAM) = Some (MovReg 3 0, 2)"
  "decode (drop 19 USER_PROGRAM) = Some (MovImm 0 2, 5)"
  "decode (drop 24 USER_PROGRAM) = Some (MovImm 7 1234, 5)"
  "decode (drop 29 USER_PROGRAM) = Some (IntN 0x80, 2)"
  "decode (drop 31 USER_PROGRAM) = Some (AddReg 3 0, 2)"
  "decode (drop 33 USER_PROGRAM) = Some (MovImm 0 3, 5)"
  "decode (drop 38 USER_PROGRAM) = Some (MovReg 7 3, 2)"
  "decode (drop 40 USER_PROGRAM) = Some (IntN 0x80, 2)"
  "decode (drop 42 USER_PROGRAM) = Some (MovImm 0 999, 5)"
  "decode (drop 47 USER_PROGRAM) = Some (IntN 0x80, 2)"
  by code_simp+

lemmas dispatch_defs = dispatch_syscall_def sys_add_def sys_echo_def sys_report_def sys_exit_def
  SYS_ADD_def SYS_ECHO_def SYS_REPORT_def EXIT_SYSCALL_def

lemma callee_saved_rbx [simp]: "\<not> caller_saved 3"
  by (simp add: caller_saved_def)

text \<open>The fourteen instructions before the loop, whatever the registers hold at the start.\<close>

lemma program_runs:
  assumes "u_rip s = USER_CODE_ADDR"
  shows "user_run (14 + n) clobber USER_PROGRAM s reported = Some 1249"
proof -
  have "14 + n = Suc (Suc (Suc (Suc (Suc (Suc (Suc (Suc (Suc (Suc (Suc (Suc (Suc (Suc n)))))))))))))" by simp
  then show ?thesis using assms
    by (simp only:) (simp add: user_step_def program_decodes program_decodes(1) [simplified] USER_CODE_ADDR_def Let_def set32_def stub_continue stub_exit dispatch_defs
      del: drop_Suc_Cons)
qed

section \<open>The kernel context\<close>

text \<open>The interrupt-return frame lies below the six saved registers.\<close>

lemma enter_ring3_saves:
  assumes "enter_ring3 user_code user_stack_top user_cs user_ss rflags r m = (k, m1, s)"
  shows "k = rsp m - 48" and "frame_at (mem m1) k = callee_saved m @ [peek m]" and "u_rip s = user_code"
    and "u_reg s 4 = user_stack_top" and "u_cs s = user_cs" and "u_ss s = user_ss" and "u_rflags s = rflags OR 0x200"
proof -
  have "m1 = m\<lparr>rsp := rsp m - 48, mem := (saved_mem m)(rsp m - 56 := user_ss, rsp m - 64 := user_stack_top,
      rsp m - 72 := rflags OR 0x200, rsp m - 80 := user_cs, rsp m - 88 := user_code)\<rparr>"
    and k: "k = rsp m - 48"
    and s: "u_rip s = user_code" "u_reg s 4 = user_stack_top" "u_cs s = user_cs" "u_ss s = user_ss" "u_rflags s = rflags OR 0x200"
    using assms by (auto simp: enter_ring3_def Let_def push_def saved_mem_def)
  moreover have "\<forall>a \<in> frame_cells (rsp m - 48). mem m1 a = saved_mem m a"
    using calculation(1) by (simp add: frame_cells_def)
  ultimately show "k = rsp m - 48" "frame_at (mem m1) k = callee_saved m @ [peek m]"
    using frame_at_cong [of "rsp m - 48" "mem m1" "saved_mem m"] frame_at_saved by simp_all
  show "u_rip s = user_code" "u_reg s 4 = user_stack_top" "u_cs s = user_cs" "u_ss s = user_ss"
    "u_rflags s = rflags OR 0x200" by (rule s)+
qed

lemma leave_ring3_resumes:
  "callee_saved (leave_ring3 k m) @ [rip (leave_ring3 k m)] = frame_at (mem m) k"
  "rsp (leave_ring3 k m) = k + 56" "interrupts (leave_ring3 k m)"
  by (simp_all add: leave_ring3_def Let_def pop_def peek_def callee_saved_def frame_at_def add.commute)

text \<open>The whole run, for every outcome of the two mappings.\<close>

lemma run_demo_outcome:
  assumes "14 \<le> fuel"
    and "with_mapper_and_phys (paging_map_page map_to USER_CODE_ADDR (present_writable\<lparr>fl_user_accessible := True\<rparr>)) g = (g1, r1)"
    and "with_mapper_and_phys (paging_map_page map_to USER_STACK_ADDR
           (flags_or (present_writable\<lparr>fl_user_accessible := True\<rparr>) (nx_flag cpu))) g1 = (g2, r2)"
  shows "\<exists>m'. run_demo_syscall fuel clobber map_to cpu user_cs user_ss rflags r reported g m =
      (if \<exists>frame. r1 = Some (Ok frame)
       then if \<exists>frame. r2 = Some (Ok frame) then Some (g2, m', Some 1249) else Some (g2, m, None)
       else Some (g1, m, None))
    \<and> callee_saved m' = callee_saved m \<and> rip m' = peek m \<and> rsp m' = rsp m + 8 \<and> interrupts m'"
proof -
  obtain k m1 s where e: "enter_ring3 USER_CODE_ADDR (USER_STACK_ADDR + USER_STACK_SIZE) user_cs user_ss rflags r m = (k, m1, s)"
    by (metis prod_cases3)
  note saves = enter_ring3_saves [OF e]
  obtain n where "fuel = 14 + n" using assms(1) by (metis le_Suc_ex)
  then have "user_run fuel clobber USER_PROGRAM s reported = Some 1249" using program_runs [OF saves(3)] by simp
  then have "run_demo_syscall fuel clobber map_to cpu user_cs user_ss rflags r reported g m =
      (if \<exists>frame. r1 = Some (Ok frame)
       then if \<exists>frame. r2 = Some (Ok frame) then Some (g2, leave_ring3 k m1, Some 1249) else Some (g2, m, None)
       else Some (g1, m, None))"
    using assms(2,3) e by (auto simp: run_demo_syscall_def Let_def split: option.splits sum.splits)
  moreover have "callee_saved (leave_ring3 k m1) @ [rip (leave_ring3 k m1)] = callee_saved m @ [peek m]"
    using leave_ring3_resumes(1) [of k m1] saves(2) by simp
  ultimately show ?thesis
    using leave_ring3_resumes(2,3) [of k m1] saves(1) by (intro exI [of _ "leave_ring3 k m1"]) simp
qed

section \<open>Properties\<close>

text \<open>
  C29: The system call interface. A trap whose \<open>eax\<close> is not 999 resumes ring 3 with the result of the call numbered by
  the whole of \<open>rax\<close> in \<open>rax\<close> (the wrapping sum of the first two arguments, the first argument, zero, or the maximal
  word for an unknown number), with every callee-saved register unchanged, and changes the reported value exactly for number 3.
  A trap whose \<open>eax\<close> is 999 abandons ring 3 and changes nothing, also when the upper half of \<open>rax\<close> is not zero and
  the dispatch therefore finds the number unknown.
\<close>
theorem syscall_stub_outcome:
  "case syscall_entry_stub clobber r reported of
     (Inr r', reported') \<Rightarrow>
       (ucast (r 0) :: u32) \<noteq> 999
       \<and> r' 0 = (if r 0 = 1 then r 7 + r 6 else if r 0 = 2 then r 7 else if r 0 = 3 then 0 else u64_max)
       \<and> reported' = (if r 0 = 3 then r 7 else reported)
       \<and> [r' 3, r' 4, r' 5, r' 12, r' 13, r' 14, r' 15] = [r 3, r 4, r 5, r 12, r 13, r 14, r 15]
   | (Inl v, reported') \<Rightarrow>
       (ucast (r 0) :: u32) = 999 \<and> reported' = reported \<and> v = (if r 0 = 999 then 0 else u64_max)"
proof (cases "(ucast (r 0) :: u32) = 999")
  case True
  then have "r 0 \<notin> {1, 2, 3}" by auto
  then show ?thesis using True by (simp add: stub_exit dispatch_defs)
next
  case False
  then have "r 0 \<noteq> 999" by auto
  then show ?thesis using False by (simp add: stub_continue dispatch_defs caller_saved_def)
qed

text \<open>
  C30: The ring-3 demonstration terminates and computes 1249. Fuel for fourteen instructions is enough, whatever the registers hold when ring 3 is entered and whatever
  \<open>dispatch_syscall\<close> leaves in the caller-saved registers. When both pages can be mapped, the call
  reports 1249, and the kernel resumes after its call of \<open>enter_ring3\<close> with its callee-saved registers and stack pointer restored and
  interrupts enabled; when one cannot, it returns nothing and ring 3 is not entered.
\<close>
theorem demo_program_reports:
  assumes "14 \<le> fuel"
    and "with_mapper_and_phys (paging_map_page map_to USER_CODE_ADDR (present_writable\<lparr>fl_user_accessible := True\<rparr>)) g = (g1, r1)"
    and "with_mapper_and_phys (paging_map_page map_to USER_STACK_ADDR
           (flags_or (present_writable\<lparr>fl_user_accessible := True\<rparr>) (nx_flag cpu))) g1 = (g2, r2)"
  shows "\<exists>m'. run_demo_syscall fuel clobber map_to cpu user_cs user_ss rflags r reported g m =
      (if \<exists>frame. r1 = Some (Ok frame)
       then if \<exists>frame. r2 = Some (Ok frame) then Some (g2, m', Some 1249) else Some (g2, m, None)
       else Some (g1, m, None))
    \<and> callee_saved m' = callee_saved m \<and> rip m' = peek m \<and> rsp m' = rsp m + 8 \<and> interrupts m'"
  by (rule run_demo_outcome [OF assms])

definition demo_globals :: "walk_mapper paging_globals" where
  "demo_globals = \<lparr>MAPPER = Some walk_new, PHYS = Some sample_phys, PHYS_MEM_OFFSET = Some 0, PAGE_FAULTS_DEMAND_PAGED = 0\<rparr>"

theorem demo_program_reports_witness:
  "\<exists>g' m'. run_demo_syscall 14 (\<lambda>r i. r i + 5) walk_map_to \<lparr>cpu_efer = 0, cpu_cr4 = 0, NX_ENABLED = True\<rparr> 0x1B 0x23 2 (\<lambda>i. 77) 0
       demo_globals (sample_machine 0x1000) = Some (g', m', Some 1249)
     \<and> callee_saved m' = [6, 5, 4, 3, 2, 1] \<and> rip m' = 0x1064 \<and> rsp m' = 0x1008 \<and> interrupts m'"
proof -
  let ?cpu = "\<lparr>cpu_efer = 0, cpu_cr4 = 0, NX_ENABLED = True\<rparr>"
  let ?one = "with_mapper_and_phys (paging_map_page walk_map_to USER_CODE_ADDR (present_writable\<lparr>fl_user_accessible := True\<rparr>)) demo_globals"
  let ?two = "with_mapper_and_phys (paging_map_page walk_map_to USER_STACK_ADDR
           (flags_or (present_writable\<lparr>fl_user_accessible := True\<rparr>) (nx_flag ?cpu))) (fst ?one)"
  have "map_option is_ok (snd ?one) = Some True" by code_simp
  moreover have "map_option is_ok (snd ?two) = Some True" by code_simp
  ultimately obtain f1 f2 where "snd ?one = Some (Ok f1)" "snd ?two = Some (Ok f2)"
    by (auto simp: is_ok_iff)
  then have "?one = (fst ?one, Some (Ok f1))" "?two = (fst ?two, Some (Ok f2))" by (simp_all add: prod_eq_iff)
  from demo_program_reports [OF order_refl this, of "\<lambda>r i. r i + 5" "0x1B" "0x23" 2 "\<lambda>i. 77" 0 "sample_machine 0x1000"]
  show ?thesis by (simp add: sample_machine_def callee_saved_def peek_def) blast
qed

end
