(* ===== verification/Boot_Memory.thy ===== *)
theory Boot_Memory
  imports Task_Spaces Self_Test Syscall
begin

text \<open>
  The checks of the boot test that map memory, on four-level tables: demand paging, unmapping, the second address space and the pages of
  ring 3 all draw from one allocator and change one set of tables. Each stage is shown to succeed with the frames it needs and to leave the top-level entries that
  the later stages use as they were.
\<close>

section \<open>Views\<close>

definition view_lookup :: "u64 \<Rightarrow> memory \<Rightarrow> u64 \<Rightarrow> (u64 \<times> page_flags) option" where
  "view_lookup l4 m page = map_option (\<lambda>(frame, flags, _). (frame, flags)) (translate_page (fst m) l4 page)"

definition view_unmap :: "(u64 \<Rightarrow> tables unmap) \<Rightarrow> u64 \<Rightarrow> memory unmap" where
  "view_unmap unmap l4 page m = (case unmap l4 page (fst m) of (t, r) \<Rightarrow> ((t, snd m), r))"

text \<open>A check that reads and writes data through the tables, run on the data of the view.\<close>

definition view_check ::
    "(memory paging_globals \<Rightarrow> (u64 \<Rightarrow> u64) \<Rightarrow> (memory paging_globals \<times> (u64 \<Rightarrow> u64) \<times> bool) option)
     \<Rightarrow> memory paging_globals \<Rightarrow> (memory paging_globals \<times> bool) option" where
  "view_check check g =
     Option.bind (MAPPER g) (\<lambda>m.
       map_option (\<lambda>(g, data, ok). (g\<lparr>MAPPER := map_option (\<lambda>m. (fst m, data)) (MAPPER g)\<rparr>, ok)) (check g (snd m)))"

definition view_space_check ::
    "(u64 \<Rightarrow> (tables, physical_allocator) map_to) \<Rightarrow> cpu_control \<Rightarrow> u64 \<Rightarrow> memory paging_globals \<Rightarrow> (memory paging_globals \<times> bool) option" where
  "view_space_check map_to cpu l4 g =
     Option.bind (MAPPER g) (\<lambda>m.
       case address_space_check map_to cpu (space_of l4 g m) of
         (s, None) \<Rightarrow> None
       | (s, Some ok) \<Rightarrow> Some ((sp_globals s)\<lparr>MAPPER := Some (sp_tables s, sp_data s)\<rparr>, ok))"

section \<open>Pages and frames\<close>

lemma allocate_ok_count:
  assumes "phys_inv s" and "allocate 0 s = (s', Ok a)"
  shows "phys_inv s' \<and> unat (free_page_count s') + 1 = unat (free_page_count s)"
  using assms(1)
proof (cases rule: allocate_cases [where order = 0])
  case (ok fls b)
  let ?s = "s\<lparr>pa_free_lists := fls, pa_live_blocks := bt_insert b 0 (pa_live_blocks s)\<rparr>"
  have "unat (free_page_count ?s) + 1 = unat (free_page_count s)"
    using page_accounting [OF assms(1)] page_accounting [OF ok(5)] live_pages_insert [OF ok(4), of 0 fls] by simp
  then show ?thesis using ok(3,5) assms(2) by simp
qed (use assms(2) in simp_all)

lemma frames_available_count:
  assumes "phys_inv s"
  shows "frames_available n s \<longleftrightarrow> n \<le> unat (free_page_count s)"
  using assms
proof (induction n arbitrary: s)
  case (Suc n)
  show ?case
  proof (cases "snd (allocate 0 s)")
    case (Inr a)
    then obtain s' where a: "allocate 0 s = (s', Ok a)" by (metis prod.collapse)
    note c = allocate_ok_count [OF Suc.prems a]
    then show ?thesis using Suc.IH [of s'] a by (auto simp: adapter_allocate_frame_def)
  next
    case (Inl e)
    then obtain s' where a: "allocate 0 s = (s', Err e)" by (metis prod.collapse)
    have "\<not> 0 < unat (free_page_count s)" by (rule notI, rule allocate_page [OF Suc.prems]) (use a in simp_all)
    then show ?thesis using a by (simp add: adapter_allocate_frame_def)
  qed
qed simp

lemma deallocate_free:
  assumes "phys_ready phys" and "bt_get (pa_live_blocks phys) frame = Some 0" and "frames_available n phys"
  obtains phys' where "deallocate frame phys = (phys', Ok ())" "phys_ready phys'" "frames_available (Suc n) phys'"
    "\<forall>a. free_frame phys' a \<longrightarrow> free_frame phys a \<or> a = frame"
proof -
  have inv: "phys_inv phys" using assms(1) by (simp add: phys_ready_def)
  from deallocate_page [OF inv assms(2)] obtain phys' where d: "deallocate frame phys = (phys', Ok ())" "phys_inv phys'"
    "pa_live_blocks phys' = bt_remove frame (pa_live_blocks phys)" "pa_base phys' = pa_base phys"
    "unat (free_page_count phys') = unat (free_page_count phys) + 1" and t: "pa_total_pages phys' = pa_total_pages phys" by metis
  show thesis
  proof (rule that [OF d(1)])
    show "phys_ready phys'" using d(2,4) assms(1) by (simp add: phys_ready_def)
    show "frames_available (Suc n) phys'" using d(2,5) assms(3) frames_available_count [OF inv] frames_available_count [OF d(2)] by simp
    show "\<forall>a. free_frame phys' a \<longrightarrow> free_frame phys a \<or> a = frame" using d(3,4) t by (auto simp: free_frame_def)
  qed
qed

text \<open>Clearing the last entry of a walk keeps the walk.\<close>

lemma walk_cleared:
  assumes "walk_tables t f is = Some (frame, flags, [])" and "distinct (map fst (walk_entries t f is))" and "last (walk_entries t f is) = (g, l)"
  shows "walk_entries (t(g := (t g)(l := unused_entry))) f is = walk_entries t f is
    \<and> walk_open (t(g := (t g)(l := unused_entry))) f is \<and> walk_tables (t(g := (t g)(l := unused_entry))) f is = None"
  using assms
proof (induction t f "is" rule: walk_tables.induct)
  case (2 t f i "is")
  let ?t = "t(g := (t g)(l := unused_entry))"
  have up: "\<not> fl_present (pte_flags unused_entry)" by (simp add: unused_entry_def flags_empty_def)
  show ?case
  proof (cases "is")
    case Nil
    then have "(g, l) = (f, i)" using 2(2,4) by (auto simp: Let_def split: if_splits)
    then show ?thesis using 2(2) Nil up by (simp add: Let_def is_unused_def)
  next
    case (Cons j js)
    then have e: "fl_present (pte_flags (t f i))" "\<not> pte_huge (t f i)" using 2(2) by (auto simp: Let_def split: if_splits)
    let ?w = "walk_entries t (pte_addr (t f i)) is"
    have w: "walk_entries t f (i # is) = (f, i) # ?w" using e by (simp add: Let_def)
    have "?w \<noteq> []" using Cons by simp
    then have last: "last ?w = (g, l)" using 2(4) unfolding w by simp
    then have "g \<in> fst ` set ?w" using \<open>?w \<noteq> []\<close> last_in_set [of ?w] by force
    then have "g \<noteq> f" using 2(3) unfolding w by auto
    then have same: "?t f i = t f i" by simp
    have "walk_tables t (pte_addr (t f i)) is = Some (frame, flags, [])" "distinct (map fst ?w)" using 2(2,3) e Cons unfolding w by (simp_all add: Let_def)
    then have IH: "walk_entries ?t (pte_addr (t f i)) is = ?w" "walk_open ?t (pte_addr (t f i)) is" "walk_tables ?t (pte_addr (t f i)) is = None"
      using 2(1) [OF refl _ _ _ _ last] e Cons by blast+
    have "walk_entries ?t f (i # is) = (f, i) # walk_entries ?t (pte_addr (t f i)) is"
      unfolding walk_entries.simps(2) same Let_def using e by (simp only: simp_thms if_False)
    moreover have "walk_open ?t f (i # is)" unfolding walk_open.simps(2) same using IH(2) e Cons by blast
    moreover have "walk_tables ?t f (i # is) = None" unfolding walk_tables.simps(2) same Let_def using IH(3) e Cons by (simp only: simp_thms if_False list.simps)
    ultimately show ?thesis using IH(1) w by (metis (no_types))
  qed
qed simp

section \<open>The state between the checks\<close>

text \<open>
  The allocator has \<open>n\<close> frames left and does not own the top-level table; the entries \<open>S\<close> of that table are unused.
\<close>

definition boot_view :: "u64 \<Rightarrow> nat set \<Rightarrow> nat \<Rightarrow> memory paging_globals \<Rightarrow> bool" where
  "boot_view l4 S n g \<longleftrightarrow>
     (\<exists>t d phys. MAPPER g = Some (t, d) \<and> PHYS g = Some phys \<and> PHYS_MEM_OFFSET g \<noteq> None \<and> phys_ready phys \<and> frames_available n phys
        \<and> \<not> free_frame phys l4 \<and> (\<forall>i \<in> S. is_unused (t l4 i)))"

lemma boot_view_data: "boot_view l4 S n g \<Longrightarrow> MAPPER g = Some (t, d) \<Longrightarrow> boot_view l4 S n (g\<lparr>MAPPER := Some (t, d')\<rparr>)"
  by (auto simp: boot_view_def)

lemma boot_view_mono: "boot_view l4 S n g \<Longrightarrow> S' \<subseteq> S \<Longrightarrow> boot_view l4 S' n g"
  unfolding boot_view_def by blast

lemma boot_view_less: "boot_view l4 S n g \<Longrightarrow> m \<le> n \<Longrightarrow> boot_view l4 S m g"
  unfolding boot_view_def using frames_available_less by blast

lemma stacks_open_boot_view: "stacks_open l4 S n U g \<Longrightarrow> boot_view l4 S n g"
  unfolding stacks_open_def boot_view_def stack_path_def by blast

lemma boot_view_faults: "boot_view l4 S n (g\<lparr>PAGE_FAULTS_DEMAND_PAGED := k\<rparr>) \<longleftrightarrow> boot_view l4 S n g"
  by (simp add: boot_view_def)

lemma demand_p4: "p4_index DEMAND_PAGE_REGION_START = 170"
  by (simp add: p4_index_def table_index_div DEMAND_PAGE_REGION_START_def)

lemma user_pages:
  "p4_index USER_CODE_ADDR = 204" "p4_index USER_STACK_ADDR = 238" "containing_address USER_CODE_ADDR = USER_CODE_ADDR"
  "containing_address USER_STACK_ADDR = USER_STACK_ADDR"
  by (simp_all add: p4_index_def table_index_div containing_address_def USER_CODE_ADDR_def USER_STACK_ADDR_def)

text \<open>The demand page is mapped, through tables in use, to a frame that can be returned.\<close>

definition demand_mapped :: "u64 \<Rightarrow> memory paging_globals \<Rightarrow> bool" where
  "demand_mapped l4 g \<longleftrightarrow>
     (\<exists>t d phys frame flags. MAPPER g = Some (t, d) \<and> PHYS g = Some phys
        \<and> translate_page t l4 DEMAND_PAGE_REGION_START = Some (frame, flags, []) \<and> \<not> pte_huge (last_entry t l4 (indices DEMAND_PAGE_REGION_START))
        \<and> walk_used t l4 (indices DEMAND_PAGE_REGION_START) phys \<and> frame \<notin> fst ` set (walk_entries t l4 (indices DEMAND_PAGE_REGION_START))
        \<and> bt_get (pa_live_blocks phys) frame = Some 0)"

lemma first_and_rest:
  assumes "length (walk_entries t l4 (indices page)) = 4" and "p4_index page = i"
  obtains w where "walk_entries t l4 (indices page) = (l4, i) # w" "w \<noteq> []"
proof -
  obtain "is" where "indices page = i # is" using assms(2) by (simp add: indices_def p4_index_def)
  then obtain w where "walk_entries t l4 (indices page) = (l4, i) # w" by simp
  then show thesis using that assms(1) by fastforce
qed

context page_mapper
begin

text \<open>Mapping a page under an unused top-level entry takes four frames.\<close>

lemma map_fresh:
  assumes "boot_view l4 S (4 + n) g" and "p4_index page \<in> S" and "containing_address page = page" and "fl_present flags"
    and "MAPPER g = Some (t, d)" and "PHYS g = Some phys"
  obtains t' phys' frame where
    "paging_map_page (view_map_to map_to l4) page flags (t, d) phys = ((t', d), phys', Ok frame)"
    "boot_view l4 (S - {p4_index page}) n (g\<lparr>MAPPER := Some (t', d), PHYS := Some phys'\<rparr>)"
    "translate_page t l4 page = None" "translate_page t' l4 page = Some (frame, flags, [])"
    "\<not> pte_huge (last_entry t' l4 (indices page))" "walk_used t' l4 (indices page) phys'"
    "frame \<notin> fst ` set (walk_entries t' l4 (indices page))" "bt_get (pa_live_blocks phys') frame = Some 0"
proof -
  have v: "PHYS_MEM_OFFSET g \<noteq> None" "phys_ready phys" "frames_available (4 + n) phys" "\<not> free_frame phys l4" "\<forall>i \<in> S. is_unused (t l4 i)"
    using assms(1,5,6) by (auto simp: boot_view_def)
  then have un: "is_unused (t l4 (p4_index page))" using assms(2) by blast
  note top = unused_top_open [of t l4 page, OF un]
  have used: "walk_used t l4 (indices page) phys" unfolding walk_used_def top(2) using v(4) by simp
  have "missing_tables t l4 (indices page) = 3" unfolding top(2) by (simp add: indices_def)
  then have fr: "frames_available (Suc (missing_tables t l4 (indices page) + n)) phys" using v(3) by (simp add: eval_nat_numeral)
  obtain t' phys' frame where
    m: "map_page_with (map_to l4) adapter_allocate_frame page flags t phys = (t', phys', Ok frame)"
    and r: "translate_page t' l4 page = Some (frame, flags, [])" "\<not> pte_huge (last_entry t' l4 (indices page))"
      "walk_used t' l4 (indices page) phys'" "frame \<notin> fst ` set (walk_entries t' l4 (indices page))" "bt_get (pa_live_blocks phys') frame = Some 0"
    and ch: "\<forall>g i. t' g i \<noteq> t g i \<longrightarrow> free_frame phys g \<or> (g, i) \<in> set (walk_entries t l4 (indices page)) \<and> entry_kept (t g i) (t' g i)"
    and p: "phys_ready phys'" "\<forall>a. free_frame phys' a \<longrightarrow> free_frame phys a" "frames_available n phys'"
    by (rule page_mapped [OF v(2) assms(3) top(1) used fr assms(4)])
  have "t' l4 i = t l4 i" if "i \<noteq> p4_index page" for i using ch [rule_format, of l4 i] v(4) that unfolding top(2) by auto
  then have "boot_view l4 (S - {p4_index page}) n (g\<lparr>MAPPER := Some (t', d), PHYS := Some phys'\<rparr>)"
    using v p by (auto simp: boot_view_def)
  moreover have "translate_page t l4 page = None" using un unused_not_present [OF un] by (simp add: translate_page_def indices_def p4_index_def)
  moreover have "paging_map_page (view_map_to map_to l4) page flags (t, d) phys = ((t', d), phys', Ok frame)"
    using m by (simp add: paging_map_page_def view_map_page)
  ultimately show thesis using that r by blast
qed

lemma page_fault_stage:
  assumes "boot_view l4 S (4 + n) g" and "170 \<in> S" and "PAGE_FAULTS_DEMAND_PAGED g = 0"
  obtains g' where "view_check (page_fault_check 2 (view_lookup l4) (view_map_to map_to l4) cpu) g = Some (g', True)"
    "boot_view l4 (S - {170}) n g'" "PAGE_FAULTS_DEMAND_PAGED g' = 1" "demand_mapped l4 g'"
proof -
  let ?p = DEMAND_PAGE_REGION_START and ?v = "0xDEADBEEFCAFED00D :: u64"
  obtain t d phys where g: "MAPPER g = Some (t, d)" "PHYS g = Some phys" using assms(1) by (auto simp: boot_view_def)
  have S: "p4_index ?p \<in> S" using assms(2) by (simp add: demand_p4)
  obtain t' phys' frame where
    m: "paging_map_page (view_map_to map_to l4) ?p (data_flags cpu) (t, d) phys = ((t', d), phys', Ok frame)"
    and v: "boot_view l4 (S - {p4_index ?p}) n (g\<lparr>MAPPER := Some (t', d), PHYS := Some phys'\<rparr>)"
    and tr: "translate_page t l4 ?p = None" "translate_page t' l4 ?p = Some (frame, data_flags cpu, [])"
    and w: "\<not> pte_huge (last_entry t' l4 (indices ?p))" "walk_used t' l4 (indices ?p) phys'" "frame \<notin> fst ` set (walk_entries t' l4 (indices ?p))"
      "bt_get (pa_live_blocks phys') frame = Some 0"
    by (rule map_fresh [OF assms(1) S demand_region(1) data_flags_fields(1) g])
  let ?g = "g\<lparr>MAPPER := Some (t', d), PHYS := Some phys', PAGE_FAULTS_DEMAND_PAGED := 1\<rparr>"
  let ?g' = "g\<lparr>MAPPER := Some (t', d(frame := ?v)), PHYS := Some phys', PAGE_FAULTS_DEMAND_PAGED := 1\<rparr>"
  have l: "view_lookup l4 (t, d) ?p = None" "view_lookup l4 (t', d) ?p = Some (frame, data_flags cpu)" using tr by (simp_all add: view_lookup_def)
  have "page_fault_check 2 (view_lookup l4) (view_map_to map_to l4) cpu g d = Some (?g, d(frame := ?v), True)"
    using write_then_read_faults [where lookup = "view_lookup l4" and v = ?v and data = d, OF g l(1) m l(2) order_refl] assms(3)
    by (simp add: page_fault_check_def)
  then have c: "view_check (page_fault_check 2 (view_lookup l4) (view_map_to map_to l4) cpu) g = Some (?g', True)"
    using g(1) by (simp add: view_check_def)
  have "boot_view l4 (S - {170}) n ?g'" using v unfolding demand_p4 by (simp add: boot_view_def)
  moreover have "demand_mapped l4 ?g'" unfolding demand_mapped_def using tr(2) w by simp
  ultimately show thesis by (intro that [OF c]) simp_all
qed

lemma unmap_stage:
  assumes "boot_view l4 S n g" and "170 \<notin> S" and "PAGE_FAULTS_DEMAND_PAGED g = 1" and "demand_mapped l4 g"
  obtains g' where "view_check (unmap_check 2 (view_lookup l4) (view_map_to map_to l4) (view_unmap unmap l4) cpu) g = Some (g', True)"
    "boot_view l4 S n g'" "PAGE_FAULTS_DEMAND_PAGED g' = 2"
proof -
  let ?p = DEMAND_PAGE_REGION_START and ?v = "0xFEEDFACE0BADF00D :: u64"
  obtain t d phys frame flags where g: "MAPPER g = Some (t, d)" "PHYS g = Some phys"
    and tr: "translate_page t l4 ?p = Some (frame, flags, [])" and leaf: "\<not> pte_huge (last_entry t l4 (indices ?p))"
    and used: "walk_used t l4 (indices ?p) phys" and fr: "frame \<notin> fst ` set (walk_entries t l4 (indices ?p))"
    and live: "bt_get (pa_live_blocks phys) frame = Some 0"
    using assms(4) by (auto simp: demand_mapped_def)
  have v: "PHYS_MEM_OFFSET g \<noteq> None" "phys_ready phys" "frames_available n phys" "\<not> free_frame phys l4" "\<forall>i \<in> S. is_unused (t l4 i)"
    using assms(1) g by (auto simp: boot_view_def)
  let ?w = "walk_entries t l4 (indices ?p)"
  have ind: "length (indices ?p) = 4" by (simp add: indices_def)
  have len: "length ?w = 4" using complete_walk [OF tr [unfolded translate_page_def]] unfolding ind .
  obtain w1 where w: "?w = (l4, 170) # w1" and w1: "w1 \<noteq> []"
    by (rule first_and_rest [OF len demand_p4])
  obtain f l where last: "last ?w = (f, l)" by (metis surj_pair)
  have dis: "distinct (map fst ?w)" using used by (simp add: walk_used_def)
  have "(f, l) \<in> set w1" using last w w1 last_in_set [of w1] by simp
  then have ne: "f \<noteq> l4" using dis w by force
  define t2 where "t2 = t(f := (t f)(l := unused_entry))"
  have u: "unmap l4 ?p t = (t2, Ok frame)" unfolding t2_def by (rule unmap_mapped [OF tr leaf last])
  have cl: "walk_entries t2 l4 (indices ?p) = ?w" "walk_open t2 l4 (indices ?p)" "translate_page t2 l4 ?p = None"
    using walk_cleared [OF _ dis last] tr unfolding translate_page_def t2_def by blast+
  obtain phys2 where de: "deallocate frame phys = (phys2, Ok ())" "phys_ready phys2" "frames_available (Suc n) phys2"
    "\<forall>a. free_frame phys2 a \<longrightarrow> free_frame phys a \<or> a = frame"
    by (rule deallocate_free [OF v(2) live v(3)])
  have used2: "walk_used t2 l4 (indices ?p) phys2" using used fr de(4) unfolding walk_used_def cl(1) by blast
  have "missing_tables t2 l4 (indices ?p) = 0" unfolding cl(1) len ind by simp
  then have fr2: "frames_available (Suc (missing_tables t2 l4 (indices ?p) + n)) phys2" using de(3) by simp
  obtain t3 phys3 frame2 where
    m: "map_page_with (map_to l4) adapter_allocate_frame ?p (data_flags cpu) t2 phys2 = (t3, phys3, Ok frame2)"
    and tr3: "translate_page t3 l4 ?p = Some (frame2, data_flags cpu, [])"
    and ch: "\<forall>g i. t3 g i \<noteq> t2 g i \<longrightarrow> free_frame phys2 g \<or> (g, i) \<in> set (walk_entries t2 l4 (indices ?p)) \<and> entry_kept (t2 g i) (t3 g i)"
    and p3: "phys_ready phys3" "\<forall>a. free_frame phys3 a \<longrightarrow> free_frame phys2 a" "frames_available n phys3"
    by (rule page_mapped [OF de(2) demand_region(1) cl(2) used2 fr2 data_flags_fields(1)])
  have l4nf: "\<not> free_frame phys2 l4" using used2 first_walk_entry [of l4 t2 ?p] unfolding walk_used_def by blast
  have "t3 l4 i = t l4 i" if "i \<noteq> 170" for i
  proof -
    have "(l4, i) \<notin> set ?w" using that dis w by force
    then have "t3 l4 i = t2 l4 i" using ch [rule_format, of l4 i] l4nf unfolding cl(1) by blast
    then show ?thesis using ne by (simp add: t2_def)
  qed
  then have S3: "\<forall>i \<in> S. is_unused (t3 l4 i)" using v(5) assms(2) by metis
  have lk: "view_unmap unmap l4 ?p (t, d) = ((t2, d), Ok frame)" "view_lookup l4 (t2, d) ?p = None" "view_lookup l4 (t3, d) ?p = Some (frame2, data_flags cpu)"
    using u cl(3) tr3 by (simp_all add: view_unmap_def view_lookup_def)
  have m': "paging_map_page (view_map_to map_to l4) ?p (data_flags cpu) (t2, d) phys2 = ((t3, d), phys3, Ok frame2)"
    using m by (simp add: paging_map_page_def view_map_page)
  let ?g = "g\<lparr>MAPPER := Some (t3, d), PHYS := Some phys3, PAGE_FAULTS_DEMAND_PAGED := 2\<rparr>"
  let ?g' = "g\<lparr>MAPPER := Some (t3, d(frame2 := ?v)), PHYS := Some phys3, PAGE_FAULTS_DEMAND_PAGED := 2\<rparr>"
  have inv: "phys_inv phys" using v(2) by (simp add: phys_ready_def)
  have "unmap_check 2 (view_lookup l4) (view_map_to map_to l4) (view_unmap unmap l4) cpu g d = Some (?g, d(frame2 := ?v), True)"
    by (rule unmap_check_passes [where lookup = "view_lookup l4" and unmap = "view_unmap unmap l4", OF inv g assms(3) lk(1,2) live de(1) m' lk(3) order_refl])
  then have c: "view_check (unmap_check 2 (view_lookup l4) (view_map_to map_to l4) (view_unmap unmap l4) cpu) g = Some (?g', True)"
    using g(1) by (simp add: view_check_def)
  have "boot_view l4 S n ?g'" using v(1) p3 S3 l4nf by (auto simp: boot_view_def)
  then show thesis by (intro that [OF c]) simp_all
qed

lemma space_stage:
  assumes "boot_view l4 S (5 + n) g" and "34 \<in> S"
  obtains g' where "view_space_check map_to cpu l4 g = Some (g', True)" "boot_view l4 S n g'"
proof -
  obtain t d phys where g: "MAPPER g = Some (t, d)" "PHYS g = Some phys" "PHYS_MEM_OFFSET g \<noteq> None" and ready: "phys_ready phys"
    and fr: "frames_available (Suc (Suc (3 + n))) phys" and l4: "\<not> free_frame phys l4" and S: "\<forall>i \<in> S. is_unused (t l4 i)"
    using assms(1) unfolding boot_view_def by (simp del: frames_available.simps add: eval_nat_numeral) blast
  let ?s = "space_of l4 g (t, d)"
  have un: "is_unused (sp_tables ?s (sp_cr3 ?s) (p4_index PRIVATE_REGION_ADDR))" using S assms(2) by (simp add: space_of_def private_p4)
  have s: "PHYS (sp_globals ?s) = Some phys" "phys_mem_offset (sp_globals ?s) \<noteq> None" "sp_cr3 ?s = l4" using g by (simp_all add: space_of_def phys_mem_offset_def)
  obtain s' space phys' where n: "new_address_space map_to cpu ?s = (s', Some space)"
    and p': "PHYS (sp_globals s') = Some phys'" "frames_available n phys'"
    by (rule new_space_built [of ?s phys n cpu]) (use s ready fr l4 un in \<open>simp_all del: frames_available.simps\<close>)
  obtain phys3 frame where e: "sp_globals s' = (sp_globals ?s)\<lparr>PHYS := Some phys3\<rparr>" "phys_ready phys3" "\<forall>a. free_frame phys3 a \<longrightarrow> free_frame phys a"
    "\<forall>f \<in> {l4}. sp_tables s' f = sp_tables ?s f" "sp_cr3 s' = sp_cr3 ?s"
    "translate_page (sp_tables s') (l4_frame space) PRIVATE_REGION_ADDR = Some (frame, data_flags cpu, [])"
    "sp_data s' = (sp_data ?s)(frame := PRIVATE_VALUE)"
    by (rule new_space_keeps [OF table_mapper_axioms n s(1) ready, of "{l4}"]) (use l4 s un in simp_all)
  have page: "containing_address PRIVATE_REGION_ADDR = PRIVATE_REGION_ADDR" "PRIVATE_REGION_ADDR AND 0xFFF = 0"
    by (simp_all add: containing_address_def PRIVATE_REGION_ADDR_def)
  have "private_region_absent_from_active ?s" using un s(2) by (auto simp: private_region_absent_from_active_def page)
  then have "address_space_check map_to cpu ?s = (s', Some True)"
    using n e(5-7) by (simp add: address_space_check_def switch_space_def restore_def read_active_def page)
  then have c: "view_space_check map_to cpu l4 g = Some ((sp_globals s')\<lparr>MAPPER := Some (sp_tables s', sp_data s')\<rparr>, True)"
    using g(1) by (simp add: view_space_check_def)
  have "phys3 = phys'" using e(1) p'(1) by simp
  then have "boot_view l4 S n ((sp_globals s')\<lparr>MAPPER := Some (sp_tables s', sp_data s')\<rparr>)"
    using e(1-4) p'(2) g(3) l4 S by (auto simp: boot_view_def space_of_def)
  then show thesis by (rule that [OF c])
qed

lemma syscall_stage:
  assumes "boot_view l4 S (4 + (4 + n)) g" and "204 \<in> S" and "238 \<in> S"
  obtains g' m' where "run_demo_syscall 14 clobber (view_map_to map_to l4) cpu user_cs user_ss rflags r reported g m = Some (g', m', Some 1249)"
    "boot_view l4 (S - {204, 238}) n g'"
proof -
  let ?code = "present_writable\<lparr>fl_user_accessible := True\<rparr>" and ?map = "paging_map_page (view_map_to map_to l4)"
  have pr: "fl_present ?code" "fl_present (flags_or ?code (nx_flag cpu))" by (simp_all add: present_writable_def flags_or_def)
  obtain t d phys where g: "MAPPER g = Some (t, d)" "PHYS g = Some phys" using assms(1) by (auto simp: boot_view_def)
  have S: "p4_index USER_CODE_ADDR \<in> S" using assms(2) by (simp add: user_pages)
  obtain t1 p1 f1 where m1: "?map USER_CODE_ADDR ?code (t, d) phys = ((t1, d), p1, Ok f1)"
    and v1: "boot_view l4 (S - {p4_index USER_CODE_ADDR}) (4 + n) (g\<lparr>MAPPER := Some (t1, d), PHYS := Some p1\<rparr>)"
    by (rule map_fresh [OF assms(1) S user_pages(3) pr(1) g])
  let ?g1 = "g\<lparr>MAPPER := Some (t1, d), PHYS := Some p1\<rparr>"
  have S1: "p4_index USER_STACK_ADDR \<in> S - {p4_index USER_CODE_ADDR}" using assms(3) by (simp add: user_pages)
  have g1: "MAPPER ?g1 = Some (t1, d)" "PHYS ?g1 = Some p1" by simp_all
  obtain t2 p2 f2 where m2: "?map USER_STACK_ADDR (flags_or ?code (nx_flag cpu)) (t1, d) p1 = ((t2, d), p2, Ok f2)"
    and v2: "boot_view l4 (S - {p4_index USER_CODE_ADDR} - {p4_index USER_STACK_ADDR}) n (?g1\<lparr>MAPPER := Some (t2, d), PHYS := Some p2\<rparr>)"
    by (rule map_fresh [OF v1 S1 user_pages(4) pr(2) g1])
  let ?g2 = "?g1\<lparr>MAPPER := Some (t2, d), PHYS := Some p2\<rparr>"
  have w1: "with_mapper_and_phys (?map USER_CODE_ADDR ?code) g = (?g1, Some (Ok f1))"
    and w2: "with_mapper_and_phys (?map USER_STACK_ADDR (flags_or ?code (nx_flag cpu))) ?g1 = (?g2, Some (Ok f2))"
    using g m1 m2 by (simp_all add: with_mapper_and_phys_def)
  obtain m' where "run_demo_syscall 14 clobber (view_map_to map_to l4) cpu user_cs user_ss rflags r reported g m = Some (?g2, m', Some 1249)"
    using run_demo_outcome [OF order_refl w1 w2, of clobber user_cs user_ss rflags r reported m] by auto
  moreover have "S - {p4_index USER_CODE_ADDR} - {p4_index USER_STACK_ADDR} = S - {204, 238}" by (auto simp: user_pages)
  ultimately show thesis using that v2 by metis
qed

end

end
