(* ===== verification/Sched_Spec.thy ===== *)
theory Sched_Spec
  imports Demo_Tasks
begin

text \<open>
  What the scheduler of the kernel decides, without the machine: no stacks, no stack pointers, no page tables. The kernel operations of
  \<open>scheduler_bridge.rs\<close> refine these operations step by step, so which task runs when is a function of the
  run queue and the tick counter alone.
\<close>

section \<open>The abstract scheduler\<close>

record sched =
  sc_queue :: run_queue
  sc_current :: u64
  sc_ticks :: u64
  sc_pids :: "u64 option list"
  sc_fresh :: u64
  sc_exited :: bool
  sc_exit_slot :: "nat option"

definition sched_next :: "run_queue \<Rightarrow> u64 \<Rightarrow> u64" where
  "sched_next rq now = (if 400 < now then BOOT_PID else case pick_next_task rq of Some p \<Rightarrow> p | None \<Rightarrow> BOOT_PID)"

definition sched_tick :: "sched \<Rightarrow> sched" where
  "sched_tick v =
     v\<lparr>sc_ticks := sc_ticks v + 1, sc_current := sched_next (sc_queue v) (sc_ticks v + 1),
       sc_queue := (if sc_current v = BOOT_PID then sc_queue v else update_vruntime (sc_current v) 1 (sc_queue v))\<rparr>"

definition sched_exit :: "sched \<Rightarrow> sched" where
  "sched_exit v =
     (let rq = fst (remove_process (sc_current v) (sc_queue v));
          slot = position (\<lambda>p. p = Some (sc_current v)) (sc_pids v)
      in v\<lparr>sc_queue := rq, sc_current := sched_next rq (sc_ticks v), sc_exited := True,
           sc_pids := (case slot of None \<Rightarrow> sc_pids v | Some i \<Rightarrow> (sc_pids v)[i := None]),
           sc_exit_slot := (case slot of None \<Rightarrow> sc_exit_slot v | Some i \<Rightarrow> Some i)\<rparr>)"

definition sched_spawn :: "sched \<Rightarrow> sched \<times> u64 option" where
  "sched_spawn v =
     (let pid = sc_fresh v; v = v\<lparr>sc_fresh := pid + 1\<rparr>
      in (case position (\<lambda>p. p = None) (sc_pids v) of
            None \<Rightarrow> (v, None)
          | Some i \<Rightarrow>
              (v\<lparr>sc_pids := (sc_pids v)[i := Some pid],
                 sc_queue := add_process \<lparr>proc_pid = pid, proc_class = Normal, proc_state = Ready, proc_vruntime = 0\<rparr> (sc_queue v)\<rparr>,
               Some pid)))"

definition sched_of :: "'m kernel \<Rightarrow> sched" where
  "sched_of k =
     \<lparr>sc_queue = the (SCHEDULER k), sc_current = CURRENT k, sc_ticks = TICKS k, sc_pids = map ts_pid (TASK_SLOTS k),
      sc_fresh = NEXT_PID k, sc_exited = TASK_C_EXITED k, sc_exit_slot = TASK_EXIT_SLOT k\<rparr>"

section \<open>Refinement\<close>

lemma next_task_spec: "SCHEDULER k = Some rq \<Longrightarrow> next_task k now = sched_next rq now"
  by (simp add: next_task_def sched_next_def SWITCH_TICK_BUDGET_def)

lemma pids_position: "position (\<lambda>s. ts_pid s = q) (TASK_SLOTS k) = position (\<lambda>p. p = q) (map ts_pid (TASK_SLOTS k))"
  by (simp add: position_map comp_def)

lemma store_context_pids: "map ts_pid (TASK_SLOTS (store_context p sp k)) = map ts_pid (TASK_SLOTS k)"
proof -
  have "map fst (pool_view (store_context p sp k)) = map fst (pool_view k)"
    using store_context_keeps(1) [of k p sp] by (simp only: same_pool_def)
  then show ?thesis by (simp add: comp_def)
qed

lemma refine_tick:
  assumes "SCHEDULER k = Some rq"
  shows "sched_of (on_timer_tick ra k) = sched_tick (sched_of k)"
proof -
  have c: "SCHEDULER (charged k) = Some (if CURRENT k = BOOT_PID then rq else update_vruntime (CURRENT k) 1 rq)"
    using assms by (simp add: charged_def Let_def)
  have o: "TASK_C_EXITED (charged k) = TASK_C_EXITED k" "TASK_EXIT_SLOT (charged k) = TASK_EXIT_SLOT k"
    by (simp_all add: charged_def Let_def)
  show ?thesis
    using assms c o
    by (simp add: on_timer_tick_closed [OF assms] next_task_spec sched_of_def sched_tick_def store_context_pids store_context_keeps Let_def
        same_pool_def [of k] store_context_keeps(1) [unfolded same_pool_def])
qed

lemma refine_exit:
  assumes "SCHEDULER k = Some rq"
  shows "sched_of (exit_current_task ra k) = sched_exit (sched_of k)"
proof -
  have "next_task (retired k) (TICKS k) = sched_next (fst (remove_process (CURRENT k) rq)) (TICKS k)"
    using assms by (intro next_task_spec) simp
  then show ?thesis
    using assms
    by (auto simp: exit_closed sched_of_def sched_exit_def retired_def pids_position map_update Let_def split: option.splits)
qed

lemma refine_spawn:
  assumes "SCHEDULER k = Some rq" and "spawn_task_impl map_to cpu trampoline entry space k = Some (k', r)"
  shows "sched_spawn (sched_of k) = (sched_of k', r)"
proof (cases "position (\<lambda>e. fst e = None) (pool_view k)")
  case None
  then have "position (\<lambda>p. p = None) (map ts_pid (TASK_SLOTS k)) = None" by (simp add: free_position [symmetric] pids_position)
  moreover have "k' = k\<lparr>NEXT_PID := NEXT_PID k + 1\<rparr>" "r = None"
    using assms(2) None by (simp_all add: spawn_task_impl_def free_position [symmetric] Let_def)
  ultimately show ?thesis by (simp add: sched_spawn_def sched_of_def Let_def)
next
  case (Some i)
  note v = spawn_view [OF assms(2) Some]
  have "map ts_pid (TASK_SLOTS k') = map fst (pool_view k')" by simp
  also have "\<dots> = (map ts_pid (TASK_SLOTS k))[i := Some (NEXT_PID k)]" unfolding v(2) by (simp add: map_update comp_def)
  finally have p: "map ts_pid (TASK_SLOTS k') = (map ts_pid (TASK_SLOTS k))[i := Some (NEXT_PID k)]" .
  have "position (\<lambda>p. p = None) (map ts_pid (TASK_SLOTS k)) = Some i" using Some by (simp add: free_position [symmetric] pids_position)
  then show ?thesis using v assms(1) p by (simp add: sched_spawn_def sched_of_def Let_def)
qed

section \<open>Property\<close>

text \<open>
  C36: The scheduler refines its machine-free specification. Once the queue exists, the tick, the exit and the spawn of the kernel have on the
  run queue, the current task, the slots and the tick counter exactly the effect of the abstract operation, for every machine state, return address,
  page-table mapper and entry point: a tick moves to the head of the queue and charges the task it interrupted one unit, nothing
  is scheduled after 400 ticks, an exit forgets the task, and a spawn takes the first free slot or reports that there is none.
\<close>
theorem scheduler_refines:
  assumes "SCHEDULER k = Some rq"
  shows "sched_of (on_timer_tick ra k) = sched_tick (sched_of k)
    \<and> sched_of (exit_current_task ra k) = sched_exit (sched_of k)
    \<and> (case spawn_task_impl map_to cpu trampoline entry space k of
         None \<Rightarrow> True | Some (k', r) \<Rightarrow> sched_spawn (sched_of k) = (sched_of k', r))"
  using refine_tick [OF assms] refine_exit [OF assms] refine_spawn [OF assms] by (auto split: option.splits)

theorem scheduler_refines_witness:
  "sched_of (on_timer_tick 0x900 sample_kernel) = sched_tick (sched_of sample_kernel)
    \<and> sc_current (sched_tick (sched_of sample_kernel)) = 0 \<and> sched_next new_queue 401 = BOOT_PID"
proof -
  have "SCHEDULER sample_kernel \<noteq> None" by code_simp
  then obtain rq where "SCHEDULER sample_kernel = Some rq" by blast
  note r = scheduler_refines [OF this, of "0x900" flat_map_to sample_cpu 0 0 None]
  have "sc_current (sched_tick (sched_of sample_kernel)) = 0" by code_simp
  then show ?thesis using r by (simp add: sched_next_def)
qed

end
