(* ===== verification/Demo_Run.thy ===== *)
theory Demo_Run
  imports Task_Spaces Sched_Spec
begin

text \<open>
  The demonstration runs to its end. A round is a timer tick after which the current task runs until it waits for the next interrupt. Rounds are
  executed on a state without the machine, which the real states refine; with the page tables of \<open>Task_Spaces\<close> underneath, the four
  read-backs of the boot self-test hold after 27 rounds, well within the budget of 400 ticks.
\<close>

section \<open>Rounds\<close>

fun waiting :: "task_point option \<Rightarrow> bool" where
  "waiting (Some (In_A A_hlt)) = True"
| "waiting (Some (In_B B_hlt)) = True"
| "waiting (Some (In_C (C_hlt i))) = True"
| "waiting (Some (In_D D_hlt)) = True"
| "waiting (Some (In_E E_hlt)) = True"
| "waiting _ = False"

text \<open>At most four points lie between two waits of a task.\<close>

fun run_to_hlt :: "('s \<Rightarrow> 's option) \<Rightarrow> ('s \<Rightarrow> task_point option) \<Rightarrow> nat \<Rightarrow> 's \<Rightarrow> 's option" where
  "run_to_hlt act point 0 s = Some s"
| "run_to_hlt act point (Suc n) s =
     (case act s of None \<Rightarrow> None | Some s \<Rightarrow> if waiting (point s) then Some s else run_to_hlt act point n s)"

definition demo_round ::
    "('m, physical_allocator) map_to \<Rightarrow> cpu_control \<Rightarrow> (u64 \<Rightarrow> 'm paging_globals \<Rightarrow> u64 \<Rightarrow> u64 option) \<Rightarrow> u64 \<Rightarrow> u64
     \<Rightarrow> u64 \<Rightarrow> 'm demo \<Rightarrow> 'm demo option" where
  "demo_round map_to cpu load trampoline task_d ra s =
     run_to_hlt (\<lambda>s. task_action map_to cpu load trampoline task_d ra (CURRENT (kern s)) s) (\<lambda>s. points s (CURRENT (kern s))) 4
       (s\<lparr>kern := on_timer_tick ra (kern s)\<rparr>)"

fun rounds :: "('s \<Rightarrow> 's option) \<Rightarrow> nat \<Rightarrow> 's \<Rightarrow> 's option" where
  "rounds step 0 s = Some s"
| "rounds step (Suc n) s = Option.bind (step s) (rounds step n)"

section \<open>The demonstration without the machine\<close>

record spec_demo =
  sd_sched :: sched
  sd_a :: u64
  sd_b :: u64
  sd_c :: u64
  sd_d :: u64
  sd_e :: u64
  sd_spawned :: bool
  sd_c_pid :: "u64 option"
  sd_d_slot :: "nat option"
  sd_points :: "u64 \<rightharpoonup> task_point"

definition demo_of :: "'m demo \<Rightarrow> spec_demo" where
  "demo_of s =
     \<lparr>sd_sched = sched_of (kern s), sd_a = COUNTER_A s, sd_b = COUNTER_B s, sd_c = COUNTER_C s, sd_d = COUNTER_D s, sd_e = COUNTER_E s,
      sd_spawned = TASK_D_SPAWNED s, sd_c_pid = TASK_C_PID s, sd_d_slot = TASK_D_SPAWN_SLOT s, sd_points = points s\<rparr>"

abbreviation spec_move :: "task_point option \<Rightarrow> spec_demo \<Rightarrow> spec_demo \<Rightarrow> spec_demo option" where
  "spec_move q d d' \<equiv> Some (d'\<lparr>sd_points := (sd_points d')(sc_current (sd_sched d) := q)\<rparr>)"

fun spec_point :: "spec_demo \<Rightarrow> task_point option \<Rightarrow> spec_demo option" where
  "spec_point d None = None"
| "spec_point d (Some (In_A A_count)) = spec_move (Some (In_A A_spawn)) d (d\<lparr>sd_a := sd_a d + 1\<rparr>)"
| "spec_point d (Some (In_A A_spawn)) =
     (if sc_exited (sd_sched d) \<and> \<not> sd_spawned d then
        (case sched_spawn (sd_sched d) of
           (v, None) \<Rightarrow> spec_move (Some (In_A A_hlt)) d (d\<lparr>sd_sched := v, sd_spawned := True\<rparr>)
         | (v, Some pid) \<Rightarrow>
             spec_move (Some (In_A A_hlt)) d (d\<lparr>sd_sched := v, sd_spawned := True,
               sd_d_slot := position (\<lambda>p. p = Some pid) (sc_pids v), sd_points := (sd_points d)(pid \<mapsto> In_D D_count)\<rparr>))
      else spec_move (Some (In_A A_hlt)) d d)"
| "spec_point d (Some (In_A A_hlt)) = spec_move (Some (In_A A_count)) d d"
| "spec_point d (Some (In_B B_count)) = spec_move (Some (In_B B_hlt)) d (d\<lparr>sd_b := sd_b d + 1\<rparr>)"
| "spec_point d (Some (In_B B_hlt)) = spec_move (Some (In_B B_count)) d d"
| "spec_point d (Some (In_C (C_loop i))) =
     (if i < 5 then spec_move (Some (In_C (C_hlt i))) d (d\<lparr>sd_c := sd_c d + 1\<rparr>)
      else spec_move None d (d\<lparr>sd_sched := sched_exit (sd_sched d)\<rparr>))"
| "spec_point d (Some (In_C (C_hlt i))) = spec_move (Some (In_C (C_loop (Suc i)))) d d"
| "spec_point d (Some (In_D D_count)) = spec_move (Some (In_D D_hlt)) d (d\<lparr>sd_d := sd_d d + 1\<rparr>)"
| "spec_point d (Some (In_D D_hlt)) = spec_move (Some (In_D D_count)) d d"
| "spec_point d (Some (In_E E_read)) = spec_move (Some (In_E (E_value PRIVATE_VALUE))) d d"
| "spec_point d (Some (In_E (E_value v))) =
     spec_move (Some (In_E E_hlt)) d (if v = PRIVATE_VALUE then d\<lparr>sd_e := sd_e d + 1\<rparr> else d)"
| "spec_point d (Some (In_E E_hlt)) = spec_move (Some (In_E E_read)) d d"

definition current_point :: "spec_demo \<Rightarrow> task_point option" where
  "current_point d = sd_points d (sc_current (sd_sched d))"

definition spec_round :: "spec_demo \<Rightarrow> spec_demo option" where
  "spec_round d = run_to_hlt (\<lambda>d. spec_point d (current_point d)) current_point 4 (d\<lparr>sd_sched := sched_tick (sd_sched d)\<rparr>)"

section \<open>Refinement\<close>

lemma demo_kernel_base: "demo_kernel space k0 d k \<Longrightarrow> pool_base k"
  by (simp add: demo_kernel_def pool_inv_def)

lemma demo_inv_scheduler:
  assumes "demo_inv space k0 s"
  obtains rq where "SCHEDULER (kern s) = Some rq"
proof -
  have "demo_kernel space k0 (TASK_D_SPAWNED s) (kern s)" using assms by (simp add: demo_inv_def)
  from pool_baseD(6) [OF demo_kernel_base [OF this]] that show thesis by blast
qed

lemma demo_spawn_total:
  assumes "demo_kernel space k0 False k" and "TASK_C_EXITED k"
  shows "\<exists>k' r. spawn_task map_to cpu trampoline task_d k = Some (k', r)"
proof -
  note kd = assms(1) [unfolded demo_kernel_def]
  have f: "position (\<lambda>e. fst e = None) (pool_view k) = Some 2" using kd assms(2) demo_slots_position(1) by simp
  have "length (MAPPED k) = 8" "MAPPED k ! 2" 
    using kd pool_baseD(2) [OF demo_kernel_base [OF assms(1)]] by (simp_all add: MAX_SLOTS_def)
  then have "ensure_slot_mapped map_to cpu 2 (globals k) (MAPPED k) = Some (globals k, MAPPED k, slot_stack_base 2 + STACK_SIZE)"
    by (simp add: ensure_slot_mapped_def Let_def)
  from spawn_succeeds [OF f this] show ?thesis unfolding spawn_task_def by blast
qed

lemma action_refines:
  assumes inv: "demo_inv space k0 s"
    and reads: "points s (CURRENT (kern s)) = Some (In_E E_read) \<Longrightarrow> load (cr3 (kern s)) (globals (kern s)) PRIVATE_REGION_ADDR = Some PRIVATE_VALUE"
  shows "map_option demo_of (task_action map_to cpu load trampoline task_d ra (CURRENT (kern s)) s) = spec_point (demo_of s) (current_point (demo_of s))"
proof -
  let ?c = "CURRENT (kern s)"
  have cp: "current_point (demo_of s) = points s ?c" by (simp add: current_point_def demo_of_def sched_of_def)
  obtain rq where rq: "SCHEDULER (kern s) = Some rq" by (rule demo_inv_scheduler [OF inv])
  have sp: "map_option demo_of (task_action map_to cpu load trampoline task_d ra ?c s) = spec_point (demo_of s) (current_point (demo_of s))"
    if "points s ?c = Some (In_A A_spawn)" "TASK_C_EXITED (kern s)" "\<not> TASK_D_SPAWNED s"
  proof -
    have "demo_kernel space k0 False (kern s)" using inv that(3) by (simp add: demo_inv_def)
    from demo_spawn_total [OF this that(2)] obtain k' r where s: "spawn_task map_to cpu trampoline task_d (kern s) = Some (k', r)" by blast
    have "sched_spawn (sched_of (kern s)) = (sched_of k', r)" using refine_spawn [OF rq] s by (simp add: spawn_task_def)
    then show ?thesis
      using that s unfolding cp
      by (auto simp: task_action_def demo_of_def slot_index_for_pid_def pids_position sched_of_def split: option.splits)
  qed
  have ex: "sched_of (exit_current_task ra (kern s)) = sched_exit (sched_of (kern s))" by (rule refine_exit [OF rq])
  show ?thesis
  proof (cases "points s ?c = Some (In_A A_spawn) \<and> TASK_C_EXITED (kern s) \<and> \<not> TASK_D_SPAWNED s")
    case False
    then show ?thesis
      using reads ex unfolding cp
      by (cases "(demo_of s, points s ?c)" rule: spec_point.cases) (auto simp: task_action_def demo_of_def sched_of_def)
  qed (use sp in blast)
qed

lemma demo_steps_trans:
  assumes "demo_steps map_to cpu load trampoline task_d s s'" and "demo_steps map_to cpu load trampoline task_d s' s''"
  shows "demo_steps map_to cpu load trampoline task_d s s''"
  using assms(2,1) by (induction rule: demo_steps.induct) (auto intro: demo_steps.intros)

text \<open>The reads of the task with the private page succeed.\<close>

definition reads_ok :: "(u64 \<Rightarrow> 'm paging_globals \<Rightarrow> u64 \<Rightarrow> u64 option) \<Rightarrow> u64 option \<Rightarrow> 'm kernel \<Rightarrow> bool" where
  "reads_ok load space k0 \<longleftrightarrow> (\<forall>s. demo_inv space k0 s \<and> CURRENT (kern s) = 3
     \<longrightarrow> load (cr3 (kern s)) (globals (kern s)) PRIVATE_REGION_ADDR = Some PRIVATE_VALUE)"

lemma demo_run_refines:
  fixes map_to :: "('m, physical_allocator) map_to" and cpu :: cpu_control and load :: "u64 \<Rightarrow> 'm paging_globals \<Rightarrow> u64 \<Rightarrow> u64 option"
    and trampoline task_d ra :: u64
  defines "act \<equiv> \<lambda>s :: 'm demo. task_action map_to cpu load trampoline task_d ra (CURRENT (kern s)) s"
    and "pt \<equiv> \<lambda>s :: 'm demo. points s (CURRENT (kern s))"
  assumes "reads_ok load space k0" and "demo_inv space k0 s"
  shows "map_option demo_of (run_to_hlt act pt n s) = run_to_hlt (\<lambda>d. spec_point d (current_point d)) current_point n (demo_of s)
    \<and> (\<forall>s' \<in> set_option (run_to_hlt act pt n s). demo_inv space k0 s' \<and> demo_steps map_to cpu load trampoline task_d s s')"
  using assms(4)
proof (induction n arbitrary: s)
  case 0
  then show ?case by (simp add: demo_steps.intros)
next
  case (Suc n)
  have pt: "point_ok space s (CURRENT (kern s)) (points s (CURRENT (kern s)))" using Suc.prems by (simp add: demo_inv_def)
  have "load (cr3 (kern s)) (globals (kern s)) PRIVATE_REGION_ADDR = Some PRIVATE_VALUE" if "points s (CURRENT (kern s)) = Some (In_E E_read)"
    using assms(3) Suc.prems pt that by (simp add: reads_ok_def)
  from action_refines [OF Suc.prems, of load map_to cpu trampoline task_d ra, OF this]
  have a: "map_option demo_of (act s) = spec_point (demo_of s) (current_point (demo_of s))" by (simp add: act_def)
  show ?case
  proof (cases "act s")
    case None
    then show ?thesis using a [symmetric] by simp
  next
    case (Some s1)
    then have s1: "demo_step map_to cpu load trampoline task_d s s1" unfolding act_def by (rule demo_step.action)
    then have i1: "demo_inv space k0 s1" using Suc.prems by (rule demo_inv_step)
    have d: "demo_steps map_to cpu load trampoline task_d s s1" by (rule demo_steps.intros(2) [OF demo_steps.intros(1) s1])
    have sp: "spec_point (demo_of s) (current_point (demo_of s)) = Some (demo_of s1)" using a [symmetric] Some by simp
    have w: "current_point (demo_of s1) = pt s1" by (simp add: current_point_def demo_of_def sched_of_def pt_def)
    show ?thesis
      using Suc.IH [OF i1] i1 d Some sp w demo_steps_trans [OF d] by (cases "waiting (pt s1)") auto
  qed
qed

lemma round_refines:
  assumes "reads_ok load space k0" and "demo_inv space k0 s"
  shows "map_option demo_of (demo_round map_to cpu load trampoline task_d ra s) = spec_round (demo_of s)
    \<and> (\<forall>s' \<in> set_option (demo_round map_to cpu load trampoline task_d ra s).
         demo_inv space k0 s' \<and> demo_steps map_to cpu load trampoline task_d s s')"
proof -
  let ?s = "s\<lparr>kern := on_timer_tick ra (kern s)\<rparr>"
  obtain rq where rq: "SCHEDULER (kern s) = Some rq" by (rule demo_inv_scheduler [OF assms(2)])
  have i: "demo_inv space k0 ?s" by (rule demo_inv_tick [OF assms(2)])
  have t: "demo_of ?s = (demo_of s)\<lparr>sd_sched := sched_tick (sd_sched (demo_of s))\<rparr>" by (simp add: demo_of_def refine_tick [OF rq])
  have d: "demo_steps map_to cpu load trampoline task_d s ?s" by (rule demo_steps.intros(2) [OF demo_steps.intros(1) demo_step.preempt])
  show ?thesis
    using demo_run_refines [OF assms(1) i, where map_to = map_to and cpu = cpu and trampoline = trampoline and task_d = task_d and ra = ra and n = 4]
      demo_steps_trans [OF d] unfolding demo_round_def spec_round_def t by blast
qed

lemma rounds_refine:
  assumes "reads_ok load space k0" and "demo_inv space k0 s"
  shows "map_option demo_of (rounds (demo_round map_to cpu load trampoline task_d ra) n s) = rounds spec_round n (demo_of s)
    \<and> (\<forall>s' \<in> set_option (rounds (demo_round map_to cpu load trampoline task_d ra) n s).
         demo_inv space k0 s' \<and> demo_steps map_to cpu load trampoline task_d s s')"
  using assms(2)
proof (induction n arbitrary: s)
  case 0
  then show ?case by (simp add: demo_steps.intros)
next
  case (Suc n)
  note r = round_refines [OF assms(1) Suc.prems, of map_to cpu trampoline task_d ra]
  show ?case
  proof (cases "demo_round map_to cpu load trampoline task_d ra s")
    case None
    then show ?thesis using conjunct1 [OF r, symmetric] by simp
  next
    case (Some s1)
    then have i1: "demo_inv space k0 s1" and d: "demo_steps map_to cpu load trampoline task_d s s1" using r by auto
    have "spec_round (demo_of s) = Some (demo_of s1)" using conjunct1 [OF r, symmetric] Some by simp
    then show ?thesis using Suc.IH [OF i1] demo_steps_trans [OF d] Some by simp
  qed
qed

section \<open>The whole run\<close>

definition spec_start :: spec_demo where
  "spec_start =
     \<lparr>sd_sched = \<lparr>sc_queue = fold (\<lambda>pid. add_process \<lparr>proc_pid = pid, proc_class = Normal, proc_state = Ready, proc_vruntime = 0\<rparr>) [0, 1, 2, 3] new_queue,
        sc_current = BOOT_PID, sc_ticks = 0, sc_pids = [Some 0, Some 1, Some 2, Some 3, None, None, None, None], sc_fresh = 4,
        sc_exited = False, sc_exit_slot = None\<rparr>,
      sd_a = 0, sd_b = 0, sd_c = 0, sd_d = 0, sd_e = 0, sd_spawned = False, sd_c_pid = Some 2, sd_d_slot = None,
      sd_points = [0 \<mapsto> In_A A_count, 1 \<mapsto> In_B B_count, 2 \<mapsto> In_C (C_loop 0), 3 \<mapsto> In_E E_read]\<rparr>"

definition spec_passed :: "spec_demo \<Rightarrow> bool" where
  "spec_passed d \<longleftrightarrow> 0 < sd_a d \<and> 0 < sd_b d \<and> 5 \<le> sd_c d \<and> sc_exited (sd_sched d) \<and> sd_c_pid d = Some 2
     \<and> get_process 2 (sc_queue (sd_sched d)) = None \<and> 0 < sd_d d \<and> sc_exit_slot (sd_sched d) = Some 2 \<and> sd_d_slot d = Some 2
     \<and> 0 < sd_e d"

lemma spec_run: "map_option (\<lambda>d. spec_passed d \<and> sc_ticks (sd_sched d) = 27) (rounds spec_round 27 spec_start) = Some True"
  by code_simp

lemma demo_init_spec:
  assumes "demo_init map_to cpu new_space trampoline a b c e (boot_kernel g l4 m) = Some s" and "slot_index_for_pid 3 (kern s) \<noteq> None"
  shows "demo_of s = spec_start"
proof -
  from assms(1) obtain k r where i: "init_tasks map_to cpu new_space trampoline a b c e (boot_kernel g l4 m) = Some (k, r)"
    and s: "s = \<lparr>kern = k, COUNTER_A = 0, COUNTER_B = 0, COUNTER_C = 0, COUNTER_D = 0, COUNTER_E = 0,
         TASK_D_SPAWNED = False, TASK_C_PID = r, TASK_D_SPAWN_SLOT = None,
         points = [0 \<mapsto> In_A A_count, 1 \<mapsto> In_B B_count, 2 \<mapsto> In_C (C_loop 0)]
           (3 := if slot_index_for_pid 3 k = None then None else Some (In_E E_read))\<rparr>"
    by (auto simp: demo_init_def)
  obtain k3 g' space where r: "r = Some 2"
    and rest: "case space of None \<Rightarrow> k = k3\<lparr>globals := g'\<rparr>
     | Some f \<Rightarrow> spawn_task_impl map_to cpu trampoline e (Some f) (k3\<lparr>globals := g'\<rparr>) = Some (k, Some 3)"
    and v3: "pool_view k3 = demo_slots (Some 2, None) (None, None)" and n3: "NEXT_PID k3 = 3"
    and st: "\<not> TASK_C_EXITED k3" "TASK_EXIT_SLOT k3 = None" "CURRENT k3 = BOOT_PID" "TICKS k3 = 0"
      "SCHEDULER k3 = Some (fold (\<lambda>pid. add_process \<lparr>proc_pid = pid, proc_class = Normal, proc_state = Ready, proc_vruntime = 0\<rparr>) [0, 1, 2] new_queue)"
    by (rule init_stages [OF i])
  have "space \<noteq> None"
  proof
    assume "space = None"
    then have "pool_view k = demo_slots (Some 2, None) (None, None)" using rest v3 by simp
    then have "\<not> live k 3" using live_demo_slots [of k _ _ 3] by simp
    then show False using assms(2) live_slot [of k 3] by (simp add: s)
  qed
  then obtain f where "spawn_task_impl map_to cpu trampoline e (Some f) (k3\<lparr>globals := g'\<rparr>) = Some (k, Some 3)" using rest by auto
  note sv = spawn_view [OF this, of 3]
  have f3: "position (\<lambda>e. fst e = None) (pool_view (k3\<lparr>globals := g'\<rparr>)) = Some 3" using v3 demo_slots_position(2) by simp
  note sv = sv [OF f3]
  have "map ts_pid (TASK_SLOTS k) = map fst (pool_view k)" by simp
  also have "\<dots> = map fst (demo_slots (Some 2, None) (Some 3, Some f))" using sv(2) v3 n3 by simp
  also have "\<dots> = [Some 0, Some 1, Some 2, Some 3, None, None, None, None]" by (simp add: demo_slots_def numeral_eq_Suc)
  finally have p: "map ts_pid (TASK_SLOTS k) = [Some 0, Some 1, Some 2, Some 3, None, None, None, None]" .
  have "sched_of k = sd_sched spec_start"
    using sv(3,5,8,9,12,13) st n3 p by (simp add: sched_of_def spec_start_def)
  then show ?thesis using assms(2) r by (auto simp: demo_of_def s spec_start_def)
qed

lemma readbacks_of_spec:
  assumes "spec_passed (demo_of s)" and "demo_inv space k0 s"
  shows "both_tasks_made_real_progress s \<and> task_c_really_exited s \<and> task_reused_a_guarded_slot s \<and> task_e_verified_own_address_space s"
proof -
  obtain rq where "SCHEDULER (kern s) = Some rq" by (rule demo_inv_scheduler [OF assms(2)])
  then show ?thesis
    using assms(1)
    by (auto simp: spec_passed_def demo_of_def sched_of_def both_tasks_made_real_progress_def task_c_really_exited_def
        task_reused_a_guarded_slot_def task_e_verified_own_address_space_def)
qed

section \<open>Property\<close>

text \<open>
  C37: The demonstration completes. From a sound physical allocator and a top-level table without the two regions, once \<open>init\<close> has
  spawned its four tasks, the run in which every task reaches its next \<open>hlt\<close> between two timer ticks neither panics nor faults, and after
  27 ticks all four read-backs of the boot self-test are true: both counting tasks have run, the third has counted to five and is
  gone, its slot has been reused by a task that has run, and the task with the private address space has seen its value. This
  is an execution of the kernel, within the tick budget.
\<close>
theorem demo_completes:
  assumes "table_mapper map_to" and "MAPPER g = Some (t, d)" and "PHYS g = Some phys" and "phys_ready phys"
    and "\<not> free_frame phys l4" and "is_unused (t l4 (p4_index REGION_BASE))" and "is_unused (t l4 (p4_index PRIVATE_REGION_ADDR))"
    and "demo_init (view_map_to map_to l4) cpu (view_new_space map_to cpu l4) trampoline a b c e (boot_kernel g l4 m) = Some s0"
    and "slot_index_for_pid 3 (kern s0) \<noteq> None"
  shows "\<exists>s. rounds (demo_round (view_map_to map_to l4) cpu view_load trampoline task_d ra) 27 s0 = Some s
    \<and> demo_steps (view_map_to map_to l4) cpu view_load trampoline task_d s0 s \<and> TICKS (kern s) = 27
    \<and> both_tasks_made_real_progress s \<and> task_c_really_exited s \<and> task_reused_a_guarded_slot s \<and> task_e_verified_own_address_space s"
proof -
  obtain pl4 where i: "demo_inv (Some pl4) (kern s0) s0" and dl: "DEFAULT_L4_FRAME (kern s0) = Some l4"
    and v: "view_inv l4 (Some pl4) (flag_pages (MAPPED (kern s0))) (globals (kern s0))"
    by (rule demo_init_memory [OF assms(1-9)])
  have reads: "reads_ok view_load (Some pl4) (kern s0)"
    unfolding reads_ok_def
  proof (intro allI impI)
    fix s assume h: "demo_inv (Some pl4) (kern s0) s \<and> CURRENT (kern s) = 3"
    from demo_inv_reads [OF conjunct1 [OF h] dl v] h
    show "view_load (cr3 (kern s)) (globals (kern s)) PRIVATE_REGION_ADDR = Some PRIVATE_VALUE" by auto
  qed
  let ?r = "rounds (demo_round (view_map_to map_to l4) cpu view_load trampoline task_d ra) 27 s0"
  note rr = rounds_refine [OF reads i, of "view_map_to map_to l4" cpu trampoline task_d ra 27]
  obtain ds where ds: "rounds spec_round 27 spec_start = Some ds" "spec_passed ds" "sc_ticks (sd_sched ds) = 27" using spec_run by auto
  then obtain s where s: "?r = Some s" "demo_of s = ds" using rr demo_init_spec [OF assms(8,9)] by auto
  then have inv: "demo_inv (Some pl4) (kern s0) s" and st: "demo_steps (view_map_to map_to l4) cpu view_load trampoline task_d s0 s" using rr by auto
  have "TICKS (kern s) = 27" using ds(3) s(2) by (auto simp: demo_of_def sched_of_def)
  then show ?thesis using s st readbacks_of_spec [OF _ inv] ds(2) by auto
qed

theorem demo_completes_witness:
  "\<exists>s0 s. demo_init (view_map_to table_map_to 0x1000) sample_cpu (view_new_space table_map_to sample_cpu 0x1000) 0x400 0x500 0x600 0x700 0x800
      (boot_kernel sample_memory 0x1000 (sample_machine 0x9000)) = Some s0
    \<and> rounds (demo_round (view_map_to table_map_to 0x1000) sample_cpu view_load 0x400 0xA00 0x900) 27 s0 = Some s \<and> task_reused_a_guarded_slot s"
proof -
  obtain s0 where s0: "demo_init (view_map_to table_map_to 0x1000) sample_cpu (view_new_space table_map_to sample_cpu 0x1000) 0x400 0x500 0x600 0x700 0x800
      (boot_kernel sample_memory 0x1000 (sample_machine 0x9000)) = Some s0" and e: "slot_index_for_pid 3 (kern s0) \<noteq> None"
    by (rule sample_memory_init)
  from demo_completes [OF four_level.table_mapper_axioms sample_memory_fields(1,2) sample_memory_phys(1,3) sample_memory_empty sample_memory_empty s0 e, of "0xA00" "0x900"]
  show ?thesis using s0 by blast
qed

end
