(* ===== verification/Boot_Wait.thy ===== *)
theory Boot_Wait
  imports Demo_Run
begin

text \<open>
  The loop at the end of the boot test in which \<open>kernel_main\<close> waits for interrupts. The first tick takes the processor away from it; the tasks run until the
  tick budget is spent, and the tick after that hands the processor back. Ticks interrupt a task anywhere: \<open>pace i\<close> is the number of points that are
  executed between tick \<open>i\<close> and the next one, unless the task waits for that tick in \<open>hlt\<close> before. The loop is shown to end for every pace, with all memory as \<open>init\<close>
  left it, and with every read-back of the self-test true when the tasks reach their \<open>hlt\<close> between ticks.
\<close>

section \<open>The loop\<close>

text \<open>
  One \<open>hlt\<close> of \<open>kernel_main\<close>: it returns after the first tick that leaves \<open>kernel_main\<close> running. The fuel bounds the ticks.
\<close>

fun boot_hlt ::
    "('m, physical_allocator) map_to \<Rightarrow> cpu_control \<Rightarrow> (u64 \<Rightarrow> 'm paging_globals \<Rightarrow> u64 \<Rightarrow> u64 option) \<Rightarrow> u64 \<Rightarrow> u64
     \<Rightarrow> u64 \<Rightarrow> (nat \<Rightarrow> nat) \<Rightarrow> nat \<Rightarrow> 'm demo \<Rightarrow> 'm demo option" where
  "boot_hlt map_to cpu load trampoline task_d ra pace 0 s = None"
| "boot_hlt map_to cpu load trampoline task_d ra pace (Suc n) s =
     (let s = s\<lparr>kern := on_timer_tick ra (kern s)\<rparr>
      in if CURRENT (kern s) = BOOT_PID then Some s
         else Option.bind
           (run_to_hlt (\<lambda>s. task_action map_to cpu load trampoline task_d ra (CURRENT (kern s)) s) (\<lambda>s. points s (CURRENT (kern s)))
              (pace (unat (TICKS (kern s)))) s)
           (boot_hlt map_to cpu load trampoline task_d ra pace n))"

definition wait_loop ::
    "('m, physical_allocator) map_to \<Rightarrow> cpu_control \<Rightarrow> (u64 \<Rightarrow> 'm paging_globals \<Rightarrow> u64 \<Rightarrow> u64 option) \<Rightarrow> u64 \<Rightarrow> u64
     \<Rightarrow> u64 \<Rightarrow> (nat \<Rightarrow> nat) \<Rightarrow> 'm demo \<Rightarrow> 'm demo option" where
  "wait_loop map_to cpu load trampoline task_d ra pace s = rounds (boot_hlt map_to cpu load trampoline task_d ra pace 401) 1000 s"

text \<open>A round of a given pace, and its specification.\<close>

definition paced_round ::
    "('m, physical_allocator) map_to \<Rightarrow> cpu_control \<Rightarrow> (u64 \<Rightarrow> 'm paging_globals \<Rightarrow> u64 \<Rightarrow> u64 option) \<Rightarrow> u64 \<Rightarrow> u64
     \<Rightarrow> u64 \<Rightarrow> nat \<Rightarrow> 'm demo \<Rightarrow> 'm demo option" where
  "paced_round map_to cpu load trampoline task_d ra n s =
     run_to_hlt (\<lambda>s. task_action map_to cpu load trampoline task_d ra (CURRENT (kern s)) s) (\<lambda>s. points s (CURRENT (kern s))) n
       (s\<lparr>kern := on_timer_tick ra (kern s)\<rparr>)"

definition spec_paced :: "nat \<Rightarrow> spec_demo \<Rightarrow> spec_demo option" where
  "spec_paced n d = run_to_hlt (\<lambda>d. spec_point d (current_point d)) current_point n (d\<lparr>sd_sched := sched_tick (sd_sched d)\<rparr>)"

lemma paced_refines:
  assumes "reads_ok load space k0" and "demo_inv space k0 s"
  shows "map_option demo_of (paced_round map_to cpu load trampoline task_d ra n s) = spec_paced n (demo_of s)"
proof -
  let ?s = "s\<lparr>kern := on_timer_tick ra (kern s)\<rparr>"
  obtain rq where rq: "SCHEDULER (kern s) = Some rq" by (rule demo_inv_scheduler [OF assms(2)])
  have "demo_of ?s = (demo_of s)\<lparr>sd_sched := sched_tick (sd_sched (demo_of s))\<rparr>" by (simp add: demo_of_def refine_tick [OF rq])
  then show ?thesis
    using demo_run_refines [OF assms(1) demo_inv_tick [OF assms(2)], where map_to = map_to and cpu = cpu and trampoline = trampoline and task_d = task_d and ra = ra and n = n]
    unfolding paced_round_def spec_paced_def by metis
qed

section \<open>The counters only grow\<close>

definition only_normal :: "run_queue \<Rightarrow> bool" where
  "only_normal rq \<longleftrightarrow> (\<forall>k p. get_process k rq = Some p \<longrightarrow> proc_class p = Normal)"

abbreviation counts :: "spec_demo \<Rightarrow> u64 list" where
  "counts d \<equiv> [sd_a d, sd_b d, sd_d d, sd_e d]"

definition within :: "nat \<Rightarrow> spec_demo \<Rightarrow> bool" where
  "within N d \<longleftrightarrow> (\<forall>c \<in> set (counts d). unat c \<le> N)"

definition settled :: "spec_demo \<Rightarrow> bool" where
  "settled d \<longleftrightarrow> sc_exited (sd_sched d) \<and> (\<forall>c \<in> set (counts d). 0 < c)"

lemma only_normal_ops:
  assumes "only_normal rq"
  shows "only_normal (update_vruntime k u rq)" and "only_normal (fst (remove_process k rq))"
    and "proc_class p = Normal \<Longrightarrow> only_normal (add_process p rq)"
  using assms
  by (auto simp: only_normal_def get_process_def update_vruntime_def remove_process_def add_process_def Let_def split: option.splits priority_class.splits)

lemma count_grows:
  assumes "unat c \<le> N" and "N < 2 ^ 63"
  shows "unat (c + 1 :: u64) \<le> Suc N" and "0 < c + 1"
proof -
  have "unat c + 1 < 2 ^ 64" using assms by simp
  then have "unat (c + 1) = unat c + 1" by (simp add: unat_add_u64)
  then show "unat (c + 1) \<le> Suc N" "0 < c + 1" using assms by (simp_all add: word_less_nat_alt)
qed

lemma spec_point_grows:
  assumes "spec_point d q = Some d'" and "only_normal (sc_queue (sd_sched d))" and "within N d" and "N < 2 ^ 63"
  shows "only_normal (sc_queue (sd_sched d'))" and "within (Suc N) d'" and "settled d \<Longrightarrow> settled d'"
    and "sc_ticks (sd_sched d') = sc_ticks (sd_sched d)"
    and "sc_current (sd_sched d') = sc_current (sd_sched d)
      \<or> sc_current (sd_sched d') = sched_next (sc_queue (sd_sched d')) (sc_ticks (sd_sched d'))"
proof -
  note c = count_grows [OF _ assms(4)]
  obtain v r where v: "sched_spawn (sd_sched d) = (v, r)" by (metis surj_pair)
  then have sp: "only_normal (sc_queue v)" "sc_ticks v = sc_ticks (sd_sched d)" "sc_exited v = sc_exited (sd_sched d)"
    "sc_current v = sc_current (sd_sched d)"
    using only_normal_ops(3) assms(2) by (auto simp: sched_spawn_def Let_def split: option.splits)
  have ex: "only_normal (sc_queue (sched_exit (sd_sched d)))" "sc_ticks (sched_exit (sd_sched d)) = sc_ticks (sd_sched d)"
    "sc_exited (sched_exit (sd_sched d))"
    "sc_current (sched_exit (sd_sched d)) = sched_next (sc_queue (sched_exit (sd_sched d))) (sc_ticks (sd_sched d))"
    using only_normal_ops(2) assms(2) by (auto simp: sched_exit_def Let_def)
  show "only_normal (sc_queue (sd_sched d'))"
    using assms(1,2) sp ex by (cases "(d, q)" rule: spec_point.cases) (auto simp: v split: if_splits option.splits)
  show "within (Suc N) d'"
    using assms(1,3) c(1) by (cases "(d, q)" rule: spec_point.cases) (auto simp: v within_def split: if_splits option.splits intro: le_SucI)
  show "settled d'" if "settled d"
    using assms(1,3) that c(2) sp ex by (cases "(d, q)" rule: spec_point.cases) (auto simp: v within_def settled_def split: if_splits option.splits)
  show "sc_ticks (sd_sched d') = sc_ticks (sd_sched d)"
    using assms(1) sp ex by (cases "(d, q)" rule: spec_point.cases) (auto simp: v split: if_splits option.splits)
  show "sc_current (sd_sched d') = sc_current (sd_sched d)
      \<or> sc_current (sd_sched d') = sched_next (sc_queue (sd_sched d')) (sc_ticks (sd_sched d'))"
    using assms(1) sp ex by (cases "(d, q)" rule: spec_point.cases) (auto simp: v split: if_splits option.splits)
qed

lemma spec_point_total: "spec_point d (Some x) \<noteq> None"
  by (cases "(d, Some x)" rule: spec_point.cases) (auto split: prod.splits option.splits)

section \<open>Rounds within the budget\<close>

text \<open>The queue always holds a task to dispatch while the budget lasts.\<close>

lemma next_is_task:
  assumes "demo_inv space k0 s" and "only_normal (the (SCHEDULER (kern s)))" and "now \<le> 400"
  shows "sched_next (the (SCHEDULER (kern s))) now \<noteq> BOOT_PID"
proof -
  have k: "demo_kernel space k0 (TASK_D_SPAWNED s) (kern s)" using assms(1) by (simp add: demo_inv_def)
  obtain rq where rq: "SCHEDULER (kern s) = Some rq" "rq_inv rq" "queued rq = {p. live (kern s) p}"
    using pool_baseD(6) [OF demo_kernel_base [OF k]] by blast
  let ?c = "if TASK_D_SPAWNED s then Some (first_free_pid space) else if TASK_C_EXITED (kern s) then None else Some 2"
  have v: "pool_view (kern s) = demo_slots (?c, None) (e_slot space)" using k by (simp add: demo_kernel_def)
  have "?c \<noteq> Some BOOT_PID" "fst (e_slot space) \<noteq> Some BOOT_PID"
    using first_free_pid_neq(4) [of space] by (auto simp: e_slot_def BOOT_PID_def u64_max_def)
  then have live: "live (kern s) 0" "\<not> live (kern s) BOOT_PID"
    using live_demo_slots [OF v] by (simp_all add: BOOT_PID_def u64_max_def)
  then obtain p where "get_process 0 rq = Some p" using rq(3) by (auto simp: queued_def)
  then have "normal rq 0 (proc_vruntime p)" using assms(2) rq(1) by (simp add: normal_def only_normal_def)
  then obtain q where q: "pick_next_task rq = Some q" using pick_cases [OF rq(2)] by metis
  then have "live (kern s) q" using picked_is_queued [OF rq(2)] rq(3) by (auto simp: queued_def)
  then show ?thesis using q live rq(1) assms(3) by (auto simp: sched_next_def)
qed

definition alive :: "u64 option \<Rightarrow> 'm kernel \<Rightarrow> nat \<Rightarrow> 'm demo \<Rightarrow> bool" where
  "alive space k0 N s \<longleftrightarrow> demo_inv space k0 s \<and> only_normal (the (SCHEDULER (kern s))) \<and> within N (demo_of s) \<and> TICKS (kern s) \<le> 400"

lemma task_advances:
  assumes "reads_ok load space k0" and "alive space k0 N s" and "N < 2 ^ 63" and "CURRENT (kern s) \<noteq> BOOT_PID"
  obtains s' where "task_action map_to cpu load trampoline task_d ra (CURRENT (kern s)) s = Some s'" "alive space k0 (Suc N) s'"
    "CURRENT (kern s') \<noteq> BOOT_PID" "TICKS (kern s') = TICKS (kern s)" "settled (demo_of s) \<longrightarrow> settled (demo_of s')"
proof -
  let ?a = "task_action map_to cpu load trampoline task_d ra (CURRENT (kern s)) s"
  have inv: "demo_inv space k0 s" using assms(2) by (simp add: alive_def)
  have pt: "point_ok space s (CURRENT (kern s)) (points s (CURRENT (kern s)))" using inv by (simp add: demo_inv_def)
  have "load (cr3 (kern s)) (globals (kern s)) PRIVATE_REGION_ADDR = Some PRIVATE_VALUE" if "points s (CURRENT (kern s)) = Some (In_E E_read)"
    using assms(1) inv pt that by (simp add: reads_ok_def)
  from action_refines [OF inv, of load map_to cpu trampoline task_d ra, OF this]
  have r: "map_option demo_of ?a = spec_point (demo_of s) (current_point (demo_of s))" .
  have "current_point (demo_of s) = points s (CURRENT (kern s))" by (simp add: current_point_def demo_of_def sched_of_def)
  then obtain x where "current_point (demo_of s) = Some x" using demo_inv_readbacks(3) [OF inv] assms(4) by auto
  then obtain d' where d': "spec_point (demo_of s) (current_point (demo_of s)) = Some d'" using spec_point_total by fastforce
  then obtain s' where s': "?a = Some s'" "demo_of s' = d'" using r by auto
  have f: "sc_queue (sd_sched (demo_of u)) = the (SCHEDULER (kern u))" "sc_ticks (sd_sched (demo_of u)) = TICKS (kern u)"
    "sc_current (sd_sched (demo_of u)) = CURRENT (kern u)" for u :: "'m demo"
    by (simp_all add: demo_of_def sched_of_def)
  have "within N (demo_of s)" "only_normal (sc_queue (sd_sched (demo_of s)))" using assms(2) by (simp_all add: alive_def f)
  note g = spec_point_grows [OF d' this(2,1) assms(3), unfolded s'(2) [symmetric] f]
  have inv': "demo_inv space k0 s'" by (rule demo_inv_action [OF inv s'(1)])
  have "alive space k0 (Suc N) s'" using inv' g(1,2,4) assms(2) by (simp add: alive_def)
  moreover have "CURRENT (kern s') \<noteq> BOOT_PID"
    using g(5) assms(4) next_is_task [OF inv' g(1)] g(4) assms(2) by (auto simp: alive_def)
  ultimately show thesis using that s'(1) g(3,4) by blast
qed

lemma run_advances:
  fixes map_to :: "('m, physical_allocator) map_to" and cpu :: cpu_control and load :: "u64 \<Rightarrow> 'm paging_globals \<Rightarrow> u64 \<Rightarrow> u64 option"
    and trampoline task_d ra :: u64
  assumes "reads_ok load space k0" and "alive space k0 N s" and "N + n < 2 ^ 63" and "CURRENT (kern s) \<noteq> BOOT_PID"
  shows "\<exists>s'. run_to_hlt (\<lambda>s :: 'm demo. task_action map_to cpu load trampoline task_d ra (CURRENT (kern s)) s) (\<lambda>s. points s (CURRENT (kern s))) n s = Some s'
    \<and> alive space k0 (N + n) s' \<and> CURRENT (kern s') \<noteq> BOOT_PID \<and> TICKS (kern s') = TICKS (kern s)
    \<and> (settled (demo_of s) \<longrightarrow> settled (demo_of s'))"
  using assms(2-)
proof (induction n arbitrary: s N)
  case 0
  then show ?case by simp
next
  case (Suc n)
  have N: "N < 2 ^ 63" "Suc N + n < 2 ^ 63" using Suc.prems(2) by simp_all
  obtain s1 where s1: "task_action map_to cpu load trampoline task_d ra (CURRENT (kern s)) s = Some s1" "alive space k0 (Suc N) s1"
    "CURRENT (kern s1) \<noteq> BOOT_PID" "TICKS (kern s1) = TICKS (kern s)" "settled (demo_of s) \<longrightarrow> settled (demo_of s1)"
    by (rule task_advances [OF assms(1) Suc.prems(1) N(1) Suc.prems(3), of map_to cpu trampoline task_d ra])
  have "alive space k0 (N + Suc n) s1" using s1(2) by (auto simp: alive_def within_def)
  then show ?case
    using Suc.IH [OF s1(2) N(2) s1(3)] s1 by (cases "waiting (points s1 (CURRENT (kern s1)))") auto
qed

section \<open>The end of the loop\<close>

lemma tick_advances:
  assumes "alive space k0 N s" and "TICKS (kern s) < 400"
  shows "alive space k0 N (s\<lparr>kern := on_timer_tick ra (kern s)\<rparr>)" and "CURRENT (on_timer_tick ra (kern s)) \<noteq> BOOT_PID"
    and "TICKS (on_timer_tick ra (kern s)) = TICKS (kern s) + 1"
    and "settled (demo_of s) \<longrightarrow> settled (demo_of (s\<lparr>kern := on_timer_tick ra (kern s)\<rparr>))"
proof -
  have inv: "demo_inv space k0 s" and n: "only_normal (the (SCHEDULER (kern s)))" using assms(1) by (simp_all add: alive_def)
  obtain rq where rq: "SCHEDULER (kern s) = Some rq" by (rule demo_inv_scheduler [OF inv])
  note t = refine_tick [OF rq, of ra]
  have le: "TICKS (kern s) + 1 \<le> 400" using assms(2) by (simp add: inc_le)
  have f: "CURRENT (on_timer_tick ra (kern s)) = sched_next rq (TICKS (kern s) + 1)" "TICKS (on_timer_tick ra (kern s)) = TICKS (kern s) + 1"
    "the (SCHEDULER (on_timer_tick ra (kern s))) = (if CURRENT (kern s) = BOOT_PID then rq else update_vruntime (CURRENT (kern s)) 1 rq)"
    using arg_cong [OF t, of sc_current] arg_cong [OF t, of sc_ticks] arg_cong [OF t, of sc_queue] rq
    by (simp_all add: sched_of_def sched_tick_def)
  show "CURRENT (on_timer_tick ra (kern s)) \<noteq> BOOT_PID" using next_is_task [OF inv n le] f(1) rq by simp
  show "TICKS (on_timer_tick ra (kern s)) = TICKS (kern s) + 1" by (rule f(2))
  show "alive space k0 N (s\<lparr>kern := on_timer_tick ra (kern s)\<rparr>)"
    using demo_inv_tick [OF inv, of ra] n rq f(2,3) le assms(1) only_normal_ops(1)
    by (auto simp: alive_def within_def demo_of_def)
  show "settled (demo_of s) \<longrightarrow> settled (demo_of (s\<lparr>kern := on_timer_tick ra (kern s)\<rparr>))"
    by (simp add: settled_def demo_of_def sched_of_def tick_rest)
qed

text \<open>A tick after the budget hands the processor back to the boot flow, or leaves it there.\<close>

lemma tick_over_budget:
  assumes "SCHEDULER (kern s) = Some rq" and "400 < TICKS (kern s) + 1"
  shows "CURRENT (on_timer_tick ra (kern s)) = BOOT_PID" and "TICKS (on_timer_tick ra (kern s)) = TICKS (kern s) + 1"
    and "settled (demo_of s) \<longrightarrow> settled (demo_of (s\<lparr>kern := on_timer_tick ra (kern s)\<rparr>))"
  using refine_tick [OF assms(1), of ra] assms(2)
  by (auto simp: sched_of_def sched_tick_def sched_next_def settled_def demo_of_def tick_rest)

lemma alive_mono: "alive space k0 N s \<Longrightarrow> N \<le> M \<Longrightarrow> alive space k0 M s"
  by (auto simp: alive_def within_def)

lemma round_advances:
  assumes "reads_ok load space k0" and "alive space k0 N s" and "N + pace (Suc (unat (TICKS (kern s)))) < 2 ^ 63" and "unat (TICKS (kern s)) < 400"
  obtains s' where "paced_round map_to cpu load trampoline task_d ra (pace (Suc (unat (TICKS (kern s))))) s = Some s'"
    "alive space k0 (N + pace (Suc (unat (TICKS (kern s))))) s'"
    "unat (TICKS (kern s')) = Suc (unat (TICKS (kern s)))" "settled (demo_of s) \<longrightarrow> settled (demo_of s')"
    "boot_hlt map_to cpu load trampoline task_d ra pace (Suc n) s = boot_hlt map_to cpu load trampoline task_d ra pace n s'"
proof -
  let ?s = "s\<lparr>kern := on_timer_tick ra (kern s)\<rparr>" and ?p = "pace (Suc (unat (TICKS (kern s))))"
  have lt: "TICKS (kern s) < 400" using assms(4) by (simp add: word_less_nat_alt)
  note t = tick_advances [OF assms(2) lt, of ra]
  obtain s' where s': "run_to_hlt (\<lambda>s. task_action map_to cpu load trampoline task_d ra (CURRENT (kern s)) s) (\<lambda>s. points s (CURRENT (kern s))) ?p ?s = Some s'"
    "alive space k0 (N + ?p) s'" "TICKS (kern s') = TICKS (kern ?s)" "settled (demo_of ?s) \<longrightarrow> settled (demo_of s')"
    using run_advances [OF assms(1) t(1) assms(3), of map_to cpu trampoline task_d ra] t(2) by auto
  have "unat (TICKS (kern s) + 1) = Suc (unat (TICKS (kern s)))" using lt by (simp add: unat_add_u64 word_less_nat_alt)
  then show thesis using that [of s'] s' t by (simp add: paced_round_def Let_def)
qed

lemma rounds_advance:
  assumes "reads_ok load space k0" and "\<forall>i. pace i \<le> M" and "alive space k0 N s" and "N + M * n < 2 ^ 63" and "unat (TICKS (kern s)) + n \<le> 400"
  shows "\<exists>s'. alive space k0 (N + M * n) s'
    \<and> unat (TICKS (kern s')) = unat (TICKS (kern s)) + n \<and> (settled (demo_of s) \<longrightarrow> settled (demo_of s'))
    \<and> boot_hlt map_to cpu load trampoline task_d ra pace (n + m) s = boot_hlt map_to cpu load trampoline task_d ra pace m s'"
  using assms(3-)
proof (induction n arbitrary: s N)
  case (Suc n)
  let ?p = "pace (Suc (unat (TICKS (kern s))))"
  have p: "?p \<le> M" using assms(2) by blast
  then have N: "N + ?p < 2 ^ 63" "N + M + M * n < 2 ^ 63" "unat (TICKS (kern s)) < 400" using Suc.prems(2,3) by simp_all
  obtain s2 where s2: "alive space k0 (N + ?p) s2"
    "unat (TICKS (kern s2)) = Suc (unat (TICKS (kern s)))" "settled (demo_of s) \<longrightarrow> settled (demo_of s2)"
    "boot_hlt map_to cpu load trampoline task_d ra pace (Suc (n + m)) s = boot_hlt map_to cpu load trampoline task_d ra pace (n + m) s2"
    by (rule round_advances [where pace = pace and n = "n + m" and map_to = map_to and cpu = cpu and trampoline = trampoline and task_d = task_d and ra = ra, OF assms(1) Suc.prems(1) N(1,3)])
  have a2: "alive space k0 (N + M) s2" by (rule alive_mono [OF s2(1)]) (use p in simp)
  have "unat (TICKS (kern s2)) + n \<le> 400" using s2(2) Suc.prems(3) by simp
  from Suc.IH [OF a2 N(2) this] s2(2-4) show ?case by (auto simp: add.assoc simp del: boot_hlt.simps)
qed auto

lemma later_hlts:
  assumes "demo_inv space k0 s" and "CURRENT (kern s) = BOOT_PID" and "400 \<le> unat (TICKS (kern s))" and "unat (TICKS (kern s)) + n < 2 ^ 64"
  shows "\<exists>s'. rounds (boot_hlt map_to cpu load trampoline task_d ra pace (Suc m)) n s = Some s' \<and> demo_inv space k0 s' \<and> CURRENT (kern s') = BOOT_PID
    \<and> unat (TICKS (kern s')) = unat (TICKS (kern s)) + n \<and> (settled (demo_of s) \<longrightarrow> settled (demo_of s')) \<and> COUNTER_A s' = COUNTER_A s"
  using assms
proof (induction n arbitrary: s)
  case (Suc n)
  let ?s = "s\<lparr>kern := on_timer_tick ra (kern s)\<rparr>"
  obtain rq where rq: "SCHEDULER (kern s) = Some rq" by (rule demo_inv_scheduler [OF Suc.prems(1)])
  have u: "unat (TICKS (kern s) + 1) = unat (TICKS (kern s)) + 1" using Suc.prems(4) by (simp add: unat_add_u64)
  then have gt: "400 < TICKS (kern s) + 1" using Suc.prems(3) by (simp add: word_less_nat_alt)
  note t = tick_over_budget [OF rq gt, of ra]
  have "boot_hlt map_to cpu load trampoline task_d ra pace (Suc m) s = Some ?s" using t(1) by (simp add: Let_def)
  then show ?case
    using Suc.IH [OF demo_inv_tick [OF Suc.prems(1), of ra]] t gt u Suc.prems(3,4) by (auto simp del: boot_hlt.simps)
qed simp

lemma readbacks_settled:
  assumes "demo_inv space k0 s" and "settled (demo_of s)"
  shows "both_tasks_made_real_progress s" and "task_c_really_exited s" and "task_reused_a_guarded_slot s" and "task_e_verified_own_address_space s"
  using assms(2) demo_inv_readbacks(1,2) [OF assms(1)]
  by (auto simp: settled_def demo_of_def sched_of_def both_tasks_made_real_progress_def task_e_verified_own_address_space_def)

lemma rounds_add: "rounds step (m + n) s = Option.bind (rounds step m s) (rounds step n)"
proof (induction m arbitrary: s)
  case (Suc m)
  then show ?case by (cases "step s") simp_all
qed simp

subsection \<open>Ticks before the start\<close>

text \<open>The tick counter runs from the moment interrupts are enabled; within the budget it matters only as an offset.\<close>

definition later :: "u64 \<Rightarrow> spec_demo \<Rightarrow> spec_demo" where
  "later n d = d\<lparr>sd_sched := (sd_sched d)\<lparr>sc_ticks := sc_ticks (sd_sched d) + n\<rparr>\<rparr>"

lemma later_sel [simp]:
  "sd_sched (later n d) = (sd_sched d)\<lparr>sc_ticks := sc_ticks (sd_sched d) + n\<rparr>" "sd_points (later n d) = sd_points d"
  "current_point (later n d) = current_point d" "counts (later n d) = counts d"
  by (simp_all add: later_def current_point_def)

lemma spec_point_later:
  assumes "sc_ticks (sd_sched d) \<le> 400" and "sc_ticks (sd_sched d) + n \<le> 400"
  shows "spec_point (later n d) q = map_option (later n) (spec_point d q)"
proof -
  let ?v = "sd_sched d" and ?u = "\<lambda>v. v\<lparr>sc_ticks := sc_ticks v + n\<rparr>"
  have e: "sched_exit (?u ?v) = ?u (sched_exit ?v)" using assms by (cases ?v) (auto simp: sched_exit_def sched_next_def Let_def split: option.splits)
  obtain v r where v: "sched_spawn ?v = (v, r)" by (metis surj_pair)
  then have "sched_spawn (?u ?v) = (?u v, r)" by (auto simp: sched_spawn_def Let_def split: option.splits)
  then show ?thesis using e v
    by (cases "(d, q)" rule: spec_point.cases) (auto simp: later_def split: option.splits)
qed

lemma spec_point_ticks: "spec_point d q = Some d' \<Longrightarrow> sc_ticks (sd_sched d') = sc_ticks (sd_sched d)"
  by (cases "(d, q)" rule: spec_point.cases)
    (auto simp: sched_exit_def sched_spawn_def Let_def split: if_splits option.splits prod.splits)

lemma run_later:
  assumes "sc_ticks (sd_sched d) \<le> 400" and "sc_ticks (sd_sched d) + n \<le> 400"
  shows "run_to_hlt (\<lambda>d. spec_point d (current_point d)) current_point k (later n d) =
      map_option (later n) (run_to_hlt (\<lambda>d. spec_point d (current_point d)) current_point k d)
    \<and> (\<forall>d' \<in> set_option (run_to_hlt (\<lambda>d. spec_point d (current_point d)) current_point k d). sc_ticks (sd_sched d') = sc_ticks (sd_sched d))"
  using assms
proof (induction k arbitrary: d)
  case (Suc k)
  show ?case
  proof (cases "spec_point d (current_point d)")
    case None
    then show ?thesis using spec_point_later [OF Suc.prems] by simp
  next
    case (Some d1)
    then show ?thesis using spec_point_later [OF Suc.prems, of "current_point d"] Suc.IH [of d1] spec_point_ticks [OF Some] Suc.prems by auto
  qed
qed simp

lemma spec_round_later:
  assumes "unat (sc_ticks (sd_sched d)) + unat n < 400"
  shows "spec_round (later n d) = map_option (later n) (spec_round d)"
    and "spec_round d = Some d' \<Longrightarrow> unat (sc_ticks (sd_sched d')) = Suc (unat (sc_ticks (sd_sched d)))"
proof -
  let ?d = "d\<lparr>sd_sched := sched_tick (sd_sched d)\<rparr>" and ?t = "sc_ticks (sd_sched d)"
  have u: "unat (?t + 1) = Suc (unat ?t)" using assms by (simp add: unat_add_u64)
  then have u': "unat (?t + 1 + n) = Suc (unat ?t + unat n)" using assms by (simp add: unat_add_u64)
  have le: "?t + 1 \<le> 400" "?t + 1 + n \<le> 400" using u u' assms by (simp_all add: word_le_nat_alt)
  have "later n d\<lparr>sd_sched := sched_tick (sd_sched (later n d))\<rparr> = later n ?d"
    using le by (cases "sd_sched d") (simp add: later_def sched_tick_def sched_next_def algebra_simps)
  moreover note r = run_later [of ?d n 4]
  have t: "sc_ticks (sd_sched ?d) = ?t + 1" by (simp add: sched_tick_def)
  note r = r [unfolded t, OF le]
  ultimately show "spec_round (later n d) = map_option (later n) (spec_round d)"
    using conjunct1 [OF r] by (simp only: spec_round_def)
  show "unat (sc_ticks (sd_sched d')) = Suc (unat ?t)" if "spec_round d = Some d'"
    using conjunct2 [OF r] that u by (simp add: spec_round_def)
qed

text \<open>A run that ends in a wait does not depend on how much longer it might have gone on.\<close>

lemma run_to_hlt_more:
  assumes "run_to_hlt act pt n s = Some s'" and "waiting (pt s')" and "0 < n" and "n \<le> m"
  shows "run_to_hlt act pt m s = Some s'"
  using assms
proof (induction n arbitrary: s m)
  case (Suc n)
  then obtain m' where m: "m = Suc m'" "n \<le> m'" by (cases m) auto
  then show ?case using Suc.prems Suc.IH [of _ m'] by (cases n) (auto split: option.splits if_splits)
qed simp

definition spec_halt :: "spec_demo \<Rightarrow> spec_demo option" where
  "spec_halt d = (case spec_round d of None \<Rightarrow> None | Some d' \<Rightarrow> if waiting (current_point d') then Some d' else None)"

lemma halting_run: "map_option spec_passed (rounds spec_halt 27 spec_start) = Some True"
  by code_simp

text \<open>While every task reaches its wait before the next tick, the rounds are those of the specification.\<close>

lemma paced_run:
  fixes map_to :: "('m, physical_allocator) map_to"
  assumes "reads_ok load space k0" and "\<forall>i. 4 \<le> pace i \<and> pace i \<le> M" and "alive space k0 N s" and "N + M * k < 2 ^ 63"
    and "demo_of s = later n d" and "rounds spec_halt k d = Some d'" and "unat (sc_ticks (sd_sched d)) + unat n + k \<le> 400"
  shows "\<exists>s'. alive space k0 (N + M * k) s' \<and> demo_of s' = later n d' \<and> unat (TICKS (kern s')) = unat (TICKS (kern s)) + k
    \<and> boot_hlt map_to cpu load trampoline task_d ra pace (k + m) s = boot_hlt map_to cpu load trampoline task_d ra pace m s'"
  using assms(3-)
proof (induction k arbitrary: s N d)
  case (Suc k)
  let ?p = "pace (Suc (unat (TICKS (kern s))))"
  have p: "4 \<le> ?p" "?p \<le> M" using assms(2) by blast+
  have lt: "unat (sc_ticks (sd_sched d)) + unat n < 400" using Suc.prems(5) by simp
  have "TICKS (kern s) = sc_ticks (sd_sched d) + n" using arg_cong [OF Suc.prems(3), of "\<lambda>d. sc_ticks (sd_sched d)"] by (simp add: demo_of_def sched_of_def)
  then have tk: "unat (TICKS (kern s)) < 400" using lt by (simp add: unat_add_u64)
  have N: "N + ?p < 2 ^ 63" "N + M + M * k < 2 ^ 63" using Suc.prems(2) p by simp_all
  obtain d1 where h: "spec_halt d = Some d1" and r: "rounds spec_halt k d1 = Some d'" using Suc.prems(4) by (auto split: bind_splits)
  have d1: "spec_round d = Some d1" "waiting (current_point d1)" using h by (auto simp: spec_halt_def split: option.splits if_splits)
  obtain s1 where s1: "paced_round map_to cpu load trampoline task_d ra ?p s = Some s1" "alive space k0 (N + ?p) s1"
    "unat (TICKS (kern s1)) = Suc (unat (TICKS (kern s)))"
    "boot_hlt map_to cpu load trampoline task_d ra pace (Suc (k + m)) s = boot_hlt map_to cpu load trampoline task_d ra pace (k + m) s1"
    by (rule round_advances [where pace = pace and n = "k + m" and map_to = map_to and cpu = cpu and trampoline = trampoline and task_d = task_d and ra = ra, OF assms(1) Suc.prems(1) N(1) tk])
  have "spec_round (later n d) = Some (later n d1)" using spec_round_later(1) [OF lt] d1(1) by simp
  then have "spec_paced ?p (later n d) = Some (later n d1)"
    unfolding spec_round_def spec_paced_def by (rule run_to_hlt_more) (use d1(2) p(1) in simp_all)
  moreover have "demo_inv space k0 s" using Suc.prems(1) by (simp add: alive_def)
  ultimately have ds: "demo_of s1 = later n d1"
    using paced_refines [OF assms(1), of s map_to cpu trampoline task_d ra ?p] s1(1) Suc.prems(3) by simp
  have a1: "alive space k0 (N + M) s1" by (rule alive_mono [OF s1(2)]) (use p in simp)
  have "unat (sc_ticks (sd_sched d1)) + unat n + k \<le> 400" using spec_round_later(2) [OF lt d1(1)] Suc.prems(5) by simp
  from Suc.IH [OF a1 N(2) ds r this] s1(3,4) show ?case by (auto simp: add.assoc simp del: boot_hlt.simps)
qed auto

subsection \<open>The whole loop\<close>

text \<open>From a state in which the budget is not spent, the loop ends with the counters it had, or more.\<close>

lemma wait_loop_from:
  assumes "reads_ok load space k0" and "\<forall>i. pace i \<le> M" and "alive space k0 N s1" and "N + M * k < 2 ^ 63" and "unat (TICKS (kern s1)) + k = 400"
    and "boot_hlt map_to cpu load trampoline task_d ra pace 401 s = boot_hlt map_to cpu load trampoline task_d ra pace (k + Suc j) s1"
  obtains s' where "wait_loop map_to cpu load trampoline task_d ra pace s = Some s'" "demo_inv space k0 s'"
    "settled (demo_of s1) \<longrightarrow> settled (demo_of s')" "CURRENT (kern s') = BOOT_PID" "TICKS (kern s') = 1400"
proof -
  let ?hlt = "boot_hlt map_to cpu load trampoline task_d ra pace"
  obtain s2 where s2: "alive space k0 (N + M * k) s2" "unat (TICKS (kern s2)) = 400" "settled (demo_of s1) \<longrightarrow> settled (demo_of s2)"
    "?hlt (k + Suc j) s1 = ?hlt (Suc j) s2"
    using rounds_advance [OF assms(1-4), of map_to cpu trampoline task_d ra "Suc j"] assms(5) by auto
  have inv2: "demo_inv space k0 s2" using s2(1) by (simp add: alive_def)
  obtain rq where rq: "SCHEDULER (kern s2) = Some rq" by (rule demo_inv_scheduler [OF inv2])
  have t2: "TICKS (kern s2) = 400" using s2(2) by (simp add: word_unat_eq_iff)
  let ?s = "s2\<lparr>kern := on_timer_tick ra (kern s2)\<rparr>"
  note t = tick_over_budget [OF rq, of ra, unfolded t2]
  have first: "?hlt 401 s = Some ?s" using assms(6) s2(4) t(1) by (simp add: Let_def)
  obtain s' where s': "rounds (?hlt 401) 999 ?s = Some s'" "demo_inv space k0 s'" "CURRENT (kern s') = BOOT_PID" "unat (TICKS (kern s')) = 1400"
    "settled (demo_of ?s) \<longrightarrow> settled (demo_of s')"
    using later_hlts [OF demo_inv_tick [OF inv2, of ra], of 999 map_to cpu load trampoline task_d ra pace 400] t by (auto simp del: boot_hlt.simps)
  have "wait_loop map_to cpu load trampoline task_d ra pace s = Some s'"
    unfolding wait_loop_def using first s'(1) rounds_add [of "?hlt 401" 1 999 s] by (simp del: boot_hlt.simps)
  moreover have "TICKS (kern s') = 1400" using s'(4) by (simp add: word_unat_eq_iff)
  moreover have "settled (demo_of s1) \<longrightarrow> settled (demo_of s')" using s2(3) s'(5) t(3) by simp
  ultimately show thesis using s'(2,3) by (intro that)
qed

lemma start_alive:
  assumes "demo_inv space k0 s" and "demo_of s = later n spec_start" and "unat n \<le> 400"
  shows "alive space k0 0 s" and "TICKS (kern s) = n"
proof -
  have "only_normal new_queue" by (simp add: only_normal_def new_queue_def get_process_def)
  then have "only_normal (sc_queue (sd_sched spec_start))" by (simp add: spec_start_def only_normal_ops(3))
  moreover show t: "TICKS (kern s) = n"
    using arg_cong [OF assms(2), of "\<lambda>d. sc_ticks (sd_sched d)"] by (simp add: demo_of_def sched_of_def spec_start_def)
  moreover have "within 0 (later n spec_start)" unfolding within_def later_sel by (simp add: spec_start_def)
  moreover have "the (SCHEDULER (kern s)) = sc_queue (sd_sched spec_start)"
    using arg_cong [OF assms(2), of "\<lambda>d. sc_queue (sd_sched d)"] by (simp add: demo_of_def sched_of_def)
  ultimately show "alive space k0 0 s" using assms by (simp add: alive_def word_le_nat_alt)
qed

text \<open>After 27 rounds the read-backs are true, wherever the counter started within the budget.\<close>

lemma settled_after:
  assumes "reads_ok load space k0" and "\<forall>i. 4 \<le> pace i \<and> pace i \<le> M" and "M * 27 < 2 ^ 63"
    and "demo_inv space k0 s" and "demo_of s = later n spec_start" and "unat n + 27 \<le> 400"
  obtains s1 where "alive space k0 (M * 27) s1" "unat (TICKS (kern s1)) = unat n + 27" "settled (demo_of s1)"
    "boot_hlt map_to cpu load trampoline task_d ra pace (27 + m) s = boot_hlt map_to cpu load trampoline task_d ra pace m s1"
proof -
  have n: "unat n \<le> 400" using assms(6) by simp
  note a = start_alive [OF assms(4,5) n]
  have N: "0 + M * 27 < 2 ^ 63" using assms(3) by simp
  obtain ds where ds: "rounds spec_halt 27 spec_start = Some ds" "spec_passed ds" using halting_run by auto
  have b: "unat (sc_ticks (sd_sched spec_start)) + unat n + 27 \<le> 400" using assms(6) by (simp add: spec_start_def)
  obtain s1 where s1: "alive space k0 (M * 27) s1" "demo_of s1 = later n ds" "unat (TICKS (kern s1)) = unat n + 27"
    "boot_hlt map_to cpu load trampoline task_d ra pace (27 + m) s = boot_hlt map_to cpu load trampoline task_d ra pace m s1"
    using paced_run [OF assms(1,2) a(1) N assms(5) ds(1) b, of map_to cpu trampoline task_d ra m] a(2) unfolding add_0 by blast
  then have "settled (demo_of s1)" unfolding settled_def using ds(2) by (auto simp: spec_passed_def)
  then show thesis using that s1 by blast
qed

text \<open>
  The loop ends for every number of ticks before the start and every pace. The read-backs are true when 27 ticks of the budget are left and the tasks reach their waits, and nothing runs when no tick is left.
\<close>

lemma wait_loop_idle:
  assumes "demo_inv space k0 s" and "CURRENT (kern s) = BOOT_PID" and "400 \<le> unat (TICKS (kern s))" and "unat (TICKS (kern s)) < 2 ^ 63"
  obtains s' where "wait_loop map_to cpu load trampoline task_d ra pace s = Some s'" "demo_inv space k0 s'" "COUNTER_A s' = COUNTER_A s"
    "CURRENT (kern s') = BOOT_PID" "unat (TICKS (kern s')) = unat (TICKS (kern s)) + 1000"
  using later_hlts [OF assms(1,2), of 1000 map_to cpu load trampoline task_d ra pace 400] assms(3,4) by (auto simp: wait_loop_def simp del: boot_hlt.simps)

lemma wait_loop_ends:
  assumes "reads_ok load space k0" and "demo_inv space k0 s" and "demo_of s = later n spec_start" and "unat n < 2 ^ 63" and "\<forall>i. pace i \<le> 2 ^ 32"
  obtains s' where "wait_loop map_to cpu load trampoline task_d ra pace s = Some s'" "demo_inv space k0 s'"
    "unat n \<le> 373 \<and> (\<forall>i. 4 \<le> pace i) \<longrightarrow> settled (demo_of s')" "400 \<le> unat n \<longrightarrow> COUNTER_A s' = 0"
    "CURRENT (kern s') = BOOT_PID" "unat (TICKS (kern s')) \<le> unat n + 1400"
proof -
  have cur: "CURRENT (kern s) = BOOT_PID" and tk: "TICKS (kern s) = n" and cnt: "COUNTER_A s = 0"
    using arg_cong [OF assms(3), of "\<lambda>d. sc_current (sd_sched d)"] arg_cong [OF assms(3), of "\<lambda>d. sc_ticks (sd_sched d)"]
      arg_cong [OF assms(3), of sd_a]
    by (simp_all add: demo_of_def sched_of_def spec_start_def later_def)
  consider (early) "unat n + 27 \<le> 400" "\<forall>i. 4 \<le> pace i" | (between) "373 < unat n \<or> \<not> (\<forall>i. 4 \<le> pace i)" "unat n < 400" | (late) "400 \<le> unat n"
    by (cases "\<forall>i. 4 \<le> pace i"; cases "unat n + 27 \<le> 400"; cases "unat n < 400") auto
  then show thesis
  proof cases
    case early
    obtain k where k: "unat n + 27 + k = 400" using early(1) le_Suc_ex by metis
    have f: "401 = 27 + (k + Suc (unat n))" using k by simp
    have small: "(2 :: nat) ^ 32 * 27 < 2 ^ 63" by simp
    have p: "\<forall>i. 4 \<le> pace i \<and> pace i \<le> 2 ^ 32" using early(2) assms(5) by simp
    obtain s1 where s1: "alive space k0 (2 ^ 32 * 27) s1" "unat (TICKS (kern s1)) = unat n + 27" "settled (demo_of s1)"
      "boot_hlt map_to cpu load trampoline task_d ra pace 401 s = boot_hlt map_to cpu load trampoline task_d ra pace (k + Suc (unat n)) s1"
      unfolding f by (rule settled_after [where m = "k + Suc (unat n)" and map_to = map_to and cpu = cpu and trampoline = trampoline and task_d = task_d and ra = ra,
          OF assms(1) p small assms(2,3) early(1)])
    have b: "2 ^ 32 * 27 + 2 ^ 32 * k < 2 ^ 63" "unat (TICKS (kern s1)) + k = 400" using k s1(2) by simp_all
    obtain s' where s': "wait_loop map_to cpu load trampoline task_d ra pace s = Some s'" "demo_inv space k0 s'" "settled (demo_of s1) \<longrightarrow> settled (demo_of s')" "CURRENT (kern s') = BOOT_PID" "TICKS (kern s') = 1400"
      by (rule wait_loop_from [OF assms(1,5) s1(1) b s1(4)])
    show thesis by (rule that [OF s'(1,2) _ _ s'(4)]) (use s'(3,5) s1(3) early in simp_all)
  next
    case between
    then obtain k where k: "unat n + k = 400" using le_Suc_ex [of "unat n" 400] by auto
    have f: "401 = k + Suc (unat n)" and n: "unat n \<le> 400" using k by simp_all
    note a = start_alive [OF assms(2,3) n]
    have b: "0 + 2 ^ 32 * k < 2 ^ 63" "unat (TICKS (kern s)) + k = 400" using k a(2) by simp_all
    obtain s' where s': "wait_loop map_to cpu load trampoline task_d ra pace s = Some s'" "demo_inv space k0 s'" "CURRENT (kern s') = BOOT_PID" "TICKS (kern s') = 1400"
      by (rule wait_loop_from [OF assms(1,5) a(1) b, of map_to cpu trampoline task_d ra s "unat n"]) (simp_all only: f)
    show thesis by (rule that [OF s'(1,2) _ _ s'(3)]) (use between s'(4) in auto)
  next
    case late
    have lt: "400 \<le> unat (TICKS (kern s))" "unat (TICKS (kern s)) < 2 ^ 63" using late tk assms(4) by simp_all
    obtain s' where s': "wait_loop map_to cpu load trampoline task_d ra pace s = Some s'" "demo_inv space k0 s'" "COUNTER_A s' = COUNTER_A s"
      "CURRENT (kern s') = BOOT_PID" "unat (TICKS (kern s')) = unat (TICKS (kern s)) + 1000"
      by (rule wait_loop_idle [OF assms(2) cur lt])
    show thesis by (rule that [OF s'(1,2) _ _ s'(4)]) (use late s'(3,5) tk cnt in simp_all)
  qed
qed

end
