(* ===== verification/Topology.thy ===== *)
theory Topology
  imports Paging
begin

text \<open>
  Processor topology (\<open>acpi_topology.rs\<close>): the legacy PCI configuration accesses of the ACPI handler, and the list of processors that
  \<open>discover\<close> reads off the interrupt controller table. Finding and parsing that table is the acpi crate, a parameter: the argument \<open>find_madt\<close> is
  the outcome of \<open>AcpiTables::from_rsdp\<close> and \<open>find_table\<close>. The handler's accesses to memory and to
  input/output ports are in \<open>Acpi_Handler\<close>.
\<close>

section \<open>PCI configuration space\<close>

record pci_address =
  pci_segment :: "16 word"
  pci_bus :: u8
  pci_device :: u8
  pci_function :: u8

text \<open>
  The configuration mechanism behind ports 0xCF8 and 0xCFC: the first latches an address, the second gives access to the 32-bit register
  at it. An assertion that fails is \<open>None\<close>.
\<close>

record pci_ports =
  CONFIG_ADDRESS :: u32
  config_space :: "u32 \<Rightarrow> u32"

definition pci_config_address :: "pci_address \<Rightarrow> 16 word \<Rightarrow> u32 option" where
  "pci_config_address pci offset =
     (if pci_segment pci = 0
      then Some (0x80000000 OR push_bit 16 (ucast (pci_bus pci)) OR push_bit 11 (ucast (pci_device pci))
                 OR push_bit 8 (ucast (pci_function pci)) OR ucast (offset AND 0xFC))
      else None)"

definition write_address :: "pci_address \<Rightarrow> 16 word \<Rightarrow> pci_ports \<Rightarrow> pci_ports option" where
  "write_address pci offset s = map_option (\<lambda>a. s\<lparr>CONFIG_ADDRESS := a\<rparr>) (pci_config_address pci offset)"

definition read_data :: "pci_ports \<Rightarrow> u32" where
  "read_data s = config_space s (CONFIG_ADDRESS s)"

definition write_data :: "u32 \<Rightarrow> pci_ports \<Rightarrow> pci_ports" where
  "write_data v s = s\<lparr>config_space := (config_space s)(CONFIG_ADDRESS s := v)\<rparr>"

definition read_pci_u8 :: "pci_address \<Rightarrow> 16 word \<Rightarrow> pci_ports \<Rightarrow> (pci_ports \<times> u8) option" where
  "read_pci_u8 address offset s =
     map_option (\<lambda>s. (s, ucast (drop_bit (unat ((offset AND 3) * 8)) (read_data s)))) (write_address address offset s)"

definition read_pci_u16 :: "pci_address \<Rightarrow> 16 word \<Rightarrow> pci_ports \<Rightarrow> (pci_ports \<times> 16 word) option" where
  "read_pci_u16 address offset s =
     map_option (\<lambda>s. (s, ucast (drop_bit (unat ((offset AND 2) * 8)) (read_data s)))) (write_address address offset s)"

definition read_pci_u32 :: "pci_address \<Rightarrow> 16 word \<Rightarrow> pci_ports \<Rightarrow> (pci_ports \<times> u32) option" where
  "read_pci_u32 address offset s = map_option (\<lambda>s. (s, read_data s)) (write_address address offset s)"

definition write_pci_u8 :: "pci_address \<Rightarrow> 16 word \<Rightarrow> u8 \<Rightarrow> pci_ports \<Rightarrow> pci_ports option" where
  "write_pci_u8 address offset value s =
     map_option
       (\<lambda>s. let shift = unat ((offset AND 3) * 8);
                existing = read_data s;
                merged = (existing AND NOT (push_bit shift 0xFF)) OR push_bit shift (ucast value)
            in write_data merged s)
       (write_address address offset s)"

definition write_pci_u16 :: "pci_address \<Rightarrow> 16 word \<Rightarrow> 16 word \<Rightarrow> pci_ports \<Rightarrow> pci_ports option" where
  "write_pci_u16 address offset value s =
     map_option
       (\<lambda>s. let shift = unat ((offset AND 2) * 8);
                existing = read_data s;
                merged = (existing AND NOT (push_bit shift 0xFFFF)) OR push_bit shift (ucast value)
            in write_data merged s)
       (write_address address offset s)"

definition write_pci_u32 :: "pci_address \<Rightarrow> 16 word \<Rightarrow> u32 \<Rightarrow> pci_ports \<Rightarrow> pci_ports option" where
  "write_pci_u32 address offset value s = map_option (write_data value) (write_address address offset s)"

section \<open>Processors\<close>

record logical_cpu =
  cpu_processor_id :: u8
  cpu_apic_id :: u8
  cpu_enabled :: bool

record cpu_topology =
  local_apic_address :: u32
  cpus :: "logical_cpu list"

definition cpu_count :: "cpu_topology \<Rightarrow> nat" where
  "cpu_count topo = length (filter cpu_enabled (cpus topo))"

datatype topology_error = AcpiParseFailed | MadtNotPresent

text \<open>The entries of the table; \<open>OtherEntry\<close> stands for the kinds the loop passes over.\<close>

datatype madt_entry = LocalApic u8 u8 u32 | OtherEntry

record madt =
  madt_local_apic_address :: u32
  madt_entries :: "madt_entry list"

fun push_cpus :: "madt_entry list \<Rightarrow> logical_cpu list \<Rightarrow> logical_cpu list" where
  "push_cpus [] acc = acc"
| "push_cpus (LocalApic processor apic flags # rest) acc =
     push_cpus rest (acc @ [\<lparr>cpu_processor_id = processor, cpu_apic_id = apic, cpu_enabled = (flags AND 1 \<noteq> 0)\<rparr>])"
| "push_cpus (OtherEntry # rest) acc = push_cpus rest acc"

definition discover :: "(u64 \<Rightarrow> madt option option) \<Rightarrow> u64 \<Rightarrow> (topology_error, cpu_topology) result" where
  "discover find_madt rsdp_addr =
     (case find_madt rsdp_addr of
        None \<Rightarrow> Err AcpiParseFailed
      | Some None \<Rightarrow> Err MadtNotPresent
      | Some (Some m) \<Rightarrow> Ok \<lparr>local_apic_address = madt_local_apic_address m, cpus = push_cpus (madt_entries m) []\<rparr>)"

definition acpi_topology_check :: "(u64 \<Rightarrow> madt option option) \<Rightarrow> u64 option \<Rightarrow> bool" where
  "acpi_topology_check find_madt rsdp_addr =
     (case rsdp_addr of
        None \<Rightarrow> False
      | Some rsdp \<Rightarrow>
          (case discover find_madt rsdp of
             Inl _ \<Rightarrow> False
           | Inr topo \<Rightarrow> 1 \<le> cpu_count topo \<and> local_apic_address topo \<noteq> 0))"

section \<open>Lemmas\<close>

lemma push_cpus_append: "push_cpus es (acc @ acc') = acc @ push_cpus es acc'"
proof (induction es arbitrary: acc')
  case (Cons e es)
  then show ?case by (cases e) simp_all
qed simp

text \<open>The number of processors is the number of local-APIC entries whose enabled bit is set.\<close>

lemma cpu_count_discover:
  assumes "discover find_madt rsdp = Ok topo" and "find_madt rsdp = Some (Some m)"
  shows "cpu_count topo = length (filter (\<lambda>e. case e of LocalApic _ _ flags \<Rightarrow> bit flags 0 | OtherEntry \<Rightarrow> False) (madt_entries m))"
proof -
  have one: "(flags AND 1 \<noteq> 0) = bit flags 0" for flags :: u32
    by (simp add: and_one_eq mod2_eq_if bit_0)
  have "length (filter cpu_enabled (push_cpus es [])) =
      length (filter (\<lambda>e. case e of LocalApic _ _ flags \<Rightarrow> bit flags 0 | OtherEntry \<Rightarrow> False) es)" for es
  proof (induction es)
    case (Cons e es)
    then show ?case by (cases e) (simp_all add: one push_cpus_append [of es "[_]" "[]", simplified])
  qed simp
  then show ?thesis using assms by (auto simp: discover_def cpu_count_def)
qed

lemma write_address_simps:
  "write_address a o1 s = Some s' \<longleftrightarrow> (\<exists>c. pci_config_address a o1 = Some c \<and> s' = s\<lparr>CONFIG_ADDRESS := c\<rparr>)"
  by (auto simp: write_address_def)

text \<open>Merging a byte into a register changes that byte only.\<close>

lemma merged_byte:
  fixes w :: u32 and v :: u8
  assumes "k < 4" and "j < 4"
  shows "(ucast (drop_bit (8 * j) ((w AND NOT (push_bit (8 * k) 0xFF)) OR push_bit (8 * k) (ucast v))) :: u8) =
    (if j = k then v else ucast (drop_bit (8 * j) w))"
proof (rule bit_word_eqI)
  fix i assume "i < LENGTH(8)"
  then have i: "i < 8" by simp
  have ff: "(0xFF :: u32) = mask 8" by (simp add: mask_eq_exp_minus_1)
  show "bit (ucast (drop_bit (8 * j) ((w AND NOT (push_bit (8 * k) 0xFF)) OR push_bit (8 * k) (ucast v))) :: u8) i =
      bit (if j = k then v else ucast (drop_bit (8 * j) w)) i"
    using assms i unfolding ff by (auto simp: bit_simps dest: bit_imp_le_length)
qed

lemma byte_shift: "unat ((offset AND 3) * 8 :: 16 word) = 8 * unat (offset AND 3)" and byte_lane: "unat (offset AND 3 :: 16 word) < 4"
proof -
  have "unat (offset AND 3) \<le> unat (3 :: 16 word)" by (simp only: word_le_nat_alt [symmetric] word_and_le1)
  then show lt: "unat (offset AND 3) < 4" by simp
  then show "unat ((offset AND 3) * 8) = 8 * unat (offset AND 3)" by (simp add: unat_word_ariths)
qed

text \<open>Byte writes to configuration space are local: a byte read afterwards is the written one at that place and the old one elsewhere.\<close>

lemma pci_byte_write:
  assumes "write_pci_u8 a p v s = Some s'" and "read_pci_u8 b q s = Some (t, x)"
  shows "\<exists>t'. read_pci_u8 b q s' =
    Some (t', if pci_config_address b q = pci_config_address a p \<and> q AND 3 = p AND 3 then v else x)"
proof -
  obtain c where c: "pci_config_address a p = Some c"
    using assms(1) by (auto simp: write_pci_u8_def write_address_def)
  obtain d where d: "pci_config_address b q = Some d"
    using assms(2) by (auto simp: read_pci_u8_def write_address_def)
  have x: "x = ucast (drop_bit (8 * unat (q AND 3)) (config_space s d))"
    using assms(2) d by (simp add: read_pci_u8_def write_address_def read_data_def byte_shift)
  have s': "config_space s' = (config_space s)(c :=
      (config_space s c AND NOT (push_bit (8 * unat (p AND 3)) 0xFF)) OR push_bit (8 * unat (p AND 3)) (ucast v))"
    using assms(1) c by (auto simp: write_pci_u8_def write_address_def read_data_def write_data_def Let_def byte_shift)
  have lane: "unat (q AND 3) = unat (p AND 3) \<longleftrightarrow> q AND 3 = p AND 3" by (simp add: word_unat_eq_iff)
  show ?thesis
    using d c x merged_byte [of "unat (p AND 3)" "unat (q AND 3)" "config_space s c" v]
    by (auto simp: read_pci_u8_def write_address_def read_data_def byte_shift s' byte_lane lane)
qed

end
