(* ===== verification/Smp.thy ===== *)
theory Smp
  imports Topology
begin

text \<open>
  Start-up of a second processor (\<open>smp.rs\<close>): the boot processor in \<open>bring_up_ap\<close> and the application processor in
  \<open>ap_entry64\<close>, cut at their accesses to shared state, with the timer and every interleaving of the three as paths of
  \<open>smp_step\<close>. The local interrupt controller is modelled as far as the start-up protocol needs it: it remembers the writes, and a
  processor leaves its reset state when the writes amount to an initialisation followed by a start-up message to its identifier.
  The trampoline is assembly (\<open>ap_trampoline.asm\<close>) that loads the three values stored in its page and jumps to the third; its bytes are not
  decoded, and the copy of them is a flag. It loads CR3 through a 32-bit register. A processor on another table than the stored one fetches its next instruction
  from memory that the kernel did not prepare, and is taken to be lost; so is one whose breakpoint reaches no handler that returns. The kernel's mapping flags do not include the cache bit.
\<close>

section \<open>Constants\<close>

definition TRAMPOLINE_PHYS_ADDR :: u64 where
  "TRAMPOLINE_PHYS_ADDR = 0x8000"

definition LAPIC_REG_ICR_LOW :: nat where "LAPIC_REG_ICR_LOW = 0x300"
definition LAPIC_REG_ICR_HIGH :: nat where "LAPIC_REG_ICR_HIGH = 0x310"

definition LAPIC_VIRT_BASE :: u64 where
  "LAPIC_VIRT_BASE = 0x222222220000"

text \<open>Identification by \<open>CPUID\<close> leaf 1.\<close>

definition this_core_apic_id :: "u32 \<Rightarrow> u8" where
  "this_core_apic_id ebx = ucast (drop_bit 24 ebx)"

section \<open>The two programs\<close>

datatype bsp =
    BMapLapic | BMapTrampoline | BCopy | BAllocStack | BPoke u64 | BInit
  | BWait nat u64 nat | BSipi nat
  | BPollStarted u64 | BStartedLate u64 | BPollSurvived u64 | BSurvivedLate u64
  | BDone bool

datatype ap = AReset | ATrampoline u64 | AGdt | AIdt | AReport | AStart | AFault | ASurvive | AHalt | ALost

text \<open>
  What \<open>bring_up_ap\<close> is given and finds; \<open>cf_breakpoint\<close> says whether \<open>int3\<close> on the second processor reaches a handler that returns, as
  \<open>Interrupts\<close> shows of the tables that \<open>init_for_ap\<close> and \<open>init_idt\<close> load.
\<close>

record smp_config =
  cf_target :: u8
  cf_lapic_phys :: u64
  cf_cr3 :: u64
  cf_entry :: u64
  cf_stack_top :: u64
  cf_ap_ebx :: u32
  cf_breakpoint :: bool

record 'm smp_state =
  sm_globals :: "'m paging_globals"
  sm_blob :: bool
  sm_slots :: "(u64 \<times> u64 \<times> u64) option"
  sm_lapic :: "(nat \<times> u32) list"
  sm_ticks :: u64
  AP_STARTED :: bool
  AP_FAULT_SURVIVED :: bool
  AP_REPORTED_APIC_ID :: u64
  sm_bsp :: bsp
  sm_ap :: ap
  sm_loaded :: "(u64 \<times> u64 \<times> u64) option"

definition lapic_write :: "nat \<Rightarrow> u32 \<Rightarrow> 'm smp_state \<Rightarrow> 'm smp_state" where
  "lapic_write reg value s = s\<lparr>sm_lapic := sm_lapic s @ [(reg, value)]\<rparr>"

definition ap_reported_apic_id :: "'m smp_state \<Rightarrow> u8 option" where
  "ap_reported_apic_id s = (if AP_REPORTED_APIC_ID s = u64_max then None else Some (ucast (AP_REPORTED_APIC_ID s)))"

definition ap_fault_survived :: "'m smp_state \<Rightarrow> bool" where
  "ap_fault_survived s = AP_FAULT_SURVIVED s"

text \<open>
  \<open>BWait n start k\<close> is \<open>busy_wait_ticks\<close> for \<open>n\<close> ticks from \<open>start\<close>, after which \<open>k\<close> start-up messages are left to send.
  A poll reads the flag first and the clock only when it is not set.
\<close>

definition map_fixed ::
    "('m, physical_allocator) map_to \<Rightarrow> u64 \<Rightarrow> u64 \<Rightarrow> page_flags \<Rightarrow> 'm smp_state \<Rightarrow> 'm smp_state \<times> bool" where
  "map_fixed map_to vaddr frame flags s =
     (case with_mapper_and_phys
             (\<lambda>mapper phys. case map_page_to_frame map_to adapter_allocate_frame vaddr (containing_address frame) flags mapper phys of
                (mapper, phys, r) \<Rightarrow> (mapper, phys, is_ok r)) (sm_globals s) of
        (g, r) \<Rightarrow> (s\<lparr>sm_globals := g\<rparr>, case r of Some b \<Rightarrow> b | None \<Rightarrow> False))"

definition bsp_step ::
    "smp_config \<Rightarrow> ('m, physical_allocator) map_to \<Rightarrow> cpu_control \<Rightarrow> 'm smp_state \<Rightarrow> 'm smp_state" where
  "bsp_step c map_to cpu s =
     (case sm_bsp s of
        BMapLapic \<Rightarrow>
          (case map_fixed map_to LAPIC_VIRT_BASE (cf_lapic_phys c) (flags_or present_writable (nx_flag cpu)) s of
             (s, ok) \<Rightarrow> s\<lparr>sm_bsp := if ok then BMapTrampoline else BDone False\<rparr>)
      | BMapTrampoline \<Rightarrow>
          (case map_fixed map_to TRAMPOLINE_PHYS_ADDR TRAMPOLINE_PHYS_ADDR present_writable s of
             (s, ok) \<Rightarrow> s\<lparr>sm_bsp := if ok then BCopy else BDone False\<rparr>)
      | BCopy \<Rightarrow>
          (case phys_mem_offset (sm_globals s) of
             None \<Rightarrow> s\<lparr>sm_bsp := BDone False\<rparr>
           | Some _ \<Rightarrow> s\<lparr>sm_blob := True, sm_bsp := BAllocStack\<rparr>)
      | BAllocStack \<Rightarrow> s\<lparr>sm_bsp := BPoke (cf_stack_top c)\<rparr>
      | BPoke top_addr \<Rightarrow> s\<lparr>sm_slots := Some (cf_cr3 c, top_addr, cf_entry c), sm_bsp := BInit\<rparr>
      | BInit \<Rightarrow>
          let s = lapic_write LAPIC_REG_ICR_HIGH (push_bit 24 (ucast (cf_target c))) s;
              s = lapic_write LAPIC_REG_ICR_LOW 0x4500 s
          in s\<lparr>sm_bsp := BWait 3 (sm_ticks s) 2\<rparr>
      | BWait n start k \<Rightarrow>
          if sm_ticks s < start + of_nat n then s
          else s\<lparr>sm_bsp := if k = 0 then BPollStarted (sm_ticks s + 200) else BSipi (k - 1)\<rparr>
      | BSipi k \<Rightarrow>
          let vector = ucast (drop_bit 12 TRAMPOLINE_PHYS_ADDR);
              s = lapic_write LAPIC_REG_ICR_HIGH (push_bit 24 (ucast (cf_target c))) s;
              s = lapic_write LAPIC_REG_ICR_LOW (0x4600 OR vector) s
          in s\<lparr>sm_bsp := BWait 1 (sm_ticks s) k\<rparr>
      | BPollStarted deadline \<Rightarrow>
          s\<lparr>sm_bsp := if AP_STARTED s then BPollSurvived (sm_ticks s + 200) else BStartedLate deadline\<rparr>
      | BStartedLate deadline \<Rightarrow> s\<lparr>sm_bsp := if deadline < sm_ticks s then BDone False else BPollStarted deadline\<rparr>
      | BPollSurvived deadline \<Rightarrow> s\<lparr>sm_bsp := if AP_FAULT_SURVIVED s then BDone True else BSurvivedLate deadline\<rparr>
      | BSurvivedLate deadline \<Rightarrow> s\<lparr>sm_bsp := if deadline < sm_ticks s then BDone False else BPollSurvived deadline\<rparr>
      | BDone b \<Rightarrow> s)"

text \<open>What a processor with identifier \<open>core\<close> makes of the interrupt command writes: the destination, whether it was initialised, its start vector.\<close>

fun apply_icr :: "u8 \<Rightarrow> nat \<times> u32 \<Rightarrow> u32 \<times> bool \<times> u32 option \<Rightarrow> u32 \<times> bool \<times> u32 option" where
  "apply_icr core (reg, v) (dest, initialised, vector) =
     (if reg = LAPIC_REG_ICR_HIGH then (v, initialised, vector)
      else if reg = LAPIC_REG_ICR_LOW \<and> drop_bit 24 dest = ucast core then
        if v AND 0x700 = 0x500 then (dest, True, None)
        else if v AND 0x700 = 0x600 \<and> initialised \<and> vector = None then (dest, initialised, Some (v AND 0xFF))
        else (dest, initialised, vector)
      else (dest, initialised, vector))"

definition start_vector :: "u8 \<Rightarrow> (nat \<times> u32) list \<Rightarrow> u32 option" where
  "start_vector core ws = snd (snd (fold (apply_icr core) ws (0, False, None)))"

text \<open>What the trampoline loads into CR3: \<open>mov eax, [ap_cr3]\<close> takes the low 32 bits.\<close>

definition low_half :: "u64 \<Rightarrow> u64" where
  "low_half w = ucast (ucast w :: u32)"

lemma low_half_same: "low_half w = w \<longleftrightarrow> w < 2 ^ 32"
proof -
  have "unat (low_half w) = unat w mod 2 ^ 32" by (simp add: low_half_def unsigned_ucast_eq take_bit_eq_mod unat_mod_distrib)
  then have "low_half w = w \<longleftrightarrow> unat w mod 2 ^ 32 = unat w" by (simp only: word_unat_eq_iff)
  also have "\<dots> \<longleftrightarrow> unat w < 2 ^ 32" using mod_less_divisor [of "2 ^ 32" "unat w"] by auto
  also have "\<dots> \<longleftrightarrow> w < 2 ^ 32" by (simp add: word_less_nat_alt)
  finally show ?thesis .
qed

definition ap_step :: "smp_config \<Rightarrow> 'm smp_state \<Rightarrow> 'm smp_state" where
  "ap_step c s =
     (case sm_ap s of
        AReset \<Rightarrow>
          (case start_vector (this_core_apic_id (cf_ap_ebx c)) (sm_lapic s) of
             None \<Rightarrow> s
           | Some v \<Rightarrow> s\<lparr>sm_ap := ATrampoline (push_bit 12 (ucast v))\<rparr>)
      | ATrampoline a \<Rightarrow>
          (case sm_slots s of
             None \<Rightarrow> s\<lparr>sm_ap := ALost\<rparr>
           | Some (ap_cr3, ap_stack_top, ap_entry_addr) \<Rightarrow>
               if a = TRAMPOLINE_PHYS_ADDR \<and> sm_blob s
               then let loaded = low_half ap_cr3
                    in s\<lparr>sm_loaded := Some (loaded, ap_stack_top, ap_entry_addr), sm_ap := if loaded = ap_cr3 then AGdt else ALost\<rparr>
               else s\<lparr>sm_ap := ALost\<rparr>)
      | AGdt \<Rightarrow> s\<lparr>sm_ap := AIdt\<rparr>
      | AIdt \<Rightarrow> s\<lparr>sm_ap := AReport\<rparr>
      | AReport \<Rightarrow> s\<lparr>AP_REPORTED_APIC_ID := ucast (this_core_apic_id (cf_ap_ebx c)), sm_ap := AStart\<rparr>
      | AStart \<Rightarrow> s\<lparr>AP_STARTED := True, sm_ap := AFault\<rparr>
      | AFault \<Rightarrow> s\<lparr>sm_ap := if cf_breakpoint c then ASurvive else ALost\<rparr>
      | ASurvive \<Rightarrow> s\<lparr>AP_FAULT_SURVIVED := True, sm_ap := AHalt\<rparr>
      | AHalt \<Rightarrow> s
      | ALost \<Rightarrow> s)"

inductive smp_step ::
    "smp_config \<Rightarrow> ('m, physical_allocator) map_to \<Rightarrow> cpu_control \<Rightarrow> 'm smp_state \<Rightarrow> 'm smp_state \<Rightarrow> bool"
  for c map_to cpu where
  bsp: "smp_step c map_to cpu s (bsp_step c map_to cpu s)"
| ap: "smp_step c map_to cpu s (ap_step c s)"
| clock: "smp_step c map_to cpu s (s\<lparr>sm_ticks := sm_ticks s + 1\<rparr>)"

definition smp_start :: "'m paging_globals \<Rightarrow> u64 \<Rightarrow> 'm smp_state" where
  "smp_start g t =
     \<lparr>sm_globals = g, sm_blob = False, sm_slots = None, sm_lapic = [], sm_ticks = t, AP_STARTED = False, AP_FAULT_SURVIVED = False,
      AP_REPORTED_APIC_ID = u64_max, sm_bsp = BMapLapic, sm_ap = AReset, sm_loaded = None\<rparr>"

inductive smp_reachable ::
    "smp_config \<Rightarrow> ('m, physical_allocator) map_to \<Rightarrow> cpu_control \<Rightarrow> 'm paging_globals \<Rightarrow> u64 \<Rightarrow> 'm smp_state \<Rightarrow> bool"
  for c map_to cpu g t where
  start: "smp_reachable c map_to cpu g t (smp_start g t)"
| step: "smp_reachable c map_to cpu g t s \<Longrightarrow> smp_step c map_to cpu s s' \<Longrightarrow> smp_reachable c map_to cpu g t s'"

text \<open>An interleaving as a list of moves.\<close>

datatype move = MBsp | MAp | MClock

fun smp_move :: "smp_config \<Rightarrow> ('m, physical_allocator) map_to \<Rightarrow> cpu_control \<Rightarrow> move \<Rightarrow> 'm smp_state \<Rightarrow> 'm smp_state" where
  "smp_move c map_to cpu MBsp s = bsp_step c map_to cpu s"
| "smp_move c map_to cpu MAp s = ap_step c s"
| "smp_move c map_to cpu MClock s = s\<lparr>sm_ticks := sm_ticks s + 1\<rparr>"

definition run_smp :: "smp_config \<Rightarrow> ('m, physical_allocator) map_to \<Rightarrow> cpu_control \<Rightarrow> move list \<Rightarrow> 'm smp_state \<Rightarrow> 'm smp_state" where
  "run_smp c map_to cpu schedule = fold (smp_move c map_to cpu) schedule"

text \<open>An interleaving in which the second processor answers at once.\<close>

definition prompt_moves :: "move list" where
  "prompt_moves = replicate 6 MBsp @ [MClock, MClock, MClock, MBsp, MBsp, MAp, MClock, MBsp, MBsp, MAp, MAp, MClock, MBsp]
     @ replicate 4 MAp @ [MBsp, MAp, MAp, MBsp]"

text \<open>The choice of the processor to start, and the check of \<open>kernel_main\<close> on the outcome.\<close>

definition choose_target :: "u8 \<Rightarrow> cpu_topology \<Rightarrow> u8 option" where
  "choose_target bsp_id topo =
     (if 2 \<le> cpu_count topo
      then map_option cpu_apic_id (find (\<lambda>cpu. cpu_enabled cpu \<and> cpu_apic_id cpu \<noteq> bsp_id) (cpus topo))
      else None)"

definition smp_check :: "u8 \<Rightarrow> 'm smp_state \<Rightarrow> bool" where
  "smp_check target s \<longleftrightarrow>
     sm_bsp s = BDone True \<and> ap_fault_survived s \<and> ap_reported_apic_id s = Some target"

section \<open>The invariant\<close>

text \<open>The first \<open>n\<close> commands of the protocol, and how many of them each place in the boot processor's program has sent.\<close>

definition command :: "smp_config \<Rightarrow> u32 \<Rightarrow> (nat \<times> u32) list" where
  "command c low = [(LAPIC_REG_ICR_HIGH, push_bit 24 (ucast (cf_target c))), (LAPIC_REG_ICR_LOW, low)]"

definition commands :: "smp_config \<Rightarrow> nat \<Rightarrow> (nat \<times> u32) list" where
  "commands c n = concat (List.take n [command c 0x4500, command c 0x4608, command c 0x4608])"

fun sent_at :: "bsp \<Rightarrow> nat set" where
  "sent_at (BWait n start k) = (if k \<le> 2 then {3 - k} else {})"
| "sent_at (BSipi k) = (if k \<le> 1 then {2 - k} else {})"
| "sent_at (BPollStarted d) = {3}"
| "sent_at (BStartedLate d) = {3}"
| "sent_at (BPollSurvived d) = {3}"
| "sent_at (BSurvivedLate d) = {3}"
| "sent_at (BDone b) = (if b then {3} else {0, 3})"
| "sent_at _ = {0}"

abbreviation core :: "smp_config \<Rightarrow> u8" where
  "core c \<equiv> this_core_apic_id (cf_ap_ebx c)"

definition prepared :: "smp_config \<Rightarrow> 'm smp_state \<Rightarrow> bool" where
  "prepared c s \<longleftrightarrow> sm_blob s \<and> sm_slots s = Some (cf_cr3 c, cf_stack_top c, cf_entry c)"

definition bsp_inv :: "smp_config \<Rightarrow> 'm smp_state \<Rightarrow> bool" where
  "bsp_inv c s \<longleftrightarrow>
     (\<exists>n \<in> sent_at (sm_bsp s). sm_lapic s = commands c n \<and> (0 < n \<longrightarrow> prepared c s))
     \<and> (\<forall>a. sm_bsp s = BPoke a \<longrightarrow> a = cf_stack_top c) \<and> (sm_bsp s \<in> {BAllocStack, BInit} \<or> (\<exists>a. sm_bsp s = BPoke a) \<longrightarrow> sm_blob s)
     \<and> (sm_bsp s = BInit \<longrightarrow> prepared c s)
     \<and> ((\<exists>d. sm_bsp s \<in> {BPollSurvived d, BSurvivedLate d}) \<longrightarrow> AP_STARTED s)
     \<and> (sm_bsp s = BDone True \<longrightarrow> AP_STARTED s \<and> AP_FAULT_SURVIVED s)"

definition ap_inv :: "smp_config \<Rightarrow> 'm smp_state \<Rightarrow> bool" where
  "ap_inv c s \<longleftrightarrow>
     (sm_ap s = ALost \<longrightarrow> \<not> (cf_cr3 c < 2 ^ 32 \<and> cf_breakpoint c)) \<and> (\<forall>a. sm_ap s = ATrampoline a \<longrightarrow> a = TRAMPOLINE_PHYS_ADDR)
     \<and> (sm_ap s \<noteq> AReset \<longrightarrow> start_vector (core c) (sm_lapic s) \<noteq> None)
     \<and> (sm_ap s \<notin> {AReset, ATrampoline TRAMPOLINE_PHYS_ADDR, ALost} \<longrightarrow> sm_loaded s = Some (cf_cr3 c, cf_stack_top c, cf_entry c) \<and> cf_cr3 c < 2 ^ 32)
     \<and> (sm_ap s \<in> {ASurvive, AHalt} \<longrightarrow> cf_breakpoint c)
     \<and> (sm_ap s \<noteq> ALost \<longrightarrow> AP_STARTED s = (sm_ap s \<in> {AFault, ASurvive, AHalt})
          \<and> AP_REPORTED_APIC_ID s = (if sm_ap s \<in> {AStart, AFault, ASurvive, AHalt} then ucast (core c) else u64_max))
     \<and> AP_FAULT_SURVIVED s = (sm_ap s = AHalt) \<and> (AP_STARTED s \<longrightarrow> cf_cr3 c < 2 ^ 32)"

lemma commands_list:
  "commands c 0 = []" "commands c (Suc 0) = command c 0x4500" "commands c 2 = command c 0x4500 @ command c 0x4608"
  "commands c 3 = command c 0x4500 @ command c 0x4608 @ command c 0x4608"
  by (simp_all add: commands_def)

lemma start_vector_commands:
  assumes "n \<le> 3"
  shows "start_vector i (commands c n) = (if 2 \<le> n \<and> i = cf_target c then Some 8 else None)"
proof -
  have "drop_bit 24 (push_bit 24 (ucast b :: u32)) = ucast b" for b :: u8
    by (rule bit_word_eqI) (auto simp: bit_simps dest: bit_imp_le_length)
  moreover have narrow: "ucast (ucast a :: u32) = a" for a :: u8 by (rule ucast_up_ucast_id) (simp add: is_up)
  moreover have "(ucast a :: u32) = ucast b \<longleftrightarrow> a = b" for a b :: u8
    by (metis narrow)
  moreover have "n = 0 \<or> n = 1 \<or> n = 2 \<or> n = 3" using assms by linarith
  ultimately show ?thesis
    by (auto simp: start_vector_def commands_list command_def LAPIC_REG_ICR_HIGH_def LAPIC_REG_ICR_LOW_def)
qed

lemma start_inv: "bsp_inv c (smp_start g t)" "ap_inv c (smp_start g t)"
  by (simp_all add: smp_start_def bsp_inv_def ap_inv_def commands_def)

lemma sent_at_le: "n \<in> sent_at b \<Longrightarrow> n \<le> 3"
  by (cases b) (auto split: if_splits)

text \<open>A processor that has been started was named as the target, and finds its page prepared.\<close>

lemma started_core:
  assumes "bsp_inv c s" and "start_vector i (sm_lapic s) = Some v"
  shows "v = 8" and "i = cf_target c" and "prepared c s"
proof -
  obtain n where n: "n \<in> sent_at (sm_bsp s)" "sm_lapic s = commands c n" "0 < n \<longrightarrow> prepared c s"
    using assms(1) unfolding bsp_inv_def by blast
  have "start_vector i (sm_lapic s) = (if 2 \<le> n \<and> i = cf_target c then Some 8 else None)"
    using start_vector_commands [OF sent_at_le [OF n(1)]] n(2) by simp
  then show "v = 8" "i = cf_target c" "prepared c s" using assms(2) n(3) by (auto split: if_splits)
qed

lemma ap_inv_cong:
  assumes "ap_inv c s" and "start_vector (core c) (sm_lapic s) \<noteq> None \<Longrightarrow> start_vector (core c) (sm_lapic s') \<noteq> None"
    and "sm_ap s' = sm_ap s" "sm_loaded s' = sm_loaded s" "AP_STARTED s' = AP_STARTED s"
      "AP_FAULT_SURVIVED s' = AP_FAULT_SURVIVED s" "AP_REPORTED_APIC_ID s' = AP_REPORTED_APIC_ID s"
  shows "ap_inv c s'"
  using assms unfolding ap_inv_def by simp

lemma ap_step_inv:
  assumes "bsp_inv c s" and "ap_inv c s"
  shows "bsp_inv c (ap_step c s) \<and> ap_inv c (ap_step c s)"
proof (cases "sm_ap s")
  case AReset
  show ?thesis
  proof (cases "start_vector (core c) (sm_lapic s)")
    case None
    then show ?thesis using assms AReset by (simp add: ap_step_def)
  next
    case (Some v)
    have "push_bit 12 (ucast v :: u64) = TRAMPOLINE_PHYS_ADDR"
      using started_core(1) [OF assms(1) Some] by (simp add: TRAMPOLINE_PHYS_ADDR_def)
    then show ?thesis using assms AReset Some by (auto simp: ap_step_def bsp_inv_def ap_inv_def prepared_def)
  qed
next
  case (ATrampoline a)
  then obtain v where "start_vector (core c) (sm_lapic s) = Some v" using assms(2) by (auto simp: ap_inv_def)
  then have "prepared c s" using started_core(3) [OF assms(1)] by blast
  then show ?thesis using assms ATrampoline by (auto simp: ap_step_def bsp_inv_def ap_inv_def prepared_def low_half_same)
qed (use assms in \<open>auto simp: ap_step_def bsp_inv_def ap_inv_def prepared_def\<close>)

lemma map_fixed_keeps:
  assumes "map_fixed map_to v f flags s = (s', ok)"
  obtains g where "s' = s\<lparr>sm_globals := g\<rparr>"
  using assms by (auto simp: map_fixed_def split: prod.splits)

lemma send_command:
  "lapic_write LAPIC_REG_ICR_LOW low (lapic_write LAPIC_REG_ICR_HIGH (push_bit 24 (ucast (cf_target c))) s) =
     s\<lparr>sm_lapic := sm_lapic s @ command c low\<rparr>"
  by (simp add: lapic_write_def command_def)

lemma started_after:
  assumes "sm_lapic s = commands c n" and "n \<le> m" and "m \<le> 3" and "start_vector i (sm_lapic s) \<noteq> None"
  shows "start_vector i (commands c m) \<noteq> None"
  using assms start_vector_commands [of n i c] start_vector_commands [of m i c] by (auto split: if_splits)

lemma bsp_step_keeps:
  "sm_ap (bsp_step c map_to cpu s) = sm_ap s" "sm_loaded (bsp_step c map_to cpu s) = sm_loaded s" "AP_STARTED (bsp_step c map_to cpu s) = AP_STARTED s"
  "AP_FAULT_SURVIVED (bsp_step c map_to cpu s) = AP_FAULT_SURVIVED s" "AP_REPORTED_APIC_ID (bsp_step c map_to cpu s) = AP_REPORTED_APIC_ID s"
  by (auto simp: bsp_step_def Let_def lapic_write_def elim!: map_fixed_keeps split: bsp.splits option.splits prod.splits)

lemma bsp_step_ap_inv:
  assumes "ap_inv c s" and "start_vector (core c) (sm_lapic s) \<noteq> None \<Longrightarrow> start_vector (core c) (sm_lapic (bsp_step c map_to cpu s)) \<noteq> None"
  shows "ap_inv c (bsp_step c map_to cpu s)"
  by (rule ap_inv_cong [OF assms bsp_step_keeps])

lemma bsp_step_inv:
  assumes "bsp_inv c s" and "ap_inv c s"
  shows "bsp_inv c (bsp_step c map_to cpu s) \<and> ap_inv c (bsp_step c map_to cpu s)"
proof (cases "sm_bsp s")
  case BMapLapic
  obtain s' ok where m: "map_fixed map_to LAPIC_VIRT_BASE (cf_lapic_phys c) (flags_or present_writable (nx_flag cpu)) s = (s', ok)"
    by (cases "map_fixed map_to LAPIC_VIRT_BASE (cf_lapic_phys c) (flags_or present_writable (nx_flag cpu)) s")
  obtain g where "s' = s\<lparr>sm_globals := g\<rparr>" using m by (rule map_fixed_keeps)
  then show ?thesis using assms(1) BMapLapic m by (auto intro!: ap_inv_cong [OF assms(2)] simp: bsp_step_def bsp_inv_def prepared_def)
next
  case BMapTrampoline
  obtain s' ok where m: "map_fixed map_to TRAMPOLINE_PHYS_ADDR TRAMPOLINE_PHYS_ADDR present_writable s = (s', ok)"
    by (cases "map_fixed map_to TRAMPOLINE_PHYS_ADDR TRAMPOLINE_PHYS_ADDR present_writable s")
  obtain g where "s' = s\<lparr>sm_globals := g\<rparr>" using m by (rule map_fixed_keeps)
  then show ?thesis using assms(1) BMapTrampoline m by (auto intro!: ap_inv_cong [OF assms(2)] simp: bsp_step_def bsp_inv_def prepared_def)
next
  case BInit
  have l: "sm_lapic s = commands c 0" using assms(1) BInit by (auto simp: bsp_inv_def)
  have "ap_inv c (bsp_step c map_to cpu s)"
    by (rule bsp_step_ap_inv [OF assms(2)])
      (use BInit l started_after [OF l, of 1 "core c"] in \<open>simp_all add: bsp_step_def Let_def send_command commands_list\<close>)
  then show ?thesis using assms(1) BInit l by (auto simp: bsp_step_def Let_def send_command commands_list bsp_inv_def prepared_def)
next
  case (BSipi k)
  have v: "(0x4600 OR ucast (drop_bit 12 TRAMPOLINE_PHYS_ADDR)) = (0x4608 :: u32)" by (simp add: TRAMPOLINE_PHYS_ADDR_def)
  have k: "k = 0 \<or> k = 1" and l: "sm_lapic s = commands c (2 - k)" "prepared c s"
    using assms(1) BSipi by (auto simp: bsp_inv_def split: if_splits)
  have n: "sm_lapic s @ command c 0x4608 = commands c (3 - k)" using k l(1) by (auto simp: commands_list)
  have "ap_inv c (bsp_step c map_to cpu s)"
    by (rule bsp_step_ap_inv [OF assms(2)])
      (use BSipi k n started_after [OF l(1), of "3 - k" "core c"] in \<open>auto simp: bsp_step_def Let_def v send_command\<close>)
  then show ?thesis using assms(1) BSipi l k n by (auto simp: bsp_step_def Let_def v send_command bsp_inv_def prepared_def)
qed (use assms(1) in \<open>auto intro!: ap_inv_cong [OF assms(2)] simp: bsp_step_def bsp_inv_def prepared_def split: option.splits if_splits\<close>)

lemma smp_reachable_inv:
  assumes "smp_reachable c map_to cpu g t s"
  shows "bsp_inv c s \<and> ap_inv c s"
  using assms
proof induction
  case start
  then show ?case by (simp add: start_inv)
next
  case (step s s')
  from step(2) show ?case
  proof cases
    case bsp
    then show ?thesis using bsp_step_inv step(3) by blast
  next
    case ap
    then show ?thesis using ap_step_inv step(3) by blast
  next
    case clock
    then show ?thesis using step(3) by (auto simp: bsp_inv_def ap_inv_def prepared_def)
  qed
qed

text \<open>The places of the boot processor's program that use the heap or the page allocator.\<close>

definition bsp_allocates :: "bsp \<Rightarrow> bool" where
  "bsp_allocates b \<longleftrightarrow> b \<in> {BMapLapic, BMapTrampoline, BAllocStack}"

lemma idle_until_sent:
  assumes "bsp_inv c s" and "start_vector i (sm_lapic s) = Some v"
  shows "\<not> bsp_allocates (sm_bsp s)"
proof
  assume "bsp_allocates (sm_bsp s)"
  then have "sm_lapic s = commands c 0" using assms(1) by (auto simp: bsp_allocates_def bsp_inv_def)
  then show False using assms(2) start_vector_commands [of 0 i c] by simp
qed

lemma reported_id: "AP_REPORTED_APIC_ID s = ucast (i :: u8) \<Longrightarrow> ap_reported_apic_id s = Some i"
proof -
  assume a: "AP_REPORTED_APIC_ID s = ucast i"
  have narrow: "ucast (ucast i :: u64) = i" by (rule ucast_up_ucast_id) (simp add: is_up)
  have "bit u64_max 8" "\<not> bit (ucast i :: u64) 8"
    by (auto simp: u64_max_def bit_simps dest: bit_imp_le_length)
  then have "(ucast i :: u64) \<noteq> u64_max" by metis
  then show ?thesis using a narrow by (simp add: ap_reported_apic_id_def)
qed

lemma smp_moves_reachable: "smp_reachable c map_to cpu g t (run_smp c map_to cpu ms (smp_start g t))"
proof (induction ms rule: rev_induct)
  case Nil
  then show ?case by (simp add: run_smp_def smp_reachable.start)
next
  case (snoc m ms)
  have "smp_step c map_to cpu s (smp_move c map_to cpu m s)" for s by (cases m) (simp_all add: smp_step.intros)
  then show ?case using smp_reachable.step [OF snoc.IH] by (simp add: run_smp_def)
qed

text \<open>What the flags say once \<open>bring_up_ap\<close> has returned true.\<close>

lemma bring_up_done:
  assumes "smp_reachable c map_to cpu g t s" and "sm_bsp s = BDone True"
  shows "core c = cf_target c" and "sm_ap s = AHalt" and "ap_reported_apic_id s = Some (core c)" and "smp_check (cf_target c) s"
    and "sm_loaded s = Some (cf_cr3 c, cf_stack_top c, cf_entry c)" and "sm_lapic s = commands c 3"
    and "cf_cr3 c < 2 ^ 32"
proof -
  have b: "bsp_inv c s" and a: "ap_inv c s" using smp_reachable_inv [OF assms(1)] by blast+
  show h: "sm_ap s = AHalt" and "sm_lapic s = commands c 3" using a b assms(2) by (auto simp: ap_inv_def bsp_inv_def)
  then obtain v where "start_vector (core c) (sm_lapic s) = Some v" using a by (auto simp: ap_inv_def)
  then show i: "core c = cf_target c" using started_core(2) [OF b] by blast
  show r: "ap_reported_apic_id s = Some (core c)" using a h by (intro reported_id) (simp add: ap_inv_def)
  show "sm_loaded s = Some (cf_cr3 c, cf_stack_top c, cf_entry c)" using a h by (simp add: ap_inv_def)
  show "cf_cr3 c < 2 ^ 32" using a h by (simp add: ap_inv_def)
  show "smp_check (cf_target c) s" using a h i r assms(2) by (simp add: ap_inv_def smp_check_def ap_fault_survived_def)
qed

section \<open>Properties\<close>

text \<open>
  C33: Start-up of the second processor, under every interleaving of the two processors and the timer. When \<open>bring_up_ap\<close> returns true, the page table is below 4 GiB, the
  processor that runs is the one that was targeted, it has reported its own identifier, taken and survived its fault and stopped for good, it was started with
  the stored page table, stack and entry point, and the controller has seen one initialisation and two start-up commands; the boot check then passes.
  A processor that has left its reset state is always the targeted one and always finds its page prepared; it is not lost when the page table is below 4 GiB and its breakpoint is handled. While it
  sets up its own descriptor tables on the heap, the boot processor is at no place that allocates and has not returned true. With the page table at or above 4 GiB, of whose address the
  trampoline loads the low half, the second processor never reaches the code that was prepared for it and \<open>bring_up_ap\<close> does not return true.
\<close>
theorem smp_bring_up_sound:
  assumes "smp_reachable c map_to cpu g t s"
  shows "(sm_bsp s = BDone True \<longrightarrow>
       cf_cr3 c < 2 ^ 32 \<and> core c = cf_target c \<and> sm_ap s = AHalt \<and> smp_check (cf_target c) s
       \<and> sm_loaded s = Some (cf_cr3 c, cf_stack_top c, cf_entry c)
       \<and> sm_lapic s = command c 0x4500 @ command c 0x4608 @ command c 0x4608)
    \<and> (sm_ap s \<noteq> AReset \<longrightarrow> core c = cf_target c \<and> prepared c s)
    \<and> (cf_cr3 c < 2 ^ 32 \<and> cf_breakpoint c \<longrightarrow> sm_ap s \<noteq> ALost)
    \<and> (sm_ap s = AGdt \<longrightarrow> \<not> bsp_allocates (sm_bsp s) \<and> sm_bsp s \<noteq> BDone True)
    \<and> (2 ^ 32 \<le> cf_cr3 c \<longrightarrow> sm_ap s \<in> {AReset, ATrampoline TRAMPOLINE_PHYS_ADDR, ALost} \<and> sm_bsp s \<noteq> BDone True)"
proof -
  have b: "bsp_inv c s" and a: "ap_inv c s" using smp_reachable_inv [OF assms] by blast+
  have started: "core c = cf_target c \<and> prepared c s \<and> \<not> bsp_allocates (sm_bsp s)" if running: "sm_ap s \<noteq> AReset"
  proof -
    obtain v where "start_vector (core c) (sm_lapic s) = Some v" using a running by (auto simp: ap_inv_def)
    then show ?thesis using started_core(2,3) [OF b] idle_until_sent [OF b] by blast
  qed
  note fin = bring_up_done [OF assms]
  have "sm_ap s \<in> {AReset, ATrampoline TRAMPOLINE_PHYS_ADDR, ALost} \<and> sm_bsp s \<noteq> BDone True" if "2 ^ 32 \<le> cf_cr3 c"
    using a fin(7) that by (auto simp: ap_inv_def)
  moreover have "cf_cr3 c < 2 ^ 32 \<and> cf_breakpoint c \<longrightarrow> sm_ap s \<noteq> ALost" using a by (auto simp: ap_inv_def)
  moreover have "sm_bsp s \<noteq> BDone True" if "sm_ap s = AGdt" using fin(2) that by auto
  ultimately show ?thesis using started fin(1,2,4-7) by (auto simp: commands_list)
qed

definition sample_smp :: smp_config where
  "sample_smp = \<lparr>cf_target = 1, cf_lapic_phys = 0xFEE00000, cf_cr3 = 0x101000, cf_entry = 0x200000, cf_stack_top = 0x444444450000, cf_ap_ebx = 0x01000800, cf_breakpoint = True\<rparr>"

theorem smp_bring_up_sound_witness:
  "\<exists>s. smp_reachable sample_smp walk_map_to \<lparr>cpu_efer = 0, cpu_cr4 = 0, NX_ENABLED = True\<rparr>
       \<lparr>MAPPER = Some walk_new, PHYS = Some sample_phys, PHYS_MEM_OFFSET = Some 0, PAGE_FAULTS_DEMAND_PAGED = 0\<rparr> 400 s
     \<and> sm_bsp s = BDone True \<and> sm_ap s = AHalt \<and> smp_check 1 s"
proof -
  let ?cpu = "\<lparr>cpu_efer = 0, cpu_cr4 = 0, NX_ENABLED = True\<rparr>"
  let ?g = "\<lparr>MAPPER = Some walk_new, PHYS = Some sample_phys, PHYS_MEM_OFFSET = Some 0, PAGE_FAULTS_DEMAND_PAGED = 0\<rparr>"
  let ?s = "run_smp sample_smp walk_map_to ?cpu prompt_moves (smp_start ?g 400)"
  have r: "smp_reachable sample_smp walk_map_to ?cpu ?g 400 ?s" by (rule smp_moves_reachable)
  moreover have "sm_bsp ?s = BDone True" by code_simp
  moreover have "sm_ap ?s = AHalt \<and> smp_check 1 ?s"
    using smp_bring_up_sound [OF r] calculation(2) by (simp add: sample_smp_def)
  ultimately show ?thesis by blast
qed

end
