(* ===== verification/Smp_Run.thy ===== *)
theory Smp_Run
  imports Smp
begin

text \<open>
  \<open>bring_up_ap\<close> always returns. Its waiting loops are paced by the timer, so a schedule in which the boot processor and the timer
  both keep moving takes it to its end, whatever the other processor does.
\<close>

section \<open>The distance to the end\<close>

definition bsp_done :: "'m smp_state \<Rightarrow> bool" where
  "bsp_done s \<longleftrightarrow> (case sm_bsp s of BDone b \<Rightarrow> True | _ \<Rightarrow> False)"

text \<open>Ticks until a deadline has passed.\<close>

definition until :: "u64 \<Rightarrow> 'm smp_state \<Rightarrow> nat" where
  "until deadline s = Suc (unat deadline) - unat (sm_ticks s)"

definition wait_left :: "'m smp_state \<Rightarrow> nat" where
  "wait_left s =
     (case sm_bsp s of
        BWait n start k \<Rightarrow> unat (start + of_nat n) - unat (sm_ticks s)
      | BPollStarted d \<Rightarrow> until d s | BStartedLate d \<Rightarrow> until d s | BPollSurvived d \<Rightarrow> until d s | BSurvivedLate d \<Rightarrow> until d s
      | _ \<Rightarrow> 0)"

text \<open>A poll and the look at the clock after it are as far from the end as each other while the deadline has not passed.\<close>

definition late_rank :: "nat \<Rightarrow> nat" where
  "late_rank n = (if n = 0 then 1 else 3 * n + 2)"

definition rank :: "'m smp_state \<Rightarrow> nat" where
  "rank s =
     (case sm_bsp s of
        BMapLapic \<Rightarrow> 1227 | BMapTrampoline \<Rightarrow> 1226 | BCopy \<Rightarrow> 1225 | BAllocStack \<Rightarrow> 1224 | BPoke a \<Rightarrow> 1223 | BInit \<Rightarrow> 1222
      | BWait n start k \<Rightarrow> 1212 + 3 * k + wait_left s
      | BSipi k \<Rightarrow> 1214 + 3 * k
      | BPollStarted d \<Rightarrow> 606 + 3 * wait_left s + 2
      | BStartedLate d \<Rightarrow> 606 + late_rank (wait_left s)
      | BPollSurvived d \<Rightarrow> 3 * wait_left s + 2
      | BSurvivedLate d \<Rightarrow> late_rank (wait_left s)
      | BDone b \<Rightarrow> 0)"

lemmas rank_defs = rank_def wait_left_def until_def late_rank_def bsp_done_def

lemma rank_pos: "\<not> bsp_done s \<Longrightarrow> 0 < rank s"
  by (auto simp: rank_defs split: bsp.splits)

lemma map_fixed_ticks: "map_fixed map_to v f flags s = (s', ok) \<Longrightarrow> sm_ticks s' = sm_ticks s"
  by (auto simp: map_fixed_def split: prod.splits)

lemma deadline_ahead: "unat t + 200 < 2 ^ 64 \<Longrightarrow> n \<le> 200 \<Longrightarrow> unat (t + of_nat n :: u64) = unat t + n"
  by (simp add: unat_add_u64 unat_of_nat)

text \<open>A step of the boot processor goes nearer to the end unless it waits, and then it changes neither the distance nor the wait.\<close>

lemma bsp_step_rank:
  assumes "unat (sm_ticks s) + 200 < 2 ^ 64" and "\<not> bsp_done s"
  shows "rank (bsp_step c map_to cpu s) < rank s \<or> (0 < wait_left s \<and> rank (bsp_step c map_to cpu s) = rank s \<and> wait_left (bsp_step c map_to cpu s) = wait_left s)"
proof -
  note d = deadline_ahead [OF assms(1)] deadline_ahead [OF assms(1), of 200, simplified] deadline_ahead [OF assms(1), of 3, simplified]
    deadline_ahead [OF assms(1), of 1, simplified]
  show ?thesis
    using assms(2) d map_fixed_ticks
    by (cases "sm_bsp s") (auto simp: bsp_step_def rank_defs Let_def lapic_write_def word_less_nat_alt split: option.splits prod.splits)
qed

lemma clock_rank:
  assumes "unat (sm_ticks s) + 1 < 2 ^ 64"
  shows "rank (s\<lparr>sm_ticks := sm_ticks s + 1\<rparr>) < rank s
    \<or> (wait_left s = 0 \<and> rank (s\<lparr>sm_ticks := sm_ticks s + 1\<rparr>) = rank s \<and> wait_left (s\<lparr>sm_ticks := sm_ticks s + 1\<rparr>) = 0)"
proof -
  have "unat (sm_ticks s + 1) = Suc (unat (sm_ticks s))" using assms by (simp add: unat_add_u64)
  then show ?thesis by (cases "sm_bsp s") (auto simp: rank_defs)
qed

lemma ap_step_bsp: "sm_bsp (ap_step c s) = sm_bsp s" "sm_ticks (ap_step c s) = sm_ticks s"
  by (auto simp: ap_step_def Let_def split: ap.splits option.splits)

lemma ap_step_rank: "rank (ap_step c s) = rank s" "wait_left (ap_step c s) = wait_left s"
  by (cases "sm_bsp s"; simp add: rank_def wait_left_def until_def ap_step_bsp)+

section \<open>Turns\<close>

text \<open>
  A turn is a stretch of the schedule in which the boot processor and the timer have both moved; the flags say which of the two already has.
\<close>

fun turns :: "bool \<Rightarrow> bool \<Rightarrow> move list \<Rightarrow> nat" where
  "turns b k [] = 0"
| "turns b k (m # ms) =
     (let b = (b \<or> m = MBsp); k = (k \<or> m = MClock)
      in if b \<and> k then Suc (turns False False ms) else turns b k ms)"

lemma done_kept: "bsp_done s \<Longrightarrow> bsp_done (smp_move c map_to cpu m s)"
  by (cases m) (auto simp: bsp_done_def bsp_step_def ap_step_bsp split: bsp.splits)

lemma done_at_end: "bsp_done s \<Longrightarrow> bsp_done (run_smp c map_to cpu ms s)"
  unfolding run_smp_def by (induction ms arbitrary: s) (simp_all add: done_kept)

lemma bsp_step_ticks: "sm_ticks (bsp_step c map_to cpu s) = sm_ticks s"
  by (auto simp: bsp_step_def Let_def lapic_write_def dest: map_fixed_ticks split: bsp.splits option.splits prod.splits)

text \<open>Each turn takes \<open>bring_up_ap\<close> nearer to its end; \<open>d\<close> says that the current turn already has.\<close>

lemma turns_rank:
  assumes "\<not> bsp_done (run_smp c map_to cpu ms s)" and "unat (sm_ticks s) + count_list ms MClock + 200 < 2 ^ 64"
    and "\<not> d \<Longrightarrow> (b \<longrightarrow> 0 < wait_left s) \<and> (k \<longrightarrow> wait_left s = 0)"
  shows "rank (run_smp c map_to cpu ms s) + turns b k ms \<le> rank s + (if d then 1 else 0)"
  using assms
proof (induction ms arbitrary: s b k d)
  case Nil
  then show ?case by (simp add: run_smp_def)
next
  case (Cons m ms)
  let ?s = "smp_move c map_to cpu m s" and ?b = "b \<or> m = MBsp" and ?k = "k \<or> m = MClock"
  have run: "run_smp c map_to cpu (m # ms) s = run_smp c map_to cpu ms ?s" by (simp add: run_smp_def)
  have nd: "\<not> bsp_done (run_smp c map_to cpu ms ?s)" "\<not> bsp_done s"
    using Cons.prems(1) run done_at_end [of ?s] done_kept [of s] by metis+
  have t: "unat (sm_ticks ?s) + count_list ms MClock + 200 < 2 ^ 64" "unat (sm_ticks s) + 200 < 2 ^ 64"
    using Cons.prems(2) by (cases m; simp add: bsp_step_ticks ap_step_bsp unat_add_u64)+
  note IH = Cons.IH [OF nd(1) t(1)]
  have step: "rank ?s < rank s \<or> (rank ?s = rank s \<and> wait_left ?s = wait_left s
      \<and> (m = MBsp \<longrightarrow> 0 < wait_left s) \<and> (m = MClock \<longrightarrow> wait_left s = 0))"
  proof (cases m)
    case MBsp
    then show ?thesis using bsp_step_rank [OF t(2) nd(2), of c map_to cpu] by auto
  next
    case MAp
    then show ?thesis by (simp add: ap_step_rank)
  next
    case MClock
    then show ?thesis using clock_rank [of s] t(2) by auto
  qed
  show ?case
  proof (cases "?b \<and> ?k")
    case True
    then have "rank ?s < rank s + (if d then 1 else 0)" using step Cons.prems(3) by (cases d) auto
    then show ?thesis using IH [where b = False and k = False and d = False] True run by auto
  next
    case False
    then have tn: "turns b k (m # ms) = turns ?b ?k ms" unfolding turns.simps Let_def by (simp only: if_False simp_thms)
    from step show ?thesis
    proof
      assume "rank ?s < rank s"
      then show ?thesis using IH [where b = ?b and k = ?k and d = True] tn run by simp
    next
      assume "rank ?s = rank s \<and> wait_left ?s = wait_left s \<and> (m = MBsp \<longrightarrow> 0 < wait_left s) \<and> (m = MClock \<longrightarrow> wait_left s = 0)"
      then show ?thesis using IH [where b = ?b and k = ?k and d = d] tn run Cons.prems(3) by auto
    qed
  qed
qed

text \<open>The 1227 turns are three ticks after the initialisation, one after each start-up message, two timeouts of 200 ticks at three places each, and the steps between them.\<close>

lemma bring_up_returns:
  assumes "1227 \<le> turns False False schedule" and "unat t + count_list schedule MClock + 200 < 2 ^ 64"
  obtains started where "sm_bsp (run_smp c map_to cpu schedule (smp_start g t)) = BDone started"
proof -
  let ?s = "run_smp c map_to cpu schedule (smp_start g t)"
  have r: "rank (smp_start g t) = 1227" and st: "sm_ticks (smp_start g t) = t" by (simp_all add: rank_def smp_start_def)
  have "bsp_done ?s"
  proof (rule ccontr)
    assume nd: "\<not> bsp_done ?s"
    then have "rank ?s + turns False False schedule \<le> 1227"
      using turns_rank [OF nd, where b = False and k = False and d = False] assms(2) r st by simp
    then show False using rank_pos [OF nd] assms(1) by simp
  qed
  then show thesis using that by (auto simp: bsp_done_def split: bsp.splits)
qed

section \<open>A prompt answer\<close>

lemma run_smp_append: "run_smp c map_to cpu (xs @ ys) s = run_smp c map_to cpu ys (run_smp c map_to cpu xs s)"
  by (simp add: run_smp_def)

lemma outcome_kept: "sm_bsp s = BDone b \<Longrightarrow> sm_bsp (run_smp c map_to cpu ms s) = BDone b"
proof (induction ms arbitrary: s)
  case (Cons m ms)
  then have "sm_bsp (smp_move c map_to cpu m s) = BDone b" by (cases m) (simp_all add: bsp_step_def ap_step_bsp)
  then show ?case using Cons.IH by (simp add: run_smp_def)
qed (simp add: run_smp_def)

text \<open>When both pages can be mapped, a processor that is the target and answers at once is brought up.\<close>

lemma prompt_answer:
  assumes m1: "\<And>s. sm_globals s = g \<Longrightarrow>
      map_fixed map_to LAPIC_VIRT_BASE (cf_lapic_phys c) (flags_or present_writable (nx_flag cpu)) s = (s\<lparr>sm_globals := g1\<rparr>, True)"
    and m2: "\<And>s. sm_globals s = g1 \<Longrightarrow> map_fixed map_to TRAMPOLINE_PHYS_ADDR TRAMPOLINE_PHYS_ADDR present_writable s = (s\<lparr>sm_globals := g2\<rparr>, True)"
    and off: "phys_mem_offset g2 \<noteq> None" and core: "core c = cf_target c" and low: "cf_cr3 c < 2 ^ 32" and bp: "cf_breakpoint c"
  shows "sm_bsp (run_smp c map_to cpu (prompt_moves @ rest) (smp_start g t)) = BDone True"
proof -
  let ?run = "run_smp c map_to cpu"
  let ?s = "(smp_start g t)\<lparr>sm_globals := g2, sm_blob := True, sm_slots := Some (cf_cr3 c, cf_stack_top c, cf_entry c)\<rparr>"
  have vec: "(0x4600 OR ucast (drop_bit 12 TRAMPOLINE_PHYS_ADDR)) = (0x4608 :: u32)" by (simp add: TRAMPOLINE_PHYS_ADDR_def)
  have icr: "start_vector (core c) (commands c 2) = Some 8" using start_vector_commands [of 2 "core c" c] core by simp
  have cmd: "command c 0x4500 @ command c 0x4608 = commands c 2" "commands c 2 @ command c 0x4608 = commands c 3" by (simp_all add: commands_list)
  have page: "push_bit 12 (ucast (8 :: u32)) = TRAMPOLINE_PHYS_ADDR" by (simp add: TRAMPOLINE_PHYS_ADDR_def)
  obtain o' where off': "phys_mem_offset g2 = Some o'" using off by blast
  have init: "?run [MBsp] s = s\<lparr>sm_lapic := sm_lapic s @ command c 0x4500, sm_bsp := BWait 3 (sm_ticks s) 2\<rparr>" if "sm_bsp s = BInit" for s
    using that by (simp add: run_smp_def bsp_step_def Let_def lapic_write_def command_def)
  have sipi: "?run [MBsp] s = s\<lparr>sm_lapic := sm_lapic s @ command c 0x4608, sm_bsp := BWait 1 (sm_ticks s) k\<rparr>" if "sm_bsp s = BSipi k" for s k
    using that vec by (simp add: run_smp_def bsp_step_def Let_def lapic_write_def command_def)
  have lh: "low_half (cf_cr3 c) = cf_cr3 c" using low by (simp only: low_half_same)
  note steps = run_smp_def bsp_step_def ap_step_def icr page lh bp Let_def
  have a: "?run (replicate 5 MBsp) (smp_start g t) = ?s\<lparr>sm_bsp := BInit\<rparr>"
    using m1 m2 off' by (simp add: steps smp_start_def numeral_eq_Suc)
  have b: "?run [MClock, MClock, MClock, MBsp] (?s\<lparr>sm_lapic := l, sm_bsp := BWait 3 t 2\<rparr>) =
      ?s\<lparr>sm_lapic := l, sm_bsp := BSipi 1, sm_ticks := t + 3\<rparr>" for l
    by (simp add: steps smp_start_def add.commute)
  have c: "?run [MAp, MClock, MBsp] (?s\<lparr>sm_lapic := commands c 2, sm_bsp := BWait 1 (t + 3) 1, sm_ticks := t + 3\<rparr>) =
      ?s\<lparr>sm_lapic := commands c 2, sm_bsp := BSipi 0, sm_ticks := t + 4, sm_ap := ATrampoline TRAMPOLINE_PHYS_ADDR\<rparr>"
    by (simp add: steps smp_start_def TRAMPOLINE_PHYS_ADDR_def)
  have d: "sm_bsp (?run ([MAp, MAp, MClock, MBsp] @ replicate 4 MAp @ [MBsp, MAp, MAp, MBsp])
      (?s\<lparr>sm_lapic := l, sm_bsp := BWait 1 (t + 4) 0, sm_ticks := t + 4, sm_ap := ATrampoline TRAMPOLINE_PHYS_ADDR\<rparr>)) = BDone True" for l
    by (simp add: steps smp_start_def numeral_eq_Suc)
  have moves: "prompt_moves = replicate 5 MBsp @ [MBsp] @ [MClock, MClock, MClock, MBsp] @ [MBsp] @ [MAp, MClock, MBsp] @ [MBsp]
      @ ([MAp, MAp, MClock, MBsp] @ replicate 4 MAp @ [MBsp, MAp, MAp, MBsp])"
    by (simp add: prompt_moves_def numeral_eq_Suc)
  have rest: "?run ([MBsp] @ ms) (?s\<lparr>sm_bsp := BInit\<rparr>) = ?run ms (?s\<lparr>sm_lapic := command c 0x4500, sm_bsp := BWait 3 t 2\<rparr>)"
    "?run ([MBsp] @ ms) (?s\<lparr>sm_lapic := command c 0x4500, sm_bsp := BSipi 1, sm_ticks := t + 3\<rparr>) =
       ?run ms (?s\<lparr>sm_lapic := commands c 2, sm_bsp := BWait 1 (t + 3) 1, sm_ticks := t + 3\<rparr>)"
    "?run ([MBsp] @ ms) (?s\<lparr>sm_lapic := commands c 2, sm_bsp := BSipi 0, sm_ticks := t + 4, sm_ap := ATrampoline TRAMPOLINE_PHYS_ADDR\<rparr>) =
       ?run ms (?s\<lparr>sm_lapic := commands c 3, sm_bsp := BWait 1 (t + 4) 0, sm_ticks := t + 4, sm_ap := ATrampoline TRAMPOLINE_PHYS_ADDR\<rparr>)" for ms
    by (simp_all add: run_smp_append [of _ _ _ "[MBsp]"] init sipi cmd smp_start_def append_Nil del: append_Cons)
  have "sm_bsp (?run prompt_moves (smp_start g t)) = BDone True"
    unfolding moves
    by (simp only: run_smp_append [of _ _ _ "replicate 5 MBsp"] run_smp_append [of _ _ _ "[MClock, MClock, MClock, MBsp]"]
        run_smp_append [of _ _ _ "[MAp, MClock, MBsp]"] a b c rest d)
  then show ?thesis by (subst run_smp_append) (rule outcome_kept)
qed

end
