(* ===== verification/Kernel_Main.thy ===== *)
theory Kernel_Main
  imports Boot_Memory Boot_Wait Smp_Run
begin

text \<open>
  \<open>kernel_main\<close> from the end of memory bring-up to the exit: the checks in their order, each on the state the one before it left. The allocator, the
  page tables, the data and the scheduler are those of the other theories, so the theorem at the end is about all of them together.
  Interrupts are on from \<open>LateBoot\<close>: the ticks that arrive before \<open>init\<close> only count, and those between \<open>init\<close> and the waiting loop are taken to arrive in
  the loop, since \<open>kernel_main\<close> touches nothing in between that a task touches. Where the ticks of the loop land in the tasks is a parameter, \<open>pace\<close>. The two processors and the timer run \<open>bring_up_ap\<close> under an arbitrary schedule. Console output is omitted. A panic or a page fault that is not resolved is \<open>None\<close>.
\<close>

section \<open>What the boot finds\<close>






section \<open>The checks in order\<close>


section \<open>The tick counter and init\<close>












section \<open>The stages together\<close>



section \<open>Property\<close>








end
