(* ===== verification/Gdt.thy ===== *)
theory Gdt
  imports UOSC_Prelude
begin

text \<open>
  The descriptor tables (\<open>gdt.rs\<close>): the task state segment with its double-fault and privilege stacks, the global descriptor table with its
  selectors, and the loading of the segment registers on the boot processor (\<open>init\<close>) and on the second one
  (\<open>init_for_ap\<close>). \<open>GlobalDescriptorTable\<close> of the x86_64 crate is a parameter with the laws of its documentation (locale \<open>gdt_table\<close>);
  the interpretation is a table of eight 64-bit words in the encoding of the processor. The segment registers load under the checks of the processor,
  and a general protection fault is \<open>None\<close>. The addresses of the static or leaked stacks and of the task state segment are arguments.
\<close>

section \<open>Selectors and descriptors\<close>

text \<open>A task state segment descriptor refers to the segment by its address.\<close>

datatype descriptor = Kernel_Code_Segment | User_Data_Segment | User_Code_Segment | Tss_Segment u64

fun slots_of :: "descriptor \<Rightarrow> nat" where
  "slots_of (Tss_Segment _) = 2"
| "slots_of _ = 1"

fun dpl_of :: "descriptor \<Rightarrow> u16" where
  "dpl_of User_Data_Segment = 3"
| "dpl_of User_Code_Segment = 3"
| "dpl_of _ = 0"

definition segment_selector :: "nat \<Rightarrow> u16 \<Rightarrow> u16" where
  "segment_selector i rpl = push_bit 3 (of_nat i) OR rpl"

definition selector_index :: "u16 \<Rightarrow> nat" where
  "selector_index sel = unat (drop_bit 3 sel)"

definition selector_rpl :: "u16 \<Rightarrow> u16" where
  "selector_rpl sel = sel AND 3"

section \<open>Task state segment\<close>

definition DOUBLE_FAULT_IST_INDEX :: u16 where
  "DOUBLE_FAULT_IST_INDEX = 0"

definition FAULT_STACK_SIZE :: u64 where
  "FAULT_STACK_SIZE = 4096 * 5"

record task_state_segment =
  interrupt_stack_table :: "u64 list"
  privilege_stack_table :: "u64 list"

text \<open>The sum of a virtual address and an offset: \<open>None\<close>, a panic, when it overflows or is not canonical.\<close>

definition is_canonical :: "u64 \<Rightarrow> bool" where
  "is_canonical a \<longleftrightarrow> a < 0x800000000000 \<or> 0xFFFF800000000000 \<le> a"

definition virt_add :: "u64 \<Rightarrow> u64 \<Rightarrow> u64 option" where
  "virt_add a n = (if a \<le> a + n \<and> is_canonical (a + n) then Some (a + n) else None)"

text \<open>\<open>new_tss\<close> is the segment that the crate's constructor returns.\<close>

definition tss_with_stacks :: "task_state_segment \<Rightarrow> u64 \<Rightarrow> u64 \<Rightarrow> task_state_segment option" where
  "tss_with_stacks new_tss double_fault_stack priv_stack =
     (case virt_add double_fault_stack FAULT_STACK_SIZE of
        None \<Rightarrow> None
      | Some top1 \<Rightarrow>
          let tss = new_tss\<lparr>interrupt_stack_table := (interrupt_stack_table new_tss)[unat DOUBLE_FAULT_IST_INDEX := top1]\<rparr>
          in (case virt_add priv_stack FAULT_STACK_SIZE of
                None \<Rightarrow> None
              | Some top2 \<Rightarrow> Some (tss\<lparr>privilege_stack_table := (privilege_stack_table tss)[0 := top2]\<rparr>)))"

definition TSS :: "task_state_segment \<Rightarrow> u64 \<Rightarrow> u64 \<Rightarrow> task_state_segment option" where
  "TSS new_tss double_fault_stack priv_stack = tss_with_stacks new_tss double_fault_stack priv_stack"

section \<open>The tables\<close>

text \<open>\<open>append_gdt\<close> is the crate's \<open>append\<close>: it returns \<open>None\<close> when the table is full, a panic of the crate.\<close>

type_synonym 'g append_fn = "descriptor \<Rightarrow> 'g \<Rightarrow> ('g \<times> u16) option"

record selectors =
  code_selector :: u16
  tss_selector :: u16
  user_code_selector :: u16
  user_data_selector :: u16

definition GDT :: "'g \<Rightarrow> 'g append_fn \<Rightarrow> u64 \<Rightarrow> ('g \<times> selectors) option" where
  "GDT new_gdt append_gdt tss =
     (case append_gdt Kernel_Code_Segment new_gdt of
        None \<Rightarrow> None
      | Some (gdt, code_sel) \<Rightarrow>
     (case append_gdt (Tss_Segment tss) gdt of
        None \<Rightarrow> None
      | Some (gdt, tss_sel) \<Rightarrow>
     (case append_gdt User_Data_Segment gdt of
        None \<Rightarrow> None
      | Some (gdt, user_data) \<Rightarrow>
     (case append_gdt User_Code_Segment gdt of
        None \<Rightarrow> None
      | Some (gdt, user_code) \<Rightarrow>
          Some (gdt, \<lparr>code_selector = code_sel, tss_selector = tss_sel,
                      user_code_selector = user_code, user_data_selector = user_data\<rparr>)))))"

section \<open>Segment registers\<close>

text \<open>
  \<open>gdtr\<close> is the loaded table and whether its task state segment is marked busy; \<open>task_register\<close> holds the selector of that segment.
  Loading a code segment is a far return to ring 0, loading the task register needs a segment that is not busy, and a data register accepts the null
  selector in 64-bit mode.
\<close>

record 'g segments =
  gdtr :: "('g \<times> bool) option"
  cs_reg :: u16
  task_register :: u16
  ds_reg :: u16
  es_reg :: u16
  fs_reg :: u16
  gs_reg :: u16
  ss_reg :: u16

definition load_gdt :: "'g \<Rightarrow> bool \<Rightarrow> 'g segments \<Rightarrow> 'g segments" where
  "load_gdt g busy c = c\<lparr>gdtr := Some (g, busy)\<rparr>"

definition set_cs :: "('g \<Rightarrow> nat \<Rightarrow> descriptor option) \<Rightarrow> u16 \<Rightarrow> 'g segments \<Rightarrow> 'g segments option" where
  "set_cs descriptor_at sel c =
     (case gdtr c of
        None \<Rightarrow> None
      | Some (g, _) \<Rightarrow>
          if descriptor_at g (selector_index sel) = Some Kernel_Code_Segment \<and> selector_rpl sel = 0
          then Some (c\<lparr>cs_reg := sel\<rparr>) else None)"

definition load_tss :: "('g \<Rightarrow> nat \<Rightarrow> descriptor option) \<Rightarrow> u16 \<Rightarrow> 'g segments \<Rightarrow> 'g segments option" where
  "load_tss descriptor_at sel c =
     (case gdtr c of
        None \<Rightarrow> None
      | Some (g, busy) \<Rightarrow>
          (case descriptor_at g (selector_index sel) of
             Some (Tss_Segment _) \<Rightarrow> if busy then None else Some (c\<lparr>gdtr := Some (g, True), task_register := sel\<rparr>)
           | _ \<Rightarrow> None))"

text \<open>The check of a data register at ring 0; the stack segment needs a null selector for ring 0, or a writable segment of ring 0, of which the tables have none.\<close>

definition data_ok :: "('g \<Rightarrow> nat \<Rightarrow> descriptor option) \<Rightarrow> u16 \<Rightarrow> 'g segments \<Rightarrow> bool" where
  "data_ok descriptor_at sel c \<longleftrightarrow>
     selector_index sel = 0
     \<or> (case gdtr c of
          None \<Rightarrow> False
        | Some (g, _) \<Rightarrow>
            (case descriptor_at g (selector_index sel) of
               Some User_Data_Segment \<Rightarrow> True
             | Some User_Code_Segment \<Rightarrow> True
             | Some Kernel_Code_Segment \<Rightarrow> selector_rpl sel = 0
             | _ \<Rightarrow> False))"

definition stack_ok :: "u16 \<Rightarrow> bool" where
  "stack_ok sel \<longleftrightarrow> selector_index sel = 0 \<and> selector_rpl sel = 0"

text \<open>The null selector into the five data registers, in the order of the code.\<close>

definition set_null_data :: "('g \<Rightarrow> nat \<Rightarrow> descriptor option) \<Rightarrow> 'g segments \<Rightarrow> 'g segments option" where
  "set_null_data descriptor_at c =
     (let null_selector = segment_selector 0 0
      in if data_ok descriptor_at null_selector c \<and> stack_ok null_selector
         then Some (c\<lparr>ds_reg := null_selector, es_reg := null_selector, fs_reg := null_selector,
                      gs_reg := null_selector, ss_reg := null_selector\<rparr>)
         else None)"

definition gdt_init ::
    "('g \<Rightarrow> nat \<Rightarrow> descriptor option) \<Rightarrow> ('g \<times> selectors) \<Rightarrow> bool \<Rightarrow> 'g segments \<Rightarrow> 'g segments option" where
  "gdt_init descriptor_at gdt busy c =
     (let c = load_gdt (fst gdt) busy c
      in (case set_cs descriptor_at (code_selector (snd gdt)) c of
            None \<Rightarrow> None
          | Some c \<Rightarrow>
              (case load_tss descriptor_at (tss_selector (snd gdt)) c of
                 None \<Rightarrow> None
               | Some c \<Rightarrow> set_null_data descriptor_at c)))"

text \<open>On the second processor; the new segment lies at \<open>tss_addr\<close> and is part of the result.\<close>

definition init_for_ap ::
    "'g \<Rightarrow> 'g append_fn \<Rightarrow> ('g \<Rightarrow> nat \<Rightarrow> descriptor option) \<Rightarrow> task_state_segment \<Rightarrow> u64 \<Rightarrow> u64 \<Rightarrow> u64 \<Rightarrow> 'g segments
     \<Rightarrow> (task_state_segment \<times> 'g segments) option" where
  "init_for_ap new_gdt append_gdt descriptor_at new_tss double_fault_stack priv_stack tss_addr c =
     (case tss_with_stacks new_tss double_fault_stack priv_stack of
        None \<Rightarrow> None
      | Some tss \<Rightarrow>
     (case append_gdt Kernel_Code_Segment new_gdt of
        None \<Rightarrow> None
      | Some (gdt, code_sel) \<Rightarrow>
     (case append_gdt (Tss_Segment tss_addr) gdt of
        None \<Rightarrow> None
      | Some (gdt, tss_sel) \<Rightarrow>
          let c = load_gdt gdt False c
          in (case set_cs descriptor_at code_sel c of
                None \<Rightarrow> None
              | Some c \<Rightarrow>
                  (case load_tss descriptor_at tss_sel c of
                     None \<Rightarrow> None
                   | Some c \<Rightarrow> map_option (\<lambda>c. (tss, c)) (set_null_data descriptor_at c))))))"

section \<open>The contract of the table\<close>

lemma segment_selector_fields:
  assumes "i < 8" and "rpl \<in> {0, 3}"
  shows "selector_index (segment_selector i rpl) = i" and "selector_rpl (segment_selector i rpl) = rpl"
proof -
  have "i \<in> set [0..<8]" using assms(1) by simp
  then have "selector_index (segment_selector i rpl) = i \<and> selector_rpl (segment_selector i rpl) = rpl"
    using assms(2) by (auto simp: upt_rec segment_selector_def selector_index_def selector_rpl_def)
  then show "selector_index (segment_selector i rpl) = i" and "selector_rpl (segment_selector i rpl) = rpl" by simp_all
qed

text \<open>The state of the segment registers after set-up: every register designates what its use needs.\<close>

definition segments_typed :: "('g \<Rightarrow> nat \<Rightarrow> descriptor option) \<Rightarrow> u64 \<Rightarrow> 'g segments \<Rightarrow> bool" where
  "segments_typed descriptor_at tss c \<longleftrightarrow>
     (\<exists>g. gdtr c = Some (g, True)
        \<and> descriptor_at g (selector_index (cs_reg c)) = Some Kernel_Code_Segment \<and> selector_rpl (cs_reg c) = 0
        \<and> descriptor_at g (selector_index (task_register c)) = Some (Tss_Segment tss))
     \<and> ds_reg c = 0 \<and> es_reg c = 0 \<and> fs_reg c = 0 \<and> gs_reg c = 0 \<and> ss_reg c = 0"

locale gdt_table =
  fixes new_gdt :: 'g
    and append_gdt :: "'g append_fn"
    and descriptor_at :: "'g \<Rightarrow> nat \<Rightarrow> descriptor option"
    and used :: "'g \<Rightarrow> nat"
    and valid_gdt :: "'g \<Rightarrow> bool"
  assumes new_valid: "valid_gdt new_gdt" and new_used: "used new_gdt = 1"
    and append_room: "valid_gdt g \<Longrightarrow> used g + slots_of d \<le> 8 \<Longrightarrow>
      \<exists>g'. append_gdt d g = Some (g', segment_selector (used g) (dpl_of d)) \<and> valid_gdt g' \<and> used g' = used g + slots_of d
        \<and> descriptor_at g' (used g) = Some d
        \<and> (\<forall>i e. descriptor_at g i = Some e \<longrightarrow> i + slots_of e \<le> used g \<longrightarrow> descriptor_at g' i = Some e)"
begin

lemma append_obtains:
  assumes "valid_gdt g" and "used g = n" and "n + slots_of d \<le> 8"
  obtains g' where "append_gdt d g = Some (g', segment_selector n (dpl_of d))" "valid_gdt g'" "used g' = n + slots_of d"
    "descriptor_at g' n = Some d"
    "\<forall>i e. descriptor_at g i = Some e \<longrightarrow> i + slots_of e \<le> n \<longrightarrow> descriptor_at g' i = Some e"
  using append_room [OF assms(1), of d] assms(2,3) by auto

text \<open>The first two descriptors are the same on both processors.\<close>

lemma kernel_part:
  obtains g1 g2 where "append_gdt Kernel_Code_Segment new_gdt = Some (g1, 0x08)" "append_gdt (Tss_Segment tss) g1 = Some (g2, 0x10)"
    "valid_gdt g2" "used g2 = 4" "descriptor_at g2 1 = Some Kernel_Code_Segment" "descriptor_at g2 2 = Some (Tss_Segment tss)"
proof -
  obtain g1 where g1: "append_gdt Kernel_Code_Segment new_gdt = Some (g1, segment_selector 1 0)" "valid_gdt g1" "used g1 = 2"
    "descriptor_at g1 1 = Some Kernel_Code_Segment"
    by (rule append_obtains [OF new_valid new_used, of Kernel_Code_Segment]) simp_all
  obtain g2 where g2: "append_gdt (Tss_Segment tss) g1 = Some (g2, segment_selector 2 0)" "valid_gdt g2" "used g2 = 4"
    "descriptor_at g2 2 = Some (Tss_Segment tss)"
    "\<forall>i e. descriptor_at g1 i = Some e \<longrightarrow> i + slots_of e \<le> 2 \<longrightarrow> descriptor_at g2 i = Some e"
    by (rule append_obtains [OF g1(2,3), of "Tss_Segment tss"]) simp_all
  have "descriptor_at g2 1 = Some Kernel_Code_Segment" using g1(4) g2(5) by simp
  moreover have "segment_selector 1 0 = 0x08" "segment_selector 2 0 = 0x10" by (simp_all add: segment_selector_def)
  ultimately show thesis using that [of g1 g2] g1(1) g2(1-4) by simp
qed

lemma GDT_built:
  obtains g where
    "GDT new_gdt append_gdt tss =
       Some (g, \<lparr>code_selector = 0x08, tss_selector = 0x10, user_code_selector = 0x2B, user_data_selector = 0x23\<rparr>)"
    "descriptor_at g 1 = Some Kernel_Code_Segment" "descriptor_at g 2 = Some (Tss_Segment tss)"
    "descriptor_at g 4 = Some User_Data_Segment" "descriptor_at g 5 = Some User_Code_Segment"
proof -
  obtain g1 g2 where k: "append_gdt Kernel_Code_Segment new_gdt = Some (g1, 0x08)" "append_gdt (Tss_Segment tss) g1 = Some (g2, 0x10)"
    "valid_gdt g2" "used g2 = 4" "descriptor_at g2 1 = Some Kernel_Code_Segment" "descriptor_at g2 2 = Some (Tss_Segment tss)"
    by (rule kernel_part)
  obtain g3 where g3: "append_gdt User_Data_Segment g2 = Some (g3, segment_selector 4 3)" "valid_gdt g3" "used g3 = 5"
    "descriptor_at g3 4 = Some User_Data_Segment"
    "\<forall>i e. descriptor_at g2 i = Some e \<longrightarrow> i + slots_of e \<le> 4 \<longrightarrow> descriptor_at g3 i = Some e"
    by (rule append_obtains [OF k(3,4), of User_Data_Segment]) simp_all
  obtain g4 where g4: "append_gdt User_Code_Segment g3 = Some (g4, segment_selector 5 3)" "descriptor_at g4 5 = Some User_Code_Segment"
    "\<forall>i e. descriptor_at g3 i = Some e \<longrightarrow> i + slots_of e \<le> 5 \<longrightarrow> descriptor_at g4 i = Some e"
    by (rule append_obtains [OF g3(2,3), of User_Code_Segment]) simp_all
  have "segment_selector 4 3 = 0x23" "segment_selector 5 3 = 0x2B" by (simp_all add: segment_selector_def)
  then have built: "GDT new_gdt append_gdt tss =
       Some (g4, \<lparr>code_selector = 0x08, tss_selector = 0x10, user_code_selector = 0x2B, user_data_selector = 0x23\<rparr>)"
    using k(1,2) g3(1) g4(1) by (simp add: GDT_def)
  have d1: "descriptor_at g4 1 = Some Kernel_Code_Segment"
    using g4(3) [rule_format, OF g3(5) [rule_format, OF k(5)]] by simp
  have d2: "descriptor_at g4 2 = Some (Tss_Segment tss)"
    using g4(3) [rule_format, OF g3(5) [rule_format, OF k(6)]] by simp
  have d4: "descriptor_at g4 4 = Some User_Data_Segment" using g4(3) [rule_format, OF g3(4)] by simp
  show thesis by (rule that [OF built d1 d2 d4 g4(2)])
qed

text \<open>Loading the registers from a table whose kernel part is in place.\<close>

lemma load_kernel_part:
  assumes "descriptor_at g 1 = Some Kernel_Code_Segment" and "descriptor_at g 2 = Some (Tss_Segment tss)"
  obtains c1 c2 c3 where "set_cs descriptor_at 0x08 (load_gdt g False c) = Some c1" "load_tss descriptor_at 0x10 c1 = Some c2"
    "set_null_data descriptor_at c2 = Some c3" "cs_reg c3 = 0x08" "gdtr c3 = Some (g, True)" "segments_typed descriptor_at tss c3"
proof -
  let ?c1 = "(load_gdt g False c)\<lparr>cs_reg := 0x08\<rparr>"
  let ?c2 = "?c1\<lparr>gdtr := Some (g, True), task_register := 0x10\<rparr>"
  let ?c3 = "?c2\<lparr>ds_reg := 0, es_reg := 0, fs_reg := 0, gs_reg := 0, ss_reg := 0\<rparr>"
  have sel: "selector_index 0x08 = 1" "selector_index 0x10 = 2" "selector_rpl 0x08 = 0" "selector_rpl 0 = 0" "selector_index 0 = 0"
    "segment_selector 0 0 = 0"
    by (simp_all add: selector_index_def selector_rpl_def segment_selector_def)
  have "set_cs descriptor_at 0x08 (load_gdt g False c) = Some ?c1" using assms(1) by (simp add: set_cs_def load_gdt_def sel)
  moreover have "load_tss descriptor_at 0x10 ?c1 = Some ?c2" using assms(2) by (simp add: load_tss_def load_gdt_def sel)
  moreover have "set_null_data descriptor_at ?c2 = Some ?c3" by (simp add: set_null_data_def data_ok_def stack_ok_def sel)
  moreover have "segments_typed descriptor_at tss ?c3" using assms by (simp add: segments_typed_def sel)
  ultimately show thesis using that [of ?c1 ?c2 ?c3] by simp
qed

lemma init_typed:
  assumes "GDT new_gdt append_gdt tss = Some gdt"
  obtains c' where "gdt_init descriptor_at gdt False c = Some c'" "segments_typed descriptor_at tss c'" "cs_reg c' = 0x08"
    "gdtr c' = Some (fst gdt, True)"
proof -
  obtain g where g: "GDT new_gdt append_gdt tss =
       Some (g, \<lparr>code_selector = 0x08, tss_selector = 0x10, user_code_selector = 0x2B, user_data_selector = 0x23\<rparr>)"
    "descriptor_at g 1 = Some Kernel_Code_Segment" "descriptor_at g 2 = Some (Tss_Segment tss)" by (rule GDT_built)
  obtain c1 c2 c3 where "set_cs descriptor_at 0x08 (load_gdt g False c) = Some c1" "load_tss descriptor_at 0x10 c1 = Some c2"
    "set_null_data descriptor_at c2 = Some c3" "cs_reg c3 = 0x08" "gdtr c3 = Some (g, True)" "segments_typed descriptor_at tss c3"
    by (rule load_kernel_part [OF g(2,3)])
  note c = this
  have gdt: "gdt = (g, \<lparr>code_selector = 0x08, tss_selector = 0x10, user_code_selector = 0x2B, user_data_selector = 0x23\<rparr>)"
    using g(1) assms by simp
  have "gdt_init descriptor_at gdt False c = Some c3" by (simp add: gdt_init_def gdt c(1-3))
  then show thesis using that [of c3] c(4-6) gdt by simp
qed

lemma init_twice:
  assumes "GDT new_gdt append_gdt tss = Some gdt"
  shows "gdt_init descriptor_at gdt True c = None"
proof -
  obtain g where g: "GDT new_gdt append_gdt tss =
       Some (g, \<lparr>code_selector = 0x08, tss_selector = 0x10, user_code_selector = 0x2B, user_data_selector = 0x23\<rparr>)"
    "descriptor_at g 2 = Some (Tss_Segment tss)" by (rule GDT_built)
  have "selector_index 0x10 = 2" by (simp add: selector_index_def)
  then show ?thesis using g assms
    by (auto simp: gdt_init_def load_tss_def load_gdt_def set_cs_def split: option.splits if_splits)
qed

lemma init_for_ap_typed:
  assumes "tss_with_stacks new_tss double_fault_stack priv_stack = Some tss"
  obtains c' where "init_for_ap new_gdt append_gdt descriptor_at new_tss double_fault_stack priv_stack tss_addr c = Some (tss, c')"
    "segments_typed descriptor_at tss_addr c'" "cs_reg c' = 0x08"
proof -
  obtain g1 g2 where k: "append_gdt Kernel_Code_Segment new_gdt = Some (g1, 0x08)"
    "append_gdt (Tss_Segment tss_addr) g1 = Some (g2, 0x10)"
    "descriptor_at g2 1 = Some Kernel_Code_Segment" "descriptor_at g2 2 = Some (Tss_Segment tss_addr)"
    by (rule kernel_part)
  obtain c1 c2 c3 where "set_cs descriptor_at 0x08 (load_gdt g2 False c) = Some c1" "load_tss descriptor_at 0x10 c1 = Some c2"
    "set_null_data descriptor_at c2 = Some c3" "cs_reg c3 = 0x08" "segments_typed descriptor_at tss_addr c3"
    by (rule load_kernel_part [OF k(3,4)])
  then show thesis using that [of c3] k(1,2) assms by (simp add: init_for_ap_def)
qed

end

section \<open>Eight words in the encoding of the processor\<close>

text \<open>
  The words of the descriptors: user segments with their type, privilege and mode bits; a task state segment as two words, with the base
  address spread over bits 16 to 39 and 56 to 63 of the first and the low half of the second.
\<close>

fun encode_descriptor :: "descriptor \<Rightarrow> u64 list" where
  "encode_descriptor Kernel_Code_Segment = [0x00AF9B000000FFFF]"
| "encode_descriptor User_Data_Segment = [0x00CFF3000000FFFF]"
| "encode_descriptor User_Code_Segment = [0x00AFFB000000FFFF]"
| "encode_descriptor (Tss_Segment base) =
     [0x890000000067 OR push_bit 16 (base AND mask 24) OR push_bit 56 (drop_bit 24 base AND mask 8), drop_bit 32 base]"

text \<open>What the processor reads at an index: nothing when the entry is not present; else by the type bits.\<close>

definition decode_descriptor :: "u64 \<Rightarrow> u64 \<Rightarrow> descriptor option" where
  "decode_descriptor w w' =
     (if \<not> bit w 47 then None
      else if bit w 44 then
        (case (bit w 43, drop_bit 45 w AND 3 = 0, bit w 53) of
           (True, True, True) \<Rightarrow> Some Kernel_Code_Segment
         | (True, False, True) \<Rightarrow> Some User_Code_Segment
         | (False, False, _) \<Rightarrow> Some User_Data_Segment
         | _ \<Rightarrow> None)
      else if drop_bit 40 w AND 0xF \<in> {0x9, 0xB} then
        Some (Tss_Segment ((drop_bit 16 w AND mask 24) OR push_bit 24 (drop_bit 56 w) OR push_bit 32 w'))
      else None)"

type_synonym word_table = "u64 list \<times> nat"

definition word_descriptor_at :: "word_table \<Rightarrow> nat \<Rightarrow> descriptor option" where
  "word_descriptor_at g i = (if i < 8 then decode_descriptor (fst g ! i) ((fst g @ [0]) ! Suc i) else None)"

fun store_words :: "nat \<Rightarrow> u64 list \<Rightarrow> u64 list \<Rightarrow> u64 list" where
  "store_words i [] ws = ws"
| "store_words i (v # vs) ws = store_words (Suc i) vs (ws[i := v])"

definition word_append :: "word_table append_fn" where
  "word_append d g =
     (if snd g + slots_of d \<le> 8
      then Some ((store_words (snd g) (encode_descriptor d) (fst g), snd g + slots_of d), segment_selector (snd g) (dpl_of d))
      else None)"

definition word_table_new :: word_table where
  "word_table_new = (replicate 8 0, 1)"

lemma decode_user_segments:
  "decode_descriptor 0x00AF9B000000FFFF w' = Some Kernel_Code_Segment"
  "decode_descriptor 0x00CFF3000000FFFF w' = Some User_Data_Segment"
  "decode_descriptor 0x00AFFB000000FFFF w' = Some User_Code_Segment"
  by (simp_all add: decode_descriptor_def)

text \<open>The bits of a word with the fields of a task state segment descriptor.\<close>

lemma tss_fields:
  fixes a b base :: u64
  shows "bit (take_bit 8 a OR push_bit 40 (take_bit 8 b) OR push_bit 16 (base AND mask 24) OR push_bit 56 (drop_bit 24 base AND mask 8)) n
    \<longleftrightarrow> n < 64 \<and> (n < 8 \<and> bit a n \<or> 40 \<le> n \<and> n < 48 \<and> bit b (n - 40)
      \<or> 16 \<le> n \<and> n < 40 \<and> bit base (n - 16) \<or> 56 \<le> n \<and> bit base (n - 32))"
  by (auto simp: bit_or_iff bit_take_bit_iff bit_push_bit_iff bit_and_iff bit_mask_iff bit_drop_bit_eq)

lemma tss_base:
  fixes w base :: u64
  assumes "\<And>n. 16 \<le> n \<Longrightarrow> n < 40 \<Longrightarrow> bit w n = bit base (n - 16)" and "\<And>n. 56 \<le> n \<Longrightarrow> n < 64 \<Longrightarrow> bit w n = bit base (n - 32)"
  shows "(drop_bit 16 w AND mask 24) OR push_bit 24 (drop_bit 56 w) OR push_bit 32 (drop_bit 32 base) = base"
proof (rule bit_word_eqI)
  fix n :: nat assume n: "n < LENGTH(64)"
  consider "n < 24" | "24 \<le> n" "n < 32" | "32 \<le> n" by linarith
  then show "bit ((drop_bit 16 w AND mask 24) OR push_bit 24 (drop_bit 56 w) OR push_bit 32 (drop_bit 32 base)) n = bit base n"
  proof cases
    case 1
    then show ?thesis using assms(1) [of "16 + n"] by (simp add: bit_or_iff bit_and_iff bit_drop_bit_eq bit_mask_iff bit_push_bit_iff)
  next
    case 2
    then show ?thesis using assms(2) [of "32 + n"] by (simp add: bit_or_iff bit_and_iff bit_drop_bit_eq bit_mask_iff bit_push_bit_iff)
  next
    case 3
    then show ?thesis using n by (auto simp add: bit_or_iff bit_and_iff bit_drop_bit_eq bit_mask_iff bit_push_bit_iff dest: bit_imp_le_length)
  qed
qed

lemma decode_tss:
  "decode_descriptor (encode_descriptor (Tss_Segment base) ! 0) (encode_descriptor (Tss_Segment base) ! 1) = Some (Tss_Segment base)"
proof -
  let ?w = "0x890000000067 OR push_bit 16 (base AND mask 24) OR push_bit 56 (drop_bit 24 base AND mask 8) :: u64"
  have c: "(0x890000000067 :: u64) = take_bit 8 0x67 OR push_bit 40 (take_bit 8 0x89)" by simp
  have f: "bit ?w n \<longleftrightarrow> n < 64 \<and> (n < 8 \<and> bit (0x67 :: u64) n \<or> 40 \<le> n \<and> n < 48 \<and> bit (0x89 :: u64) (n - 40)
      \<or> 16 \<le> n \<and> n < 40 \<and> bit base (n - 16) \<or> 56 \<le> n \<and> bit base (n - 32))" for n
    using tss_fields [of "0x67" "0x89" base n] by (simp only: c or.assoc)
  have "bit ?w 47" "\<not> bit ?w 44" unfolding f by simp_all
  moreover have "drop_bit 40 ?w AND 0xF = 0x9"
  proof (rule bit_word_eqI)
    fix n :: nat assume n: "n < LENGTH(64)"
    have m: "(0xF :: u64) = mask 4" by (simp add: mask_eq_exp_minus_1)
    have "bit (drop_bit 40 ?w AND 0xF) n \<longleftrightarrow> n < 4 \<and> bit (0x89 :: u64) n"
      using n unfolding m bit_and_iff bit_drop_bit_eq bit_mask_iff comp_apply f by (cases "n < 4") simp_all
    also have "\<dots> \<longleftrightarrow> bit (0x9 :: u64) n"
    proof (cases "n < 4")
      case True
      then have "n \<in> {0, 1, 2, 3}" by auto
      then show ?thesis by auto
    next
      case False
      have "(0x9 :: u64) = take_bit 4 0x9" by simp
      then show ?thesis using False by (metis bit_take_bit_iff)
    qed
    finally show "bit (drop_bit 40 ?w AND 0xF) n = bit (0x9 :: u64) n" .
  qed
  moreover have "(drop_bit 16 ?w AND mask 24) OR push_bit 24 (drop_bit 56 ?w) OR push_bit 32 (drop_bit 32 base) = base"
  proof (rule tss_base)
    show "bit ?w n = bit base (n - 16)" if "16 \<le> n" "n < 40" for n unfolding f using that by simp
    show "bit ?w n = bit base (n - 32)" if "56 \<le> n" "n < 64" for n unfolding f using that by simp
  qed
  ultimately show ?thesis by (simp add: decode_descriptor_def)
qed

text \<open>Only a task state segment reads the word after its own.\<close>

lemma decode_next: "decode_descriptor w w' = Some e \<Longrightarrow> slots_of e = 1 \<Longrightarrow> decode_descriptor w w'' = Some e"
  by (auto simp: decode_descriptor_def split: if_splits bool.splits)

lemma length_encode [simp]: "length (encode_descriptor d) = slots_of d"
  by (cases d) simp_all

lemma length_store_words [simp]: "length (store_words i vs ws) = length ws"
  by (induction i vs ws rule: store_words.induct) simp_all

lemma nth_store_words:
  "i + length vs \<le> length ws \<Longrightarrow> j < length ws \<Longrightarrow> store_words i vs ws ! j = (if i \<le> j \<and> j < i + length vs then vs ! (j - i) else ws ! j)"
  by (induction i vs ws rule: store_words.induct) (auto simp: nth_Cons')

interpretation wt: gdt_table word_table_new word_append word_descriptor_at snd "\<lambda>g. length (fst g) = 8"
proof
  show "length (fst word_table_new) = 8" "snd word_table_new = 1" by (simp_all add: word_table_new_def)
next
  fix g :: word_table and d
  assume v: "length (fst g) = 8" and room: "snd g + slots_of d \<le> 8"
  let ?g = "(store_words (snd g) (encode_descriptor d) (fst g), snd g + slots_of d)"
  have n: "fst ?g ! j = (if snd g \<le> j \<and> j < snd g + slots_of d then encode_descriptor d ! (j - snd g) else fst g ! j)" if "j < 8" for j
    using nth_store_words [of "snd g" "encode_descriptor d" "fst g" j] v room that by simp
  have new: "word_descriptor_at ?g (snd g) = Some d"
  proof (cases d)
    case (Tss_Segment base)
    then show ?thesis using n [of "snd g"] n [of "Suc (snd g)"] room v decode_tss [of base]
      by (simp add: word_descriptor_at_def nth_append)
  qed (use n [of "snd g"] room in \<open>simp_all add: word_descriptor_at_def decode_user_segments\<close>)
  have old: "word_descriptor_at ?g i = Some e" if "word_descriptor_at g i = Some e" "i + slots_of e \<le> snd g" for i e
  proof (cases "slots_of e = 1")
    case True
    then have "fst ?g ! i = fst g ! i" "i < 8" using n [of i] that(2) room by auto
    moreover have "decode_descriptor (fst g ! i) ((fst g @ [0]) ! Suc i) = Some e"
      using that(1) calculation(2) by (simp add: word_descriptor_at_def)
    ultimately show ?thesis using decode_next [OF _ True] by (simp add: word_descriptor_at_def)
  next
    case False
    then have "slots_of e = 2" by (cases e) simp_all
    then have "fst ?g ! i = fst g ! i" "fst ?g ! Suc i = fst g ! Suc i" "Suc i < 8" using n [of i] n [of "Suc i"] that(2) room by auto
    then show ?thesis using that(1) v by (simp add: word_descriptor_at_def nth_append)
  qed
  show "\<exists>g'. word_append d g = Some (g', segment_selector (snd g) (dpl_of d)) \<and> length (fst g') = 8 \<and> snd g' = snd g + slots_of d
        \<and> word_descriptor_at g' (snd g) = Some d
        \<and> (\<forall>i e. word_descriptor_at g i = Some e \<longrightarrow> i + slots_of e \<le> snd g \<longrightarrow> word_descriptor_at g' i = Some e)"
    using room v new old by (intro exI [of _ ?g]) (simp add: word_append_def)
qed

section \<open>Property\<close>

text \<open>
  C38: The descriptor tables are well typed. On a table that keeps the documented contract, building it never fails for lack of room; the selectors
  for ring 3 carry privilege level 3 and designate the user segments. \<open>init\<close> on a segment that was never loaded raises no fault
  and leaves a kernel code segment in CS, the task state segment in the task register and null data selectors; loading the
  same segment a second time is a general protection fault. \<open>init_for_ap\<close> raises no fault either and leaves the second processor typed in the same way, with its own
  table and task state segment and the same code selector, which the shared interrupt gates contain.
\<close>

theorem descriptor_tables_typed:
  assumes "gdt_table new_gdt append_gdt descriptor_at used valid_gdt"
    and "tss_with_stacks new_tss double_fault_stack priv_stack = Some ap_tss"
  shows "\<exists>gdt sel c1 c2. GDT new_gdt append_gdt tss_addr = Some (gdt, sel)
    \<and> descriptor_at gdt (selector_index (user_code_selector sel)) = Some User_Code_Segment \<and> selector_rpl (user_code_selector sel) = 3
    \<and> descriptor_at gdt (selector_index (user_data_selector sel)) = Some User_Data_Segment \<and> selector_rpl (user_data_selector sel) = 3
    \<and> gdt_init descriptor_at (gdt, sel) False c = Some c1 \<and> segments_typed descriptor_at tss_addr c1
    \<and> gdt_init descriptor_at (gdt, sel) True c = None
    \<and> init_for_ap new_gdt append_gdt descriptor_at new_tss double_fault_stack priv_stack ap_tss_addr c' = Some (ap_tss, c2)
    \<and> segments_typed descriptor_at ap_tss_addr c2 \<and> cs_reg c2 = cs_reg c1"
proof -
  note t = assms(1)
  obtain gdt where g: "GDT new_gdt append_gdt tss_addr =
       Some (gdt, \<lparr>code_selector = 0x08, tss_selector = 0x10, user_code_selector = 0x2B, user_data_selector = 0x23\<rparr>)" (is "_ = Some (_, ?sel)")
    "descriptor_at gdt 4 = Some User_Data_Segment" "descriptor_at gdt 5 = Some User_Code_Segment"
    by (rule gdt_table.GDT_built [OF t])
  obtain c1 where c1: "gdt_init descriptor_at (gdt, ?sel) False c = Some c1" "segments_typed descriptor_at tss_addr c1" "cs_reg c1 = 0x08"
    by (rule gdt_table.init_typed [OF t g(1)])
  obtain c2 where c2: "init_for_ap new_gdt append_gdt descriptor_at new_tss double_fault_stack priv_stack ap_tss_addr c' = Some (ap_tss, c2)"
    "segments_typed descriptor_at ap_tss_addr c2" "cs_reg c2 = 0x08"
    by (rule gdt_table.init_for_ap_typed [OF t assms(2)])
  have "selector_index 0x2B = 5" "selector_index 0x23 = 4" "selector_rpl 0x2B = 3" "selector_rpl 0x23 = 3"
    by (simp_all add: selector_index_def selector_rpl_def)
  then show ?thesis using g c1 c2 gdt_table.init_twice [OF t g(1), of c] by (intro exI [of _ gdt] exI [of _ ?sel] exI [of _ c1] exI [of _ c2]) simp
qed

definition zero_tss :: task_state_segment where
  "zero_tss = \<lparr>interrupt_stack_table = replicate 7 0, privilege_stack_table = replicate 3 0\<rparr>"

definition reset_segments :: "word_table segments" where
  "reset_segments = \<lparr>gdtr = None, cs_reg = 0, task_register = 0, ds_reg = 0x10, es_reg = 0x10, fs_reg = 0x10, gs_reg = 0x10, ss_reg = 0x10\<rparr>"

theorem descriptor_tables_typed_witness:
  "\<exists>gdt sel c1. GDT word_table_new word_append 0x8000 = Some (gdt, sel) \<and> selector_rpl (user_code_selector sel) = 3
    \<and> gdt_init word_descriptor_at (gdt, sel) False reset_segments = Some c1 \<and> segments_typed word_descriptor_at 0x8000 c1"
proof -
  have "tss_with_stacks zero_tss 0x10000 0x20000 \<noteq> None"
    by (simp add: tss_with_stacks_def virt_add_def is_canonical_def FAULT_STACK_SIZE_def)
  then obtain tss where "tss_with_stacks zero_tss 0x10000 0x20000 = Some tss" by blast
  from descriptor_tables_typed [OF wt.gdt_table_axioms this, of "0x8000" reset_segments "0x9000" reset_segments] show ?thesis by blast
qed

end
