(* ===== verification/Interrupts.thy ===== *)
theory Interrupts
  imports Kernel_Tasks Gdt
begin

text \<open>
  The interrupt table, the interrupt controller and the handlers (\<open>interrupts.rs\<close>, and the part of \<open>kernel_main\<close> that programs the
  controller). The entries of \<open>InterruptDescriptorTable\<close> and \<open>ChainedPics\<close> are parameters with the laws of their documentation (locales
  \<open>idt_entries\<close> and \<open>pic_chain\<close>); the interpretations are the options word of the processor and a pair of 8259 controllers.
  How the processor finds handler and stack of a vector is \<open>deliver\<close>. The handlers run step by step, so that a context
  switch in the middle of the timer handler leaves the rest of it to be done when the task is resumed.
\<close>

section \<open>The interrupt table\<close>

datatype interrupt_handler =
  Breakpoint_handler | Double_fault_handler | Page_fault_handler | Timer_interrupt_handler | Keyboard_interrupt_handler | Syscall_entry_stub

definition PIC_1_OFFSET :: u8 where "PIC_1_OFFSET = 32"
definition PIC_2_OFFSET :: u8 where "PIC_2_OFFSET = PIC_1_OFFSET + 8"

datatype interrupt_index = Timer_index | Keyboard_index

fun interrupt_vector :: "interrupt_index \<Rightarrow> u8" where
  "interrupt_vector Timer_index = PIC_1_OFFSET"
| "interrupt_vector Keyboard_index = PIC_1_OFFSET + 1"

text \<open>What the processor reads from an entry. A stack index of 0 means no switch to a stack of the interrupt stack table.\<close>

record gate =
  gate_handler :: interrupt_handler
  gate_selector :: u16
  gate_ist :: nat
  gate_dpl :: u16

text \<open>
  The operations of the crate on an entry: the missing entry, \<open>set_handler_fn\<close> (and \<open>set_handler_addr\<close>) with the value of CS at that moment,
  \<open>set_stack_index\<close>, \<open>set_privilege_level\<close>.
\<close>

record 'e entry_ops =
  missing :: 'e
  set_handler_fn :: "u16 \<Rightarrow> interrupt_handler \<Rightarrow> 'e \<Rightarrow> 'e"
  set_stack_index :: "u16 \<Rightarrow> 'e \<Rightarrow> 'e"
  set_privilege_level :: "u16 \<Rightarrow> 'e \<Rightarrow> 'e"

definition IDT :: "'e entry_ops \<Rightarrow> u16 \<Rightarrow> u8 \<Rightarrow> 'e" where
  "IDT ops cs =
     (let idt = (\<lambda>_. missing ops);
          idt = idt(3 := set_handler_fn ops cs Breakpoint_handler (idt 3));
          idt = idt(8 := set_stack_index ops DOUBLE_FAULT_IST_INDEX (set_handler_fn ops cs Double_fault_handler (idt 8)));
          idt = idt(14 := set_handler_fn ops cs Page_fault_handler (idt 14));
          idt = idt(interrupt_vector Timer_index := set_handler_fn ops cs Timer_interrupt_handler (idt (interrupt_vector Timer_index)));
          idt = idt(interrupt_vector Keyboard_index :=
                      set_handler_fn ops cs Keyboard_interrupt_handler (idt (interrupt_vector Keyboard_index)))
      in idt(0x80 := set_privilege_level ops 3 (set_handler_fn ops cs Syscall_entry_stub (idt 0x80))))"

text \<open>The table is built when it is first loaded, with the code selector of that moment, and never again.\<close>

definition init_idt :: "'e entry_ops \<Rightarrow> 'g segments \<Rightarrow> (u8 \<Rightarrow> 'e) option \<Rightarrow> u8 \<Rightarrow> 'e" where
  "init_idt ops c static = (case static of Some idt \<Rightarrow> idt | None \<Rightarrow> IDT ops (cs_reg c))"

section \<open>Delivery\<close>

datatype delivery = Handled interrupt_handler u64 | Protection_fault

text \<open>
  The processor in ring \<open>cpl\<close> with stack pointer \<open>sp\<close> takes a vector: the gate must be present, open to software interrupts from that ring, and
  name a kernel code segment of the loaded table. The handler starts on the stack of the interrupt stack table that the gate names, else on the privilege stack when
  the ring changes, else where the stack pointer is.
\<close>

definition loaded_tss :: "('g \<Rightarrow> nat \<Rightarrow> descriptor option) \<Rightarrow> (u64 \<Rightarrow> task_state_segment option) \<Rightarrow> 'g segments \<Rightarrow> task_state_segment option" where
  "loaded_tss descriptor_at tss_at c =
     (case gdtr c of
        None \<Rightarrow> None
      | Some (g, _) \<Rightarrow> (case descriptor_at g (selector_index (task_register c)) of Some (Tss_Segment a) \<Rightarrow> tss_at a | _ \<Rightarrow> None))"

definition deliver ::
    "('g \<Rightarrow> nat \<Rightarrow> descriptor option) \<Rightarrow> (u64 \<Rightarrow> task_state_segment option) \<Rightarrow> ('e \<Rightarrow> gate option) \<Rightarrow> (u8 \<Rightarrow> 'e) \<Rightarrow> 'g segments
     \<Rightarrow> bool \<Rightarrow> u16 \<Rightarrow> u64 \<Rightarrow> u8 \<Rightarrow> delivery" where
  "deliver descriptor_at tss_at gate_of idt c software cpl sp vector =
     (case (gate_of (idt vector), gdtr c, loaded_tss descriptor_at tss_at c) of
        (Some gt, Some (g, _), Some tss) \<Rightarrow>
          if software \<and> gate_dpl gt < cpl then Protection_fault
          else if descriptor_at g (selector_index (gate_selector gt)) \<noteq> Some Kernel_Code_Segment then Protection_fault
          else Handled (gate_handler gt)
            (if 0 < gate_ist gt then interrupt_stack_table tss ! (gate_ist gt - 1)
             else if 0 < cpl then privilege_stack_table tss ! 0 else sp)
      | _ \<Rightarrow> Protection_fault)"

section \<open>The entries of the processor\<close>

locale idt_entries =
  fixes ops :: "'e entry_ops" and gate_of :: "'e \<Rightarrow> gate option"
  assumes missing_gate: "gate_of (missing ops) = None"
    and handler_gate: "gate_of (set_handler_fn ops cs h e) = Some \<lparr>gate_handler = h, gate_selector = cs, gate_ist = 0, gate_dpl = 0\<rparr>"
    and stack_index_gate: "gate_of e = Some gt \<Longrightarrow> i < 7 \<Longrightarrow> gate_of (set_stack_index ops i e) = Some (gt\<lparr>gate_ist := unat i + 1\<rparr>)"
    and privilege_gate: "gate_of e = Some gt \<Longrightarrow> r \<le> 3 \<Longrightarrow> gate_of (set_privilege_level ops r e) = Some (gt\<lparr>gate_dpl := r\<rparr>)"
begin

lemma IDT_gate:
  "gate_of (IDT ops cs v) =
     map_option (\<lambda>(h, ist, dpl). \<lparr>gate_handler = h, gate_selector = cs, gate_ist = ist, gate_dpl = dpl\<rparr>)
       (if v = 3 then Some (Breakpoint_handler, 0, 0) else if v = 8 then Some (Double_fault_handler, 1, 0)
        else if v = 14 then Some (Page_fault_handler, 0, 0) else if v = 32 then Some (Timer_interrupt_handler, 0, 0)
        else if v = 33 then Some (Keyboard_interrupt_handler, 0, 0) else if v = 0x80 then Some (Syscall_entry_stub, 0, 3) else None)"
  by (simp add: IDT_def Let_def PIC_1_OFFSET_def missing_gate handler_gate DOUBLE_FAULT_IST_INDEX_def
      stack_index_gate [OF handler_gate, of 0] privilege_gate [OF handler_gate, of 3])

end

text \<open>
  The entry as the processor has it: the options word holds the stack index in bits 0 to 2, the gate type in bits 9 to 11, the privilege
  level in bits 13 and 14 and the present bit 15.
\<close>

record hw_entry =
  he_handler :: interrupt_handler
  he_selector :: u16
  he_options :: u16

definition hw_gate_of :: "hw_entry \<Rightarrow> gate option" where
  "hw_gate_of e =
     (if bit (he_options e) 15
      then Some \<lparr>gate_handler = he_handler e, gate_selector = he_selector e, gate_ist = unat (he_options e AND 7),
                 gate_dpl = drop_bit 13 (he_options e) AND 3\<rparr>
      else None)"

definition hw_entry_ops :: "hw_entry entry_ops" where
  "hw_entry_ops =
     \<lparr>missing = \<lparr>he_handler = Breakpoint_handler, he_selector = 0, he_options = 0xE00\<rparr>,
      set_handler_fn = (\<lambda>cs h e. e\<lparr>he_handler := h, he_selector := cs, he_options := 0x8E00\<rparr>),
      set_stack_index = (\<lambda>i e. e\<lparr>he_options := (he_options e AND NOT 7) OR ((i + 1) AND 7)\<rparr>),
      set_privilege_level = (\<lambda>r e. e\<lparr>he_options := (he_options e AND NOT 0x6000) OR push_bit 13 (r AND 3)\<rparr>)\<rparr>"

text \<open>A field of a word, written and read back.\<close>

lemma field_of_low:
  fixes w v :: "'a::len word"
  shows "((w AND NOT (mask n)) OR (v AND mask n)) AND mask n = v AND mask n"
    and "n \<le> k \<Longrightarrow> drop_bit k ((w AND NOT (mask n)) OR (v AND mask n)) = drop_bit k w"
  by (auto intro!: bit_eqI simp: bit_simps dest: bit_imp_le_length)

lemma field_at:
  fixes w v :: "'a::len word"
  assumes "k + n \<le> LENGTH('a)"
  shows "drop_bit k ((w AND NOT (push_bit k (mask n))) OR push_bit k (v AND mask n)) AND mask n = v AND mask n"
    and "j \<le> k \<Longrightarrow> ((w AND NOT (push_bit k (mask n))) OR push_bit k (v AND mask n)) AND mask j = w AND mask j"
    and "k + n \<le> i \<Longrightarrow> bit ((w AND NOT (push_bit k (mask n))) OR push_bit k (v AND mask n)) i = bit w i"
  using assms by (auto intro!: bit_eqI simp: bit_simps dest: bit_imp_le_length)

lemma and_mask_small: "unat v < 2 ^ n \<Longrightarrow> v AND mask n = (v :: 'a::len word)"
  by (simp add: word_unat_eq_iff unsigned_take_bit_eq take_bit_nat_eq_self flip: take_bit_eq_mask)

interpretation hw: idt_entries hw_entry_ops hw_gate_of
proof
  show "hw_gate_of (missing hw_entry_ops) = None" by (simp add: hw_gate_of_def hw_entry_ops_def)
  show "hw_gate_of (set_handler_fn hw_entry_ops cs h e) = Some \<lparr>gate_handler = h, gate_selector = cs, gate_ist = 0, gate_dpl = 0\<rparr>" for cs h e
    by (simp add: hw_gate_of_def hw_entry_ops_def)
next
  fix e gt and i :: u16
  assume e: "hw_gate_of e = Some gt" and i: "i < 7"
  let ?w = "(he_options e AND NOT 7) OR ((i + 1) AND 7)"
  have m: "(7 :: u16) = mask 3" by (simp add: mask_eq_exp_minus_1)
  have "unat i < 7" using i by (simp add: word_less_nat_alt)
  then have s: "unat (i + 1) = unat i + 1" by (simp add: unat_word_ariths)
  then have v: "(i + 1) AND mask 3 = i + 1" using \<open>unat i < 7\<close> by (intro and_mask_small) simp
  have "?w AND 7 = i + 1" unfolding m using v field_of_low(1) [of "he_options e" 3 "i + 1"] by (simp only:)
  moreover have "drop_bit 13 ?w = drop_bit 13 (he_options e)" unfolding m by (rule field_of_low) simp
  moreover have "drop_bit 15 ?w = drop_bit 15 (he_options e)" unfolding m by (rule field_of_low) simp
  ultimately show "hw_gate_of (set_stack_index hw_entry_ops i e) = Some (gt\<lparr>gate_ist := unat i + 1\<rparr>)"
    using e s by (auto simp: hw_gate_of_def hw_entry_ops_def bit_iff_odd_drop_bit split: if_splits)
next
  fix e gt and r :: u16
  assume e: "hw_gate_of e = Some gt" and r: "r \<le> 3"
  let ?w = "(he_options e AND NOT 0x6000) OR push_bit 13 (r AND 3)"
  have m: "(0x6000 :: u16) = push_bit 13 (mask 2)" "(3 :: u16) = mask 2" "(7 :: u16) = mask 3" by (simp_all add: mask_eq_exp_minus_1)
  have v: "r AND mask 2 = r" using r by (intro and_mask_small) (simp add: word_le_nat_alt)
  have "drop_bit 13 ?w AND 3 = r" unfolding m by (subst field_at) (simp_all add: v)
  moreover have "?w AND 7 = he_options e AND 7" unfolding m by (rule field_at) simp_all
  moreover have "bit ?w 15 = bit (he_options e) 15" unfolding m by (rule field_at) simp_all
  ultimately show "hw_gate_of (set_privilege_level hw_entry_ops r e) = Some (gt\<lparr>gate_dpl := r\<rparr>)"
    using e by (auto simp: hw_gate_of_def hw_entry_ops_def split: if_splits)
qed

section \<open>The interrupt controller\<close>

text \<open>The operations of \<open>ChainedPics\<close>: construction from two vector offsets, \<open>initialize\<close>, \<open>write_masks\<close>, \<open>notify_end_of_interrupt\<close>.\<close>

record 'p pic_ops =
  chained_pics_new :: "u8 \<Rightarrow> u8 \<Rightarrow> 'p"
  initialize_pics :: "'p \<Rightarrow> 'p"
  write_masks :: "u8 \<Rightarrow> u8 \<Rightarrow> 'p \<Rightarrow> 'p"
  notify_end_of_interrupt :: "u8 \<Rightarrow> 'p \<Rightarrow> 'p"

definition PICS :: "'p pic_ops \<Rightarrow> 'p" where
  "PICS pops = chained_pics_new pops PIC_1_OFFSET PIC_2_OFFSET"

definition late_boot_pics :: "'p pic_ops \<Rightarrow> 'p \<Rightarrow> 'p" where
  "late_boot_pics pops pics = (let pics = initialize_pics pops pics in write_masks pops 0xFE 0xFF pics)"

text \<open>
  The hardware side: whether the vectors of the driver are programmed, which lines are masked, which are in service, the vector of a line, the acknowledge of a line by the processor. A line is delivered
  when it is not masked and no line of its controller with the same or a higher priority is in service.
\<close>

record 'p pic_hw =
  programmed :: "'p \<Rightarrow> bool"
  masked_line :: "'p \<Rightarrow> nat \<Rightarrow> bool"
  in_service :: "'p \<Rightarrow> nat set"
  vector_of :: "'p \<Rightarrow> nat \<Rightarrow> u8"
  acknowledge :: "nat \<Rightarrow> 'p \<Rightarrow> 'p"

definition deliverable :: "'p pic_hw \<Rightarrow> 'p \<Rightarrow> nat \<Rightarrow> bool" where
  "deliverable phw p n \<longleftrightarrow>
     n < 16 \<and> \<not> masked_line phw p n
     \<and> (if n < 8 then \<forall>m \<in> in_service phw p. 8 \<le> m \<or> n < m
        else \<not> masked_line phw p 2 \<and> (\<forall>m \<in> in_service phw p. if m < 8 then 2 \<le> m else n < m))"

section \<open>The handlers\<close>

text \<open>
  The timer handler in its two steps: the end-of-interrupt command, then the tick, which may switch to another task. A point of \<open>None\<close> is the return.
\<close>

datatype timer_point = Timer_eoi | Timer_tick

fun timer_interrupt_handler ::
    "'p pic_ops \<Rightarrow> u64 \<Rightarrow> timer_point \<Rightarrow> 'p \<times> 'm kernel \<Rightarrow> ('p \<times> 'm kernel) \<times> timer_point option" where
  "timer_interrupt_handler pops ra Timer_eoi (pics, k) =
     ((notify_end_of_interrupt pops (interrupt_vector Timer_index) pics, k), Some Timer_tick)"
| "timer_interrupt_handler pops ra Timer_tick (pics, k) = ((pics, on_timer_tick ra k), None)"

definition keyboard_interrupt_handler :: "'p pic_ops \<Rightarrow> 'p \<Rightarrow> 'p" where
  "keyboard_interrupt_handler pops pics = notify_end_of_interrupt pops (interrupt_vector Keyboard_index) pics"

text \<open>
  Where each task is with respect to interrupts: in its own code with interrupts enabled, at a point of a handler, about to return from one,
  or lost in a vector that has no handler of the controller. A task that never ran starts in its code, with interrupts enabled by the trampoline.
\<close>

datatype irq_point = Task_code | In_timer timer_point | In_keyboard | Returning | Lost

record ('m, 'p) irq_state =
  irq_kernel :: "'m kernel"
  irq_pics :: 'p
  irq_points :: "u64 \<Rightarrow> irq_point"

fun entry_point :: "interrupt_handler option \<Rightarrow> irq_point" where
  "entry_point (Some Timer_interrupt_handler) = In_timer Timer_eoi"
| "entry_point (Some Keyboard_interrupt_handler) = In_keyboard"
| "entry_point _ = Lost"

abbreviation current_irq :: "('m, 'p) irq_state \<Rightarrow> irq_point" where
  "current_irq s \<equiv> irq_points s (CURRENT (irq_kernel s))"

abbreviation move_irq :: "irq_point \<Rightarrow> ('m, 'p) irq_state \<Rightarrow> ('m, 'p) irq_state" where
  "move_irq q s \<equiv> s\<lparr>irq_points := (irq_points s)(CURRENT (irq_kernel s) := q)\<rparr>"

text \<open>
  One step of the processor: task code does anything but tick, the controller interrupts task code, a handler goes on, or it returns.
  \<open>handler_at\<close> is the table of the handlers.
\<close>

definition run_timer :: "'p pic_ops \<Rightarrow> u64 \<Rightarrow> timer_point \<Rightarrow> ('m, 'p) irq_state \<Rightarrow> ('m, 'p) irq_state" where
  "run_timer pops ra pt s =
     (case timer_interrupt_handler pops ra pt (irq_pics s, irq_kernel s) of
        ((pics, k), next_point) \<Rightarrow>
          (move_irq (case next_point of None \<Rightarrow> Returning | Some q \<Rightarrow> In_timer q) s)\<lparr>irq_pics := pics, irq_kernel := k\<rparr>)"

inductive irq_step ::
    "'p pic_ops \<Rightarrow> 'p pic_hw \<Rightarrow> (u8 \<Rightarrow> interrupt_handler option) \<Rightarrow> ('m, physical_allocator) map_to \<Rightarrow> cpu_control
     \<Rightarrow> ('m, 'p) irq_state \<Rightarrow> ('m, 'p) irq_state \<Rightarrow> bool"
  for pops :: "'p pic_ops" and phw :: "'p pic_hw" and handler_at :: "u8 \<Rightarrow> interrupt_handler option"
    and map_to :: "('m, physical_allocator) map_to" and cpu :: cpu_control where
  task_spawn: "current_irq s = Task_code \<Longrightarrow> spawn_task_impl map_to cpu trampoline entry space (irq_kernel s) = Some (k, r)
      \<Longrightarrow> irq_step pops phw handler_at map_to cpu s (s\<lparr>irq_kernel := k\<rparr>)"
| task_exit: "current_irq s = Task_code \<Longrightarrow> irq_step pops phw handler_at map_to cpu s (s\<lparr>irq_kernel := exit_current_task ra (irq_kernel s)\<rparr>)"
| task_run: "current_irq s = Task_code \<Longrightarrow> irq_step pops phw handler_at map_to cpu s (s\<lparr>irq_kernel := (irq_kernel s)\<lparr>cpu_state := m\<rparr>\<rparr>)"
| interrupt: "current_irq s = Task_code \<Longrightarrow> deliverable phw (irq_pics s) n
      \<Longrightarrow> irq_step pops phw handler_at map_to cpu s
            ((move_irq (entry_point (handler_at (vector_of phw (irq_pics s) n))) s)\<lparr>irq_pics := acknowledge phw n (irq_pics s)\<rparr>)"
| timer: "current_irq s = In_timer pt \<Longrightarrow> irq_step pops phw handler_at map_to cpu s (run_timer pops ra pt s)"
| keyboard: "current_irq s = In_keyboard
      \<Longrightarrow> irq_step pops phw handler_at map_to cpu s ((move_irq Returning s)\<lparr>irq_pics := keyboard_interrupt_handler pops (irq_pics s)\<rparr>)"
| return: "current_irq s = Returning \<Longrightarrow> irq_step pops phw handler_at map_to cpu s (move_irq Task_code s)"

definition irq_start :: "'p pic_ops \<Rightarrow> 'm kernel \<Rightarrow> ('m, 'p) irq_state" where
  "irq_start pops k = \<lparr>irq_kernel = k, irq_pics = late_boot_pics pops (PICS pops), irq_points = (\<lambda>_. Task_code)\<rparr>"

section \<open>The contract of the controller\<close>

text \<open>Only the timer line is open, its vector is the one of the timer handler, and the lines \<open>S\<close> are in service.\<close>

definition pic_inv :: "'p pic_hw \<Rightarrow> 'p \<Rightarrow> nat set \<Rightarrow> bool" where
  "pic_inv phw p S \<longleftrightarrow> programmed phw p \<and> (\<forall>n < 16. masked_line phw p n \<longleftrightarrow> n \<noteq> 0) \<and> vector_of phw p 0 = PIC_1_OFFSET \<and> in_service phw p = S"

locale pic_chain =
  fixes pops :: "'p pic_ops" and phw :: "'p pic_hw"
  assumes init_service: "in_service phw (initialize_pics pops p) = {}"
    and init_programmed: "unat o1 + 8 \<le> unat o2 \<Longrightarrow> unat o2 + 8 \<le> 256 \<Longrightarrow> programmed phw (initialize_pics pops (chained_pics_new pops o1 o2))"
    and init_vector: "n < 8 \<Longrightarrow> vector_of phw (initialize_pics pops (chained_pics_new pops o1 o2)) n = o1 + of_nat n"
    and masks_set: "n < 16 \<Longrightarrow> masked_line phw (write_masks pops a b p) n = (if n < 8 then bit a n else bit b (n - 8))"
    and masks_programmed: "programmed phw (write_masks pops a b p) = programmed phw p"
    and masks_service: "in_service phw (write_masks pops a b p) = in_service phw p"
    and masks_vector: "vector_of phw (write_masks pops a b p) = vector_of phw p"
    and eoi_service: "programmed phw p \<Longrightarrow> n < 8 \<Longrightarrow> in_service phw p = {n} \<Longrightarrow> v = vector_of phw p n
      \<Longrightarrow> in_service phw (notify_end_of_interrupt pops v p) = {}"
    and eoi_rest: "programmed phw (notify_end_of_interrupt pops v p) = programmed phw p"
      "masked_line phw (notify_end_of_interrupt pops v p) = masked_line phw p"
      "vector_of phw (notify_end_of_interrupt pops v p) = vector_of phw p"
    and ack_service: "n < 8 \<Longrightarrow> in_service phw (acknowledge phw n p) = insert n (in_service phw p)"
    and ack_rest: "programmed phw (acknowledge phw n p) = programmed phw p"
      "masked_line phw (acknowledge phw n p) = masked_line phw p" "vector_of phw (acknowledge phw n p) = vector_of phw p"
begin

lemma pic_inv_start: "pic_inv phw (late_boot_pics pops (PICS pops)) {}"
proof -
  have "masked_line phw (late_boot_pics pops (PICS pops)) n \<longleftrightarrow> n \<noteq> 0" if "n < 16" for n
  proof -
    have "n \<in> set [0..<16]" using that by simp
    then have "(if n < 8 then bit (0xFE :: u8) n else bit (0xFF :: u8) (n - 8)) \<longleftrightarrow> n \<noteq> 0" by (auto simp: upt_rec)
    then show ?thesis using that by (simp add: late_boot_pics_def masks_set)
  qed
  then show ?thesis by (simp add: pic_inv_def late_boot_pics_def PICS_def masks_programmed masks_service masks_vector init_service init_vector
        init_programmed PIC_1_OFFSET_def PIC_2_OFFSET_def)
qed

lemma only_timer_deliverable: "pic_inv phw p {} \<Longrightarrow> deliverable phw p n \<longleftrightarrow> n = 0"
  by (auto simp: pic_inv_def deliverable_def)

lemma pic_inv_ack: "pic_inv phw p {} \<Longrightarrow> pic_inv phw (acknowledge phw 0 p) {0}"
  by (simp add: pic_inv_def ack_service ack_rest)

lemma pic_inv_eoi: "pic_inv phw p {0} \<Longrightarrow> pic_inv phw (notify_end_of_interrupt pops (interrupt_vector Timer_index) p) {}"
  using eoi_service [of p 0 "interrupt_vector Timer_index"] by (simp add: pic_inv_def eoi_rest)

end

section \<open>The invariant of the handlers\<close>

text \<open>
  A task that is not running has at most the return from a handler left, and the timer line is in service exactly while the handler
  of the running task has not sent its command.
\<close>

definition irq_inv :: "'p pic_hw \<Rightarrow> ('m, 'p) irq_state \<Rightarrow> bool" where
  "irq_inv phw s \<longleftrightarrow>
     (\<forall>p. p \<noteq> CURRENT (irq_kernel s) \<longrightarrow> irq_points s p \<in> {Task_code, Returning})
     \<and> current_irq s \<in> {Task_code, In_timer Timer_eoi, In_timer Timer_tick, Returning}
     \<and> pic_inv phw (irq_pics s) (if current_irq s = In_timer Timer_eoi then {0} else {})"

text \<open>When no handler is under way the kernel may change in any way.\<close>

lemma irq_inv_quiet:
  assumes "\<forall>p. irq_points s p \<in> {Task_code, Returning}" and "pic_inv phw (irq_pics s) {}"
  shows "irq_inv phw s"
proof -
  have "current_irq s \<in> {Task_code, Returning}" using assms(1) by blast
  then have "current_irq s \<noteq> In_timer Timer_eoi" "current_irq s \<in> {Task_code, In_timer Timer_eoi, In_timer Timer_tick, Returning}" by auto
  then show ?thesis using assms by (simp add: irq_inv_def)
qed

lemma quiet_points:
  assumes "irq_inv phw s" and "current_irq s \<in> {Task_code, Returning}"
  shows "\<forall>p. irq_points s p \<in> {Task_code, Returning}" and "pic_inv phw (irq_pics s) {}"
proof -
  show "\<forall>p. irq_points s p \<in> {Task_code, Returning}"
  proof
    fix p show "irq_points s p \<in> {Task_code, Returning}" using assms by (cases "p = CURRENT (irq_kernel s)") (auto simp: irq_inv_def)
  qed
  show "pic_inv phw (irq_pics s) {}" using assms by (auto simp: irq_inv_def)
qed

lemma TICKS_keeps [simp]:
  "TICKS (store_context p sp k) = TICKS k" "TICKS (switch_address_space_to p k) = TICKS k"
  by (auto simp: store_context_def switch_address_space_to_def Let_def split: option.splits if_splits)

lemma TICKS_tick: "TICKS (on_timer_tick ra k) = TICKS k + 1"
  by (simp add: on_timer_tick_def Let_def split_beta split: option.splits)

context pic_chain
begin

lemma irq_inv_start: "irq_inv phw (irq_start pops k)"
  by (rule irq_inv_quiet) (simp_all add: irq_start_def pic_inv_start)

lemma irq_inv_timer:
  assumes "irq_inv phw s" and "current_irq s = In_timer pt"
  shows "irq_inv phw (run_timer pops ra pt s)"
proof (cases pt)
  case Timer_eoi
  then have "pic_inv phw (irq_pics s) {0}" using assms by (simp add: irq_inv_def)
  from pic_inv_eoi [OF this] show ?thesis using assms Timer_eoi by (auto simp: irq_inv_def run_timer_def)
next
  case Timer_tick
  show ?thesis
  proof (rule irq_inv_quiet)
    show "\<forall>p. irq_points (run_timer pops ra pt s) p \<in> {Task_code, Returning}"
      using assms Timer_tick by (auto simp: irq_inv_def run_timer_def)
    show "pic_inv phw (irq_pics (run_timer pops ra pt s)) {}"
      using assms Timer_tick by (simp add: irq_inv_def run_timer_def)
  qed
qed

lemma irq_inv_step:
  assumes "irq_step pops phw handler_at map_to cpu s s'" and "irq_inv phw s"
    and "handler_at PIC_1_OFFSET = Some Timer_interrupt_handler"
  shows "irq_inv phw s'"
  using assms(1)
proof cases
  case (task_spawn trampoline entry space k r)
  then show ?thesis using quiet_points [OF assms(2)] by (intro irq_inv_quiet) simp_all
next
  case (task_exit ra)
  then show ?thesis using quiet_points [OF assms(2)] by (intro irq_inv_quiet) simp_all
next
  case (task_run m)
  then show ?thesis using quiet_points [OF assms(2)] by (intro irq_inv_quiet) simp_all
next
  case (interrupt n)
  have q: "\<forall>p. irq_points s p \<in> {Task_code, Returning}" "pic_inv phw (irq_pics s) {}"
    using quiet_points [OF assms(2)] interrupt by simp_all
  have "n = 0" using interrupt only_timer_deliverable [OF q(2)] by simp
  moreover have "vector_of phw (irq_pics s) 0 = PIC_1_OFFSET" using q(2) by (simp add: pic_inv_def)
  ultimately show ?thesis using interrupt q assms(3) pic_inv_ack [OF q(2)] by (simp add: irq_inv_def)
next
  case (timer pt ra)
  then show ?thesis using irq_inv_timer [OF assms(2)] by simp
next
  case keyboard
  then show ?thesis using assms(2) by (simp add: irq_inv_def)
next
  case return
  then show ?thesis using quiet_points [OF assms(2)] by (intro irq_inv_quiet) simp_all
qed

lemma irq_inv_reachable:
  assumes "(irq_step pops phw handler_at map_to cpu)\<^sup>*\<^sup>* (irq_start pops k) s"
    and "handler_at PIC_1_OFFSET = Some Timer_interrupt_handler"
  shows "irq_inv phw s"
  using assms(1)
proof (induction rule: rtranclp_induct)
  case base
  show ?case by (rule irq_inv_start)
next
  case (step s s')
  show ?case by (rule irq_inv_step [OF step(2,3) assms(2)])
qed

text \<open>From every point of the handlers the next tick is a few steps away.\<close>

lemma tick_from_handler:
  assumes "irq_inv phw s" and "current_irq s = In_timer pt"
  shows "\<exists>s'. (irq_step pops phw handler_at map_to cpu)\<^sup>*\<^sup>* s s' \<and> TICKS (irq_kernel s') = TICKS (irq_kernel s) + 1"
proof (cases pt)
  case Timer_tick
  then show ?thesis using irq_step.timer [OF assms(2), of pops phw handler_at map_to cpu 0]
    by (intro exI [of _ "run_timer pops 0 pt s"]) (auto simp: run_timer_def TICKS_tick)
next
  case Timer_eoi
  let ?s1 = "run_timer pops 0 Timer_eoi s"
  let ?s2 = "run_timer pops 0 Timer_tick ?s1"
  have "irq_step pops phw handler_at map_to cpu s ?s1" using assms(2) Timer_eoi by (intro irq_step.timer) simp
  moreover have "irq_step pops phw handler_at map_to cpu ?s1 ?s2" by (intro irq_step.timer) (simp add: run_timer_def)
  moreover have "TICKS (irq_kernel ?s2) = TICKS (irq_kernel s) + 1" by (simp add: run_timer_def TICKS_tick)
  ultimately show ?thesis by (meson r_into_rtranclp rtranclp_trans)
qed

lemma tick_from_task:
  assumes "irq_inv phw s" and "current_irq s = Task_code" and "handler_at PIC_1_OFFSET = Some Timer_interrupt_handler"
  shows "\<exists>s'. (irq_step pops phw handler_at map_to cpu)\<^sup>*\<^sup>* s s' \<and> TICKS (irq_kernel s') = TICKS (irq_kernel s) + 1"
proof -
  have p: "pic_inv phw (irq_pics s) {}" using assms by (simp add: irq_inv_def)
  let ?s1 = "(move_irq (In_timer Timer_eoi) s)\<lparr>irq_pics := acknowledge phw 0 (irq_pics s)\<rparr>"
  have "vector_of phw (irq_pics s) 0 = PIC_1_OFFSET" using p by (simp add: pic_inv_def)
  then have i: "irq_step pops phw handler_at map_to cpu s ?s1"
    using irq_step.interrupt [OF assms(2), of phw 0 pops handler_at map_to cpu] only_timer_deliverable [OF p] assms(3) by simp
  have "current_irq ?s1 = In_timer Timer_eoi" by simp
  from tick_from_handler [OF irq_inv_step [OF i assms(1,3)] this, of handler_at map_to cpu] obtain s'
    where "(irq_step pops phw handler_at map_to cpu)\<^sup>*\<^sup>* ?s1 s'" "TICKS (irq_kernel s') = TICKS (irq_kernel s) + 1" by auto
  then show ?thesis using i by (meson converse_rtranclp_into_rtranclp)
qed

lemma tick_again:
  assumes "irq_inv phw s" and "handler_at PIC_1_OFFSET = Some Timer_interrupt_handler"
  shows "\<exists>s'. (irq_step pops phw handler_at map_to cpu)\<^sup>*\<^sup>* s s' \<and> TICKS (irq_kernel s') = TICKS (irq_kernel s) + 1"
proof -
  consider "current_irq s = Task_code" | pt where "current_irq s = In_timer pt" | "current_irq s = Returning"
    using assms(1) by (auto simp: irq_inv_def)
  then show ?thesis
  proof cases
    case 3
    have i: "irq_step pops phw handler_at map_to cpu s (move_irq Task_code s)" by (rule irq_step.return [OF 3])
    have "current_irq (move_irq Task_code s) = Task_code" by simp
    from tick_from_task [where handler_at = handler_at and map_to = map_to and cpu = cpu, OF irq_inv_step [OF i assms] this assms(2)] obtain s'
      where "(irq_step pops phw handler_at map_to cpu)\<^sup>*\<^sup>* (move_irq Task_code s) s'" "TICKS (irq_kernel s') = TICKS (irq_kernel s) + 1" by auto
    then show ?thesis using i by (meson converse_rtranclp_into_rtranclp)
  qed (use tick_from_task [where handler_at = handler_at, OF assms(1) _ assms(2)] tick_from_handler [OF assms(1)] in blast)+
qed

end

section \<open>A pair of 8259 controllers\<close>

text \<open>
  The driver remembers two offsets; each chip has its vector offset, mask and in-service register. The end-of-interrupt command clears the
  lowest bit in service, and goes to both chips for a line of the second one.
\<close>

record pic_pair =
  pp_offset1 :: u8
  pp_offset2 :: u8
  pp_vector1 :: u8
  pp_vector2 :: u8
  pp_mask1 :: u8
  pp_mask2 :: u8
  pp_isr1 :: u8
  pp_isr2 :: u8

definition clear_lowest :: "u8 \<Rightarrow> u8" where
  "clear_lowest w = w AND (w - 1)"

definition pair_eoi :: "u8 \<Rightarrow> pic_pair \<Rightarrow> pic_pair" where
  "pair_eoi v p =
     (if pp_offset2 p \<le> v \<and> unat v < unat (pp_offset2 p) + 8 then p\<lparr>pp_isr2 := clear_lowest (pp_isr2 p), pp_isr1 := clear_lowest (pp_isr1 p)\<rparr>
      else if pp_offset1 p \<le> v \<and> unat v < unat (pp_offset1 p) + 8 then p\<lparr>pp_isr1 := clear_lowest (pp_isr1 p)\<rparr>
      else p)"

definition pair_ops :: "pic_pair pic_ops" where
  "pair_ops =
     \<lparr>chained_pics_new = (\<lambda>o1 o2. \<lparr>pp_offset1 = o1, pp_offset2 = o2, pp_vector1 = 0x08, pp_vector2 = 0x70, pp_mask1 = 0, pp_mask2 = 0,
        pp_isr1 = 0, pp_isr2 = 0\<rparr>),
      initialize_pics = (\<lambda>p. p\<lparr>pp_vector1 := pp_offset1 p, pp_vector2 := pp_offset2 p, pp_isr1 := 0, pp_isr2 := 0\<rparr>),
      write_masks = (\<lambda>a b p. p\<lparr>pp_mask1 := a, pp_mask2 := b\<rparr>),
      notify_end_of_interrupt = pair_eoi\<rparr>"

definition pair_hw :: "pic_pair pic_hw" where
  "pair_hw =
     \<lparr>programmed = (\<lambda>p. pp_vector1 p = pp_offset1 p \<and> pp_vector2 p = pp_offset2 p \<and> unat (pp_offset1 p) + 8 \<le> unat (pp_offset2 p)),
      masked_line = (\<lambda>p n. if n < 8 then bit (pp_mask1 p) n else bit (pp_mask2 p) (n - 8)),
      in_service = (\<lambda>p. {n. if n < 8 then bit (pp_isr1 p) n else bit (pp_isr2 p) (n - 8)}),
      vector_of = (\<lambda>p n. if n < 8 then pp_vector1 p + of_nat n else pp_vector2 p + of_nat (n - 8)),
      acknowledge = (\<lambda>n p. if n < 8 then p\<lparr>pp_isr1 := set_bit n (pp_isr1 p)\<rparr>
        else p\<lparr>pp_isr1 := set_bit 2 (pp_isr1 p), pp_isr2 := set_bit (n - 8) (pp_isr2 p)\<rparr>)\<rparr>"

lemma clear_only:
  assumes "n < 8" and "\<And>m. m < 8 \<Longrightarrow> bit w m \<longleftrightarrow> m = n"
  shows "clear_lowest w = 0"
proof -
  have "w = push_bit n 1"
  proof (rule bit_word_eqI)
    fix m :: nat assume "m < LENGTH(8)"
    then show "bit w m = bit (push_bit n 1 :: u8) m" using assms by (auto simp: bit_simps)
  qed
  moreover have "n \<in> set [0..<8]" using assms(1) by simp
  ultimately show ?thesis by (auto simp: upt_rec clear_lowest_def)
qed

lemma pair_eoi_service:
  assumes "programmed pair_hw p" and "n < 8" and "in_service pair_hw p = {n}"
  shows "in_service pair_hw (pair_eoi (vector_of pair_hw p n) p) = {}"
proof -
  have o: "pp_vector1 p = pp_offset1 p" "unat (pp_offset1 p) + 8 \<le> unat (pp_offset2 p)" using assms(1) by (simp_all add: pair_hw_def)
  have "unat (pp_offset2 p) < 256" using unsigned_less [of "pp_offset2 p", where 'a = nat] by simp
  then have "unat (pp_offset1 p + of_nat n) = unat (pp_offset1 p) + n"
    using o(2) assms(2) by (simp add: unat_word_ariths unat_of_nat)
  then have e: "pair_eoi (vector_of pair_hw p n) p = p\<lparr>pp_isr1 := clear_lowest (pp_isr1 p)\<rparr>"
    using o assms(2) by (simp add: pair_eoi_def pair_hw_def word_le_nat_alt)
  have i: "(if m < 8 then bit (pp_isr1 p) m else bit (pp_isr2 p) (m - 8)) \<longleftrightarrow> m = n" for m
    using assms(3) by (auto simp: pair_hw_def set_eq_iff)
  have "bit (pp_isr1 p) m \<longleftrightarrow> m = n" if "m < 8" for m using i [of m] that by simp
  from clear_only [OF assms(2) this] have "clear_lowest (pp_isr1 p) = 0" by simp
  moreover have "\<not> bit (pp_isr2 p) m" for m using i [of "m + 8"] assms(2) by simp
  ultimately show ?thesis unfolding e by (auto simp: pair_hw_def)
qed

interpretation pp: pic_chain pair_ops pair_hw
proof
  show "in_service pair_hw (notify_end_of_interrupt pair_ops v p) = {}"
    if "programmed pair_hw p" "n < 8" "in_service pair_hw p = {n}" "v = vector_of pair_hw p n" for p n v
    using pair_eoi_service [OF that(1-3)] that(4) by (simp add: pair_ops_def)
  show "in_service pair_hw (acknowledge pair_hw n p) = insert n (in_service pair_hw p)" if "n < 8" for n p
    using that by (auto simp: pair_hw_def bit_set_bit_iff)
qed (auto simp: pair_ops_def pair_hw_def pair_eoi_def fun_eq_iff)

section \<open>Delivery on both processors\<close>

text \<open>What a vector should lead to: the handlers of the table, ring 3 may raise only the system call, the double fault has its own stack.\<close>

fun handler_table :: "u8 \<Rightarrow> interrupt_handler option" where
  "handler_table v =
     (if v = 3 then Some Breakpoint_handler else if v = 8 then Some Double_fault_handler else if v = 14 then Some Page_fault_handler
      else if v = 32 then Some Timer_interrupt_handler else if v = 33 then Some Keyboard_interrupt_handler
      else if v = 0x80 then Some Syscall_entry_stub else None)"

definition expected_delivery :: "u64 \<Rightarrow> u64 \<Rightarrow> bool \<Rightarrow> u16 \<Rightarrow> u64 \<Rightarrow> u8 \<Rightarrow> delivery" where
  "expected_delivery fault_top priv_top software cpl sp v =
     (case handler_table v of
        None \<Rightarrow> Protection_fault
      | Some h \<Rightarrow>
          if software \<and> 0 < cpl \<and> v \<noteq> 0x80 then Protection_fault
          else Handled h (if v = 8 then fault_top else if 0 < cpl then priv_top else sp))"

context idt_entries
begin

lemma IDT_handlers: "map_option gate_handler (gate_of (IDT ops cs v)) = handler_table v"
  by (simp add: IDT_gate)

end

lemma deliver_typed:
  assumes "idt_entries ops gate_of" and "segments_typed descriptor_at a c" and "tss_at a = Some tss" and "cpl \<le> 3"
  shows "deliver descriptor_at tss_at gate_of (IDT ops (cs_reg c)) c software cpl sp v =
    expected_delivery (interrupt_stack_table tss ! 0) (privilege_stack_table tss ! 0) software cpl sp v"
proof -
  obtain g where g: "gdtr c = Some (g, True)" "descriptor_at g (selector_index (cs_reg c)) = Some Kernel_Code_Segment"
    "descriptor_at g (selector_index (task_register c)) = Some (Tss_Segment a)"
    using assms(2) by (auto simp: segments_typed_def)
  have t: "loaded_tss descriptor_at tss_at c = Some tss" using g assms(3) by (simp add: loaded_tss_def)
  have "3 < cpl \<longleftrightarrow> False" using assms(4) by simp
  then show ?thesis
    by (simp add: deliver_def expected_delivery_def idt_entries.IDT_gate [OF assms(1)] g t word_gt_0 del: not_less)
qed

lemma tss_tops:
  assumes "tss_with_stacks new_tss df pr = Some tss" and "length (interrupt_stack_table new_tss) = 7" and "length (privilege_stack_table new_tss) = 3"
  shows "interrupt_stack_table tss ! 0 = df + FAULT_STACK_SIZE" and "privilege_stack_table tss ! 0 = pr + FAULT_STACK_SIZE"
  using assms by (auto simp: tss_with_stacks_def virt_add_def Let_def DOUBLE_FAULT_IST_INDEX_def split: if_splits)

lemma ap_tss: "init_for_ap new_gdt append_gdt descriptor_at new_tss df pr a c = Some (tss, c') \<Longrightarrow> tss_with_stacks new_tss df pr = Some tss"
  by (auto simp: init_for_ap_def Let_def split: option.splits prod.splits)

section \<open>Properties\<close>

text \<open>
  C39: Every vector reaches its handler on the right stack, on both processors. After \<open>gdt::init\<close> and \<open>init_idt\<close> on the boot processor, and
  \<open>init_for_ap\<close> and \<open>init_idt\<close> on the second one, which loads the same table, each vector of the table is delivered to its handler without a
  fault: the double fault on the stack that this processor reserved for it, any other one from ring 3 on this processor's privilege stack, and from ring 0
  on the current stack. Software interrupts from ring 3 reach the system call and nothing else, and a vector without a handler is a fault.
\<close>

theorem interrupts_delivered:
  assumes "gdt_table new_gdt append_gdt descriptor_at used valid_gdt" and "idt_entries ops gate_of"
    and "length (interrupt_stack_table new_tss) = 7" and "length (privilege_stack_table new_tss) = 3"
    and "TSS new_tss df pr = Some tss" and "tss_at a = Some tss"
    and "GDT new_gdt append_gdt a = Some gdt" and "gdt_init descriptor_at gdt False c0 = Some c"
    and "init_for_ap new_gdt append_gdt descriptor_at new_tss df' pr' a' c0' = Some (tss', c')" and "tss_at a' = Some tss'"
    and "idt = init_idt ops c None" and "cpl \<le> 3"
  shows "deliver descriptor_at tss_at gate_of idt c software cpl sp v =
      expected_delivery (df + FAULT_STACK_SIZE) (pr + FAULT_STACK_SIZE) software cpl sp v
    \<and> deliver descriptor_at tss_at gate_of (init_idt ops c' (Some idt)) c' software cpl sp v =
      expected_delivery (df' + FAULT_STACK_SIZE) (pr' + FAULT_STACK_SIZE) software cpl sp v"
proof
  obtain c1 where "gdt_init descriptor_at gdt False c0 = Some c1" "segments_typed descriptor_at a c1" "cs_reg c1 = 0x08"
    by (rule gdt_table.init_typed [OF assms(1,7)])
  then have c: "segments_typed descriptor_at a c" "cs_reg c = 0x08" using assms(8) by simp_all
  note t' = ap_tss [OF assms(9)]
  obtain c2 where "init_for_ap new_gdt append_gdt descriptor_at new_tss df' pr' a' c0' = Some (tss', c2)"
    "segments_typed descriptor_at a' c2" "cs_reg c2 = 0x08"
    by (rule gdt_table.init_for_ap_typed [OF assms(1) t'])
  then have c': "segments_typed descriptor_at a' c'" "cs_reg c' = cs_reg c" using assms(9) c(2) by simp_all
  have idt: "idt = IDT ops (cs_reg c)" "idt = IDT ops (cs_reg c')" using assms(11) c'(2) by (simp_all add: init_idt_def)
  show "deliver descriptor_at tss_at gate_of idt c software cpl sp v =
      expected_delivery (df + FAULT_STACK_SIZE) (pr + FAULT_STACK_SIZE) software cpl sp v"
    using deliver_typed [where tss_at = tss_at, OF assms(2) c(1) assms(6,12)] tss_tops [OF _ assms(3,4), of df pr tss] assms(5) idt(1) by (simp add: TSS_def)
  show "deliver descriptor_at tss_at gate_of (init_idt ops c' (Some idt)) c' software cpl sp v =
      expected_delivery (df' + FAULT_STACK_SIZE) (pr' + FAULT_STACK_SIZE) software cpl sp v"
    using deliver_typed [where tss_at = tss_at, OF assms(2) c'(1) assms(10,12)] tss_tops [OF t' assms(3,4)] idt(2) by (simp add: init_idt_def)
qed

theorem interrupts_delivered_witness:
  "\<exists>gdt c tss. GDT word_table_new word_append 0x8000 = Some gdt \<and> gdt_init word_descriptor_at gdt False reset_segments = Some c
    \<and> TSS zero_tss 0x10000 0x20000 = Some tss
    \<and> deliver word_descriptor_at ([0x8000 \<mapsto> tss, 0x9000 \<mapsto> the (TSS zero_tss 0x30000 0x40000)]) hw_gate_of (init_idt hw_entry_ops c None) c
        False 0 0x7000 8 = Handled Double_fault_handler 0x15000"
proof -
  obtain gdt where g: "GDT word_table_new word_append 0x8000 = Some gdt" by (rule wt.GDT_built)
  obtain c where c: "gdt_init word_descriptor_at gdt False reset_segments = Some c" by (rule wt.init_typed [OF g])
  obtain tss where t: "TSS zero_tss 0x10000 0x20000 = Some tss"
    by (simp add: TSS_def tss_with_stacks_def virt_add_def is_canonical_def FAULT_STACK_SIZE_def)
  obtain tss' where t': "tss_with_stacks zero_tss 0x30000 0x40000 = Some tss'"
    by (simp add: tss_with_stacks_def virt_add_def is_canonical_def FAULT_STACK_SIZE_def)
  obtain c' where c': "init_for_ap word_table_new word_append word_descriptor_at zero_tss 0x30000 0x40000 0x9000 reset_segments = Some (tss', c')"
    by (rule wt.init_for_ap_typed [OF t'])
  have "the (TSS zero_tss 0x30000 0x40000) = tss'" using t' by (simp add: TSS_def)
  moreover have "expected_delivery (0x10000 + FAULT_STACK_SIZE) (0x20000 + FAULT_STACK_SIZE) False 0 0x7000 8 = Handled Double_fault_handler 0x15000"
    by (simp add: expected_delivery_def FAULT_STACK_SIZE_def)
  ultimately show ?thesis
    using g c t interrupts_delivered [where tss_at = "[0x8000 \<mapsto> tss, 0x9000 \<mapsto> tss']" and cpl = 0 and v = 8 and software = False and sp = "0x7000",
      OF wt.gdt_table_axioms hw.idt_entries_axioms _ _ t _ g c c' _ refl]
    by (auto simp: zero_tss_def)
qed

text \<open>
  C40: The timer never stalls. From the state that late boot leaves, under every interleaving of task code (which may spawn, exit and
  compute), interrupts and the steps of their handlers, with the context switch in the middle of the timer handler: while task code
  runs the timer line can interrupt it and no other line can; every interrupt reaches the timer handler; a task that is switched out has at most its
  return from the handler left to do; and from every such state the timer can tick again.
\<close>

theorem timer_never_stalls:
  assumes "pic_chain pops phw" and "idt_entries ops gate_of"
    and "(irq_step pops phw (\<lambda>v. map_option gate_handler (gate_of (IDT ops cs v))) map_to cpu)\<^sup>*\<^sup>* (irq_start pops k) s"
  shows "(current_irq s = Task_code \<longrightarrow> (\<forall>n. deliverable phw (irq_pics s) n \<longleftrightarrow> n = 0))
    \<and> current_irq s \<notin> {In_keyboard, Lost}
    \<and> (\<forall>p. p \<noteq> CURRENT (irq_kernel s) \<longrightarrow> irq_points s p \<in> {Task_code, Returning})
    \<and> (\<exists>s'. (irq_step pops phw (\<lambda>v. map_option gate_handler (gate_of (IDT ops cs v))) map_to cpu)\<^sup>*\<^sup>* s s'
          \<and> TICKS (irq_kernel s') = TICKS (irq_kernel s) + 1)"
proof -
  have h: "map_option gate_handler (gate_of (IDT ops cs PIC_1_OFFSET)) = Some Timer_interrupt_handler"
    by (simp add: idt_entries.IDT_handlers [OF assms(2)] PIC_1_OFFSET_def)
  have i: "irq_inv phw s" by (rule pic_chain.irq_inv_reachable [OF assms(1,3) h])
  have "deliverable phw (irq_pics s) n \<longleftrightarrow> n = 0" if "current_irq s = Task_code" for n
    using i that pic_chain.only_timer_deliverable [OF assms(1)] by (simp add: irq_inv_def)
  moreover have "current_irq s \<notin> {In_keyboard, Lost}" using i by (auto simp: irq_inv_def)
  moreover have "\<forall>p. p \<noteq> CURRENT (irq_kernel s) \<longrightarrow> irq_points s p \<in> {Task_code, Returning}" using i by (simp add: irq_inv_def)
  ultimately show ?thesis 
    using pic_chain.tick_again [where handler_at = "\<lambda>v. map_option gate_handler (gate_of (IDT ops cs v))", OF assms(1) i h] by blast
qed

text \<open>The boot flow, interrupted once, before its handler has sent the command.\<close>

theorem timer_never_stalls_witness:
  "\<exists>s s'. current_irq s = In_timer Timer_eoi \<and> in_service pair_hw (irq_pics s) = {0}
    \<and> (irq_step pair_ops pair_hw (\<lambda>v. map_option gate_handler (hw_gate_of (IDT hw_entry_ops 8 v))) flat_map_to sample_cpu)\<^sup>*\<^sup>* s s'
    \<and> TICKS (irq_kernel s') = TICKS sample_kernel + 1"
proof -
  let ?h = "\<lambda>v. map_option gate_handler (hw_gate_of (IDT hw_entry_ops 8 v))"
  let ?start = "irq_start pair_ops sample_kernel"
  let ?s = "(move_irq (In_timer Timer_eoi) ?start)\<lparr>irq_pics := acknowledge pair_hw 0 (irq_pics ?start)\<rparr>"
  have p: "pic_inv pair_hw (irq_pics ?start) {}" using pp.pic_inv_start by (simp add: irq_start_def)
  have h: "?h PIC_1_OFFSET = Some Timer_interrupt_handler" by (simp add: hw.IDT_handlers PIC_1_OFFSET_def)
  have "vector_of pair_hw (irq_pics ?start) 0 = PIC_1_OFFSET" using p by (simp add: pic_inv_def)
  then have "irq_step pair_ops pair_hw ?h flat_map_to sample_cpu ?start ?s"
    using irq_step.interrupt [of ?start pair_hw 0 pair_ops ?h flat_map_to sample_cpu] pp.only_timer_deliverable [OF p] h by (simp add: irq_start_def)
  then have r: "(irq_step pair_ops pair_hw ?h flat_map_to sample_cpu)\<^sup>*\<^sup>* ?start ?s" by blast
  from timer_never_stalls [OF pp.pic_chain_axioms hw.idt_entries_axioms r] obtain s'
    where s': "(irq_step pair_ops pair_hw ?h flat_map_to sample_cpu)\<^sup>*\<^sup>* ?s s'" "TICKS (irq_kernel s') = TICKS (irq_kernel ?s) + 1" by blast
  have "in_service pair_hw (irq_pics ?s) = {0}" using pp.pic_inv_ack [OF p] by (simp add: pic_inv_def)
  moreover have "current_irq ?s = In_timer Timer_eoi" by simp
  moreover have "TICKS (irq_kernel ?s) = TICKS sample_kernel" by (simp add: irq_start_def)
  ultimately show ?thesis using s' by metis
qed

end
