(* ===== verification/Acpi_Handler.thy ===== *)
theory Acpi_Handler
  imports Topology Port_Io
begin

text \<open>
  The memory and port accesses that the ACPI handler offers (\<open>IdentityMappedHandler\<close> of \<open>acpi_topology.rs\<close>). Physical memory is mapped as a whole at an
  offset, so an access to a physical address is an access to the bytes at the sum, in little-endian order. An access before the offset is known
  panics, as do the entry points that only evaluating control methods would need: both are \<open>None\<close>. A port access is one access to
  the port of that width.
\<close>

section \<open>Bytes of a word\<close>

definition word_bytes :: "nat \<Rightarrow> 'a::len word \<Rightarrow> u8 list" where
  "word_bytes n w = map (\<lambda>i. ucast (drop_bit (8 * i) w)) [0..<n]"

definition bytes_word :: "u8 list \<Rightarrow> 'a::len word" where
  "bytes_word bs = foldr (\<lambda>b w. ucast b OR push_bit 8 w) bs 0"

type_synonym byte_memory = "u64 \<Rightarrow> u8"

definition load_bytes :: "nat \<Rightarrow> u64 \<Rightarrow> byte_memory \<Rightarrow> u8 list" where
  "load_bytes n a mem = map (\<lambda>i. mem (a + of_nat i)) [0..<n]"

definition store_bytes :: "u8 list \<Rightarrow> u64 \<Rightarrow> byte_memory \<Rightarrow> byte_memory" where
  "store_bytes bs a mem = (\<lambda>x. if unat (x - a) < length bs then bs ! unat (x - a) else mem x)"

section \<open>The handler\<close>

text \<open>\<open>off\<close> is the result of \<open>paging::phys_mem_offset\<close>; the wrapper in this module panics without it.\<close>

definition acpi_phys_mem_offset :: "'m paging_globals \<Rightarrow> u64 option" where
  "acpi_phys_mem_offset g = phys_mem_offset g"

record physical_mapping =
  physical_start :: u64
  virtual_start :: u64
  region_length :: u64
  mapped_length :: u64

definition map_physical_region :: "'m paging_globals \<Rightarrow> u64 \<Rightarrow> u64 \<Rightarrow> physical_mapping option" where
  "map_physical_region g physical_address sz =
     (case acpi_phys_mem_offset g of
        None \<Rightarrow> None
      | Some off \<Rightarrow>
          let virt = off + physical_address
          in if virt = 0 then None
             else Some \<lparr>physical_start = physical_address, virtual_start = virt, region_length = sz, mapped_length = sz\<rparr>)"

definition read_volatile :: "nat \<Rightarrow> 'm paging_globals \<Rightarrow> u64 \<Rightarrow> byte_memory \<Rightarrow> 'a::len word option" where
  "read_volatile n g address mem = map_option (\<lambda>off. bytes_word (load_bytes n (off + address) mem)) (acpi_phys_mem_offset g)"

definition write_volatile :: "nat \<Rightarrow> 'm paging_globals \<Rightarrow> u64 \<Rightarrow> 'a::len word \<Rightarrow> byte_memory \<Rightarrow> byte_memory option" where
  "write_volatile n g address v mem = map_option (\<lambda>off. store_bytes (word_bytes n v) (off + address) mem) (acpi_phys_mem_offset g)"

definition read_u8 :: "'m paging_globals \<Rightarrow> u64 \<Rightarrow> byte_memory \<Rightarrow> u8 option" where "read_u8 = read_volatile 1"
definition read_u16 :: "'m paging_globals \<Rightarrow> u64 \<Rightarrow> byte_memory \<Rightarrow> u16 option" where "read_u16 = read_volatile 2"
definition read_u32 :: "'m paging_globals \<Rightarrow> u64 \<Rightarrow> byte_memory \<Rightarrow> u32 option" where "read_u32 = read_volatile 4"
definition read_u64 :: "'m paging_globals \<Rightarrow> u64 \<Rightarrow> byte_memory \<Rightarrow> u64 option" where "read_u64 = read_volatile 8"
definition write_u8 :: "'m paging_globals \<Rightarrow> u64 \<Rightarrow> u8 \<Rightarrow> byte_memory \<Rightarrow> byte_memory option" where "write_u8 = write_volatile 1"
definition write_u16 :: "'m paging_globals \<Rightarrow> u64 \<Rightarrow> u16 \<Rightarrow> byte_memory \<Rightarrow> byte_memory option" where "write_u16 = write_volatile 2"
definition write_u32 :: "'m paging_globals \<Rightarrow> u64 \<Rightarrow> u32 \<Rightarrow> byte_memory \<Rightarrow> byte_memory option" where "write_u32 = write_volatile 4"
definition write_u64 :: "'m paging_globals \<Rightarrow> u64 \<Rightarrow> u64 \<Rightarrow> byte_memory \<Rightarrow> byte_memory option" where "write_u64 = write_volatile 8"

text \<open>The mapping is permanent, so giving a region up does nothing.\<close>

definition unmap_physical_region :: "physical_mapping \<Rightarrow> byte_memory \<Rightarrow> byte_memory" where
  "unmap_physical_region region mem = mem"

definition read_io_u8 :: "port_device \<Rightarrow> u16 \<Rightarrow> port_trace \<Rightarrow> port_trace \<times> u8" where
  "read_io_u8 device port t = map_prod id ucast (port_read device 8 port t)"
definition read_io_u16 :: "port_device \<Rightarrow> u16 \<Rightarrow> port_trace \<Rightarrow> port_trace \<times> u16" where
  "read_io_u16 device port t = map_prod id ucast (port_read device 16 port t)"
definition read_io_u32 :: "port_device \<Rightarrow> u16 \<Rightarrow> port_trace \<Rightarrow> port_trace \<times> u32" where
  "read_io_u32 device port t = port_read device 32 port t"
definition write_io_u8 :: "u16 \<Rightarrow> u8 \<Rightarrow> port_trace \<Rightarrow> port_trace" where
  "write_io_u8 port v = port_write 8 port (ucast v)"
definition write_io_u16 :: "u16 \<Rightarrow> u16 \<Rightarrow> port_trace \<Rightarrow> port_trace" where
  "write_io_u16 port v = port_write 16 port (ucast v)"
definition write_io_u32 :: "u16 \<Rightarrow> u32 \<Rightarrow> port_trace \<Rightarrow> port_trace" where
  "write_io_u32 port v = port_write 32 port v"

text \<open>The entry points of the control-method runtime end in \<open>unimplemented!\<close>: none of them returns.\<close>

definition nanos_since_boot :: "u64 option" where
  "nanos_since_boot = None"
definition stall :: "u64 \<Rightarrow> unit option" where
  "stall microseconds = None"
definition sleep :: "u64 \<Rightarrow> unit option" where
  "sleep milliseconds = None"
definition create_mutex :: "'h option" where
  "create_mutex = None"
definition acquire :: "'h \<Rightarrow> u16 \<Rightarrow> ('e, unit) result option" where
  "acquire mutex timeout = None"
definition release :: "'h \<Rightarrow> unit option" where
  "release mutex = None"

section \<open>Round trips\<close>

lemma bytes_word_Cons [simp]: "bytes_word (b # bs) = ucast b OR push_bit 8 (bytes_word bs)"
  by (simp add: bytes_word_def)

lemma bytes_word_Nil [simp]: "bytes_word [] = 0"
  by (simp add: bytes_word_def)

lemma bit_bytes_word:
  "bit (bytes_word bs :: 'a::len word) k \<longleftrightarrow> k < LENGTH('a) \<and> k < 8 * length bs \<and> bit (bs ! (k div 8)) (k mod 8)"
proof (induction bs arbitrary: k)
  case (Cons b bs)
  show ?case
  proof (cases "k < 8")
    case True
    then show ?thesis using Cons [of "k - 8"] by (auto simp: bit_or_iff bit_push_bit_iff bit_ucast_iff)
  next
    case False
    then have d: "k div 8 = Suc ((k - 8) div 8)" "k mod 8 = (k - 8) mod 8" by (simp_all add: le_div_geq le_mod_geq)
    have "\<not> bit b k" using False bit_imp_le_length [of b k] by auto
    then show ?thesis using Cons [of "k - 8"] False by (auto simp: bit_or_iff bit_push_bit_iff bit_ucast_iff d)
  qed
qed simp

lemma bytes_of_word: "8 * n = LENGTH('a) \<Longrightarrow> bytes_word (word_bytes n w) = (w :: 'a::len word)"
proof (rule bit_word_eqI)
  fix k assume n: "8 * n = LENGTH('a)" and k: "k < LENGTH('a)"
  then have "k div 8 < n" by (simp add: less_mult_imp_div_less mult.commute)
  then show "bit (bytes_word (word_bytes n w) :: 'a word) k = bit w k"
    using n k by (simp add: bit_bytes_word word_bytes_def bit_ucast_iff bit_drop_bit_eq)
qed

lemma load_store:
  assumes "length bs \<le> 2 ^ 63"
  shows "load_bytes (length bs) a (store_bytes bs a mem) = bs"
proof (rule nth_equalityI)
  fix i assume i: "i < length (load_bytes (length bs) a (store_bytes bs a mem))"
  then have "unat (of_nat i :: u64) = i" using assms by (intro unat_of_nat_u64) (simp add: load_bytes_def)
  then show "load_bytes (length bs) a (store_bytes bs a mem) ! i = bs ! i" using i by (simp add: load_bytes_def store_bytes_def)
qed (simp add: load_bytes_def)

lemma read_write_volatile:
  assumes "8 * n = LENGTH('a)" and "n \<le> 8" and "acpi_phys_mem_offset g = Some off"
  shows "Option.bind (write_volatile n g address (v :: 'a::len word) mem) (read_volatile n g address) = Some v"
proof -
  have "length (word_bytes n v) = n" by (simp add: word_bytes_def)
  then have "load_bytes n (off + address) (store_bytes (word_bytes n v) (off + address) mem) = word_bytes n v"
    using load_store [of "word_bytes n v" "off + address" mem] assms(2) by simp
  then show ?thesis using bytes_of_word [OF assms(1), of v] assms(3) by (simp add: write_volatile_def read_volatile_def)
qed

text \<open>A write is read back by the access of the same width at the same address, through the offset of physical memory; without the offset each access panics.\<close>

lemma mmio_roundtrip:
  assumes "phys_mem_offset g = Some off"
  shows "Option.bind (write_u8 g a v8 mem) (read_u8 g a) = Some v8"
    and "Option.bind (write_u16 g a v16 mem) (read_u16 g a) = Some v16"
    and "Option.bind (write_u32 g a v32 mem) (read_u32 g a) = Some v32"
    and "Option.bind (write_u64 g a v64 mem) (read_u64 g a) = Some v64"
  using assms
  by (simp_all add: write_u8_def read_u8_def write_u16_def read_u16_def write_u32_def read_u32_def write_u64_def read_u64_def
      read_write_volatile acpi_phys_mem_offset_def)

lemma mmio_panics:
  assumes "phys_mem_offset g = None"
  shows "read_u8 g a mem = None" and "write_u64 g a v mem = None" and "map_physical_region g a n = None"
  using assms by (simp_all add: read_u8_def write_u64_def read_volatile_def write_volatile_def map_physical_region_def acpi_phys_mem_offset_def)

text \<open>A device that keeps what is written returns it to a read of the same width from the same port.\<close>

lemma ucast_take_bit_ucast:
  assumes "LENGTH('a) \<le> LENGTH('b)"
  shows "(ucast (take_bit LENGTH('a) (ucast v :: 'b::len word)) :: 'a::len word) = v"
  by (rule bit_word_eqI) (use assms in \<open>simp add: bit_ucast_iff bit_take_bit_iff\<close>)

lemma port_roundtrip:
  "snd (read_io_u8 latch_device port (write_io_u8 port v8 t)) = v8"
  "snd (read_io_u16 latch_device port (write_io_u16 port v16 t)) = v16"
  "snd (read_io_u32 latch_device port (write_io_u32 port v32 t)) = v32"
  using ucast_take_bit_ucast [where ?'a = 8 and ?'b = 32, of v8] ucast_take_bit_ucast [where ?'a = 16 and ?'b = 32, of v16]
    ucast_take_bit_ucast [where ?'a = 32 and ?'b = 32, of v32]
  by (simp_all add: read_io_u8_def write_io_u8_def read_io_u16_def write_io_u16_def read_io_u32_def write_io_u32_def)

end
