(* ===== verification/Spec2Isabelle.thy ===== *)
theory Spec2Isabelle
  imports Ring_Concurrent Timer Console Kernel_Main Interrupts Acpi_Handler
begin

text \<open>
  \<^bold>\<open>UOSC: a verified model of the portable kernel core and of the x86-64 kernel around it.\<close>

  \<^bold>\<open>The program.\<close> \<open>reference-rs\<close> is a portable, heap-allocating core library: a capability broker
  (\<open>capability.rs\<close>), a buddy allocator for physical pages and virtual memory on top of it (\<open>memory.rs\<close>), ports over
  bounded message rings (\<open>ipc.rs\<close>), a run queue (\<open>scheduler.rs\<close>), isolated vaults (\<open>sanctum.rs\<close>), a boot sequencer
  (\<open>boot.rs\<close>), timer arithmetic (\<open>timer.rs\<close>) and console logic (\<open>console.rs\<close>). \<open>kernel-x86_64\<close> is a bootable
  kernel that drives hardware page tables, task stacks, context switches, a timer-driven scheduler, a ring-3 demonstration, address
  spaces and a second processor with that core, and checks itself at boot. Ports and virtual memory ask the broker for every
  access; virtual memory, the page tables, the kernel heap and the task stacks draw frames from one physical allocator; the
  scheduler dispatches tasks from the run queue onto stacks from the stack pool and switches CR3 with them.

  \<^bold>\<open>How the code is modelled.\<close> A struct is a record, an enum a datatype, \<open>u64\<close>, \<open>u32\<close> and \<open>u8\<close> are words with
  wrapping arithmetic (the release profile), \<open>BTreeMap\<close> is an ordered association list, \<open>Vec\<close> is a list, \<open>Result\<close> is a
  sum (\<open>Err\<close>, \<open>Ok\<close>), a panic is \<open>None\<close> or an explicit outcome. A method is a function from the state to the new state and its
  result. Code outside the repository is a parameter: \<open>OffsetPageTable\<close> (locales \<open>hw_mapper\<close>, \<open>table_mapper\<close> and \<open>page_mapper\<close>, with
  implementations that satisfy them), the heap crate, the acpi crate.

  \<^bold>\<open>The theories.\<close>
  \<^item> \<open>UOSC_Prelude\<close>: types, results, words, searches; \<open>BTree_Map\<close>: the ordered map, the locale \<open>id_registry\<close> of tables under
    fresh identifiers; \<open>Dyadic\<close>: tilings of an arena by aligned blocks.
  \<^item> \<open>Capability\<close>: tokens, issue, revoke, verify, delegate, check. Mediation, finality of revocation, no ambient authority, no amplification (C1 to C4).
  \<^item> \<open>Phys_Alloc\<close>: \<open>PhysicalAllocator\<close>. Disjointness, outcomes of every branch, page accounting and full coalescing (C5 to C8).
  \<^item> \<open>Virtual_Memory\<close>: page table and \<open>ProcessMemoryContext\<close>. Outcomes, round trip, page faults (C9 to C11).
  \<^item> \<open>Ring_Buffer\<close>, \<open>Ring_Concurrent\<close>: the message ring refines a bounded FIFO (C12); under every interleaving of one producer and one consumer it stays FIFO
    without a race on a slot (C13). \<open>Ipc\<close>: ports, capability-checked send and receive (C14).
  \<^item> \<open>Run_Queue\<close>: earliest deadline, then smallest virtual runtime; no starvation (C15, C16).
  \<^item> \<open>Sanctum\<close>, \<open>Boot\<close>, \<open>Timer\<close>: tamper detection (C17), boot order (C18), divisors and conversions (C19, C20). \<open>Console\<close>: formatting and
    the cursor.
  \<^item> \<open>Context\<close>: the instructions of \<open>context.rs\<close>; the first switch to a task (C21).
  \<^item> \<open>Paging\<close>: \<open>paging.rs\<close>, \<open>cpu_features.rs\<close> and the page fault handler of \<open>interrupts.rs\<close> (C22, C23). \<open>Kernel_Heap\<close>: \<open>allocator.rs\<close> and the memory
    bring-up of \<open>main.rs\<close>; the theorem shows which frames of the bootstrap heap the physical allocator also owns (C24).
    \<open>Task_Stack\<close>: \<open>task_stack.rs\<close> (C25).
  \<^item> \<open>Kernel_Tasks\<close>: \<open>scheduler_bridge.rs\<close> as a step relation of spawns, ticks, exits and arbitrary task code between them; pool
    consistency, exited tasks, preemption round trip (C26 to C28).
  \<^item> \<open>Syscall\<close>: \<open>syscall.rs\<close>, with the ring-3 program executed from its bytes (C29, C30).
  \<^item> \<open>Self_Test\<close>: the single checks of \<open>kernel_main\<close>, the tally and \<open>qemu_exit.rs\<close>. \<open>Boot_Wait\<close>: the loop in which \<open>kernel_main\<close> waits for the tasks,
    with ticks that interrupt them anywhere.
    \<open>Boot_Memory\<close>: each check that uses memory as a stage that keeps what the next one needs. \<open>Kernel_Main\<close>: \<open>kernel_main\<close> from the end of memory bring-up to
    the exit, on one memory and with the second processor; it reaches its verdict, success is the truth for every timing of the ticks, and when the tasks reach their waits the verdict
    says which checks can fail (C31).
  \<^item> \<open>Address_Space\<close>: \<open>address_space.rs\<close> on four-level tables in physical frames. \<open>Page_Mapper\<close>: when
    mapping succeeds, how many frames it takes, which entries it leaves clear and what unmapping leaves; an address space differs from the active one in its private page alone (C32).
  \<^item> \<open>Topology\<close>, \<open>Acpi_Handler\<close>: \<open>acpi_topology.rs\<close>, with its ports from \<open>Port_Io\<close>; \<open>Smp\<close>: \<open>smp.rs\<close>, both processors and the timer under every
    interleaving, with the trampoline loading CR3 through a 32-bit register (C33). \<open>Smp_Run\<close>: \<open>bring_up_ap\<close> returns under every schedule that keeps the boot processor and the timer moving.
  \<^item> \<open>Demo_Tasks\<close>: the five task bodies of \<open>scheduler_bridge.rs\<close> run instruction point by instruction point between ticks, exits and live spawns, on the page tables of
    \<open>Address_Space\<close>; the slot of an exited task is reused (C34). \<open>Task_Spaces\<close>: CR3 always holds the space of the current task (C35). \<open>Sched_Spec\<close>: an
    abstract scheduler without stacks, registers or tables, and the simulation by the detailed one (C36). \<open>Demo_Run\<close>: the run that the kernel makes completes, and the
    read-backs of the self-test hold after it (C37).
  \<^item> \<open>Gdt\<close>: \<open>gdt.rs\<close>, the descriptor tables of both processors (C38). \<open>Interrupts\<close>: \<open>interrupts.rs\<close>, the interrupt table, the
    controllers and the handlers; what is delivered has a handler, and the timer never stalls (C39, C40).

  \<^bold>\<open>Interfaces.\<close> Each is a locale, interpreted on the model's definitions where the code provides it and on a four-level table where the page table crate does:
  \<open>ordered_map\<close> and \<open>id_registry\<close> (the ordered map, tables under fresh identifiers), \<open>access_monitor\<close> (the broker as ports and virtual memory see it), \<open>frame_source\<close>
  (the allocator as its clients see it), \<open>bounded_queue\<close> and \<open>task_queue\<close> (message ring, run queue), \<open>hw_mapper\<close>, \<open>table_mapper\<close> and its
  extension \<open>page_mapper\<close> (the page table crate over a walk and over frames), \<open>gdt_table\<close>, \<open>idt_entries\<close> and \<open>pic_chain\<close> (descriptor table, interrupt table, controllers).

  \<^bold>\<open>Bounds and fuel.\<close> \<open>user_run\<close> takes fuel for the instructions of ring 3; fourteen are enough (C30). \<open>resolve\<close> takes fuel for
  restarts of a faulting instruction; two are enough, since a resolved fault leaves the page mapped (C31). A task that has been dispatched runs to its \<open>hlt\<close> within four
  points; twenty-seven rounds of the scheduler are enough for every read-back of the self-test, and seventy-two free frames for every stack and table (C37). One \<open>hlt\<close>
  of \<open>kernel_main\<close> has fuel for 401 ticks: the tick budget is 400, and a tick after it returns to \<open>kernel_main\<close>. Eighty-nine free frames are enough for the whole boot
  test, and six more for the pages of the second processor; at most 373 ticks before the scheduler starts leave it the twenty-seven rounds; a schedule with 1227 turns of the
  boot processor and the timer covers both timeouts of \<open>bring_up_ap\<close> (C31). Between two ticks of the waiting loop a task executes at most \<open>2 ^ 32\<close> points, so that no counter
  wraps around within the budget; four points are needed only where every read-back is claimed true (C31). Every other
  loop is a total function. Identifiers are 64-bit counters: the theorems that need them fresh bound the number of operations by \<open>2 ^ 64\<close>.

  \<^bold>\<open>Not modelled.\<close> The serial port and the messages written to it: output through another crate, omitted everywhere, the handlers that only print included. The
  heap crate behind the global allocator: the \<open>Vec\<close> that the self-test compares is a list. Ticks between \<open>init\<close> and the waiting loop of \<open>kernel_main\<close> are taken in the loop.
  The copy of the ring-3 program into its page: ring 3 executes the constant. A second processor on another page table than the stored one is taken to be lost, and whether its
  breakpoint is handled is part of its configuration; that the tables it loads deliver it is C39. Page tables and data words are separate memories, and the memory that
  a context switch uses consists of cells of eight bytes.
  Orderings weaker than sequential consistency, caches of translations, the bytes of the assembled trampoline, and the build scripts are outside the model.
\<close>

end
